(* ===== verification/Prelude.thy ===== *)
theory Prelude
  imports Main "HOL-Library.Word" "HOL-Library.List_Lexorder" "HOL-Library.Multiset"
begin

text \<open>
  Shared vocabulary of the development: the machine types of the Rust sources, the
  combinators of \<^verbatim>\<open>Result\<close> and \<^verbatim>\<open>Option\<close> that the sources use, checked and saturating
  arithmetic, byte-order conversions, slices, and the generic interfaces (a codec, a
  guarded state machine) that several components implement.

  A Rust \<^verbatim>\<open>Result<T, E>\<close> is \<open>'e + 't\<close> with \<open>Inl\<close> the error; the postfix
  question mark is \<open>and_then\<close>. A \<^verbatim>\<open>usize\<close> is a \<^typ>\<open>nat\<close>: the sources only run
  on targets whose \<^verbatim>\<open>usize\<close> has 64 bits and no Rust object is longer than
  \<^verbatim>\<open>isize::MAX\<close> bytes; where that bound matters it is the predicate \<open>rust_slice\<close>.
\<close>

unbundle bit_operations_syntax

section \<open>Machine types\<close>

type_synonym byte = "8 word"
type_synonym u8 = "8 word"
type_synonym u16 = "16 word"
type_synonym u32 = "32 word"
type_synonym u64 = "64 word"
type_synonym bytes = "byte list"

named_theorems codec_simps \<open>lengths and round trips of the fixed-width encodings\<close>
named_theorems result_simps \<open>unfolding of the Result combinators\<close>

section \<open>Results\<close>

definition and_then :: "'e + 'a \<Rightarrow> ('a \<Rightarrow> 'e + 'b) \<Rightarrow> 'e + 'b" where
  "and_then r f = (case r of Inl e \<Rightarrow> Inl e | Inr x \<Rightarrow> f x)"

definition map_err :: "('e \<Rightarrow> 'f) \<Rightarrow> 'e + 'a \<Rightarrow> 'f + 'a" where
  "map_err g r = (case r of Inl e \<Rightarrow> Inl (g e) | Inr x \<Rightarrow> Inr x)"

definition ok_or :: "'a option \<Rightarrow> 'e \<Rightarrow> 'e + 'a" where
  "ok_or m e = (case m of None \<Rightarrow> Inl e | Some x \<Rightarrow> Inr x)"

lemma and_then_simps [simp]:
  "and_then (Inl e) f = Inl e"
  "and_then (Inr x) f = f x"
  by (simp_all add: and_then_def)

lemma map_err_simps [simp]:
  "map_err g (Inl e) = Inl (g e)"
  "map_err g (Inr x) = Inr x"
  by (simp_all add: map_err_def)

lemma ok_or_simps [simp]:
  "ok_or None e = Inl e"
  "ok_or (Some x) e = Inr x"
  by (simp_all add: ok_or_def)

lemma and_then_Inr_iff [result_simps]:
  "and_then r f = Inr y \<longleftrightarrow> (\<exists>x. r = Inr x \<and> f x = Inr y)"
  by (cases r) auto

lemma map_err_Inr_iff [result_simps]: "map_err g r = Inr y \<longleftrightarrow> r = Inr y"
  by (cases r) auto

lemma ok_or_Inr_iff [result_simps]: "ok_or m e = Inr y \<longleftrightarrow> m = Some y"
  by (cases m) auto

lemma and_then_cong [fundef_cong]:
  "r = r' \<Longrightarrow> (\<And>x. r' = Inr x \<Longrightarrow> f x = f' x) \<Longrightarrow> and_then r f = and_then r' f'"
  by (cases r') auto

lemma and_then_split:
  "P (and_then r f) \<longleftrightarrow> (\<forall>e. r = Inl e \<longrightarrow> P (Inl e)) \<and> (\<forall>x. r = Inr x \<longrightarrow> P (f x))"
  by (cases r) auto

section \<open>Checked and saturating arithmetic\<close>

definition checked_add :: "'a::len word \<Rightarrow> 'a word \<Rightarrow> 'a word option" where
  "checked_add a b = (if unat a + unat b < 2 ^ LENGTH('a) then Some (a + b) else None)"

definition saturating_add :: "'a::len word \<Rightarrow> 'a word \<Rightarrow> 'a word" where
  "saturating_add a b = (if unat a + unat b < 2 ^ LENGTH('a) then a + b else - 1)"

definition saturating_sub :: "'a::len word \<Rightarrow> 'a word \<Rightarrow> 'a word" where
  "saturating_sub a b = (if b \<le> a then a - b else 0)"

lemma unat_add_lt:
  "unat (a :: 'a::len word) + unat b < 2 ^ LENGTH('a) \<Longrightarrow> unat (a + b) = unat a + unat b"
  by (simp add: unat_word_ariths)

lemma checked_add_Some_iff:
  "checked_add a b = Some c \<longleftrightarrow> unat c = unat (a :: 'a::len word) + unat b"
proof
  assume "checked_add a b = Some c"
  then show "unat c = unat a + unat b"
    by (auto simp: checked_add_def unat_add_lt split: if_splits)
next
  assume c: "unat c = unat a + unat b"
  then have lt: "unat a + unat b < 2 ^ LENGTH('a)"
    using unsigned_less [of c, where 'a = nat] by simp
  with c show "checked_add a b = Some c"
    by (auto simp: checked_add_def word_unat_eq_iff unat_add_lt)
qed

lemma checked_add_None_iff:
  "checked_add a b = None \<longleftrightarrow> 2 ^ LENGTH('a) \<le> unat (a :: 'a::len word) + unat b"
  by (auto simp: checked_add_def)

lemma unat_saturating_add:
  "unat (saturating_add a b) = min (unat (a :: 'a::len word) + unat b) (2 ^ LENGTH('a) - 1)"
proof (cases "unat a + unat b < 2 ^ LENGTH('a)")
  case True
  then show ?thesis by (auto simp: saturating_add_def unat_add_lt)
next
  case False
  have "unat (- 1 :: 'a word) = 2 ^ LENGTH('a) - 1"
    by (simp add: unsigned_minus_1_eq_mask mask_eq_exp_minus_1)
  with False show ?thesis by (simp add: saturating_add_def)
qed

lemma unat_saturating_sub: "unat (saturating_sub a b) = unat a - unat b"
  by (auto simp: saturating_sub_def unat_sub word_le_nat_alt)

section \<open>Byte order\<close>

fun le_bytes :: "nat \<Rightarrow> nat \<Rightarrow> bytes" where
  "le_bytes 0 n = []"
| "le_bytes (Suc k) n = word_of_nat (n mod 256) # le_bytes k (n div 256)"

fun le_nat :: "bytes \<Rightarrow> nat" where
  "le_nat [] = 0"
| "le_nat (b # bs) = unat b + 256 * le_nat bs"

definition to_le_bytes :: "'a::len word \<Rightarrow> bytes" where
  "to_le_bytes w = le_bytes (LENGTH('a) div 8) (unat w)"

definition from_le_bytes :: "bytes \<Rightarrow> 'a::len word" where
  "from_le_bytes bs = word_of_nat (le_nat bs)"

definition to_be_bytes :: "'a::len word \<Rightarrow> bytes" where
  "to_be_bytes w = rev (to_le_bytes w)"

definition from_be_bytes :: "bytes \<Rightarrow> 'a::len word" where
  "from_be_bytes bs = from_le_bytes (rev bs)"

lemma length_le_bytes [simp]: "length (le_bytes k n) = k"
  by (induction k arbitrary: n) auto

lemma le_nat_le_bytes [simp]: "le_nat (le_bytes k n) = n mod 256 ^ k"
proof (induction k arbitrary: n)
  case (Suc k)
  have "unat (word_of_nat (n mod 256) :: byte) = n mod 256"
    by (simp add: unat_of_nat)
  with Suc show ?case by (simp add: mod_mult2_eq)
qed simp

lemma le_nat_bound: "le_nat bs < 256 ^ length bs"
proof (induction bs)
  case (Cons b bs)
  have "unat b < 256" using unsigned_less [of b, where 'a = nat] by simp
  with Cons show ?case by simp
qed simp

lemma le_bytes_le_nat [simp]: "length bs = k \<Longrightarrow> le_bytes k (le_nat bs) = bs"
proof (induction bs arbitrary: k)
  case (Cons b bs)
  have b: "unat b < 256" using unsigned_less [of b, where 'a = nat] by simp
  then have "(unat b + 256 * le_nat bs) mod 256 = unat b"
    and "(unat b + 256 * le_nat bs) div 256 = le_nat bs" by simp_all
  with Cons show ?case by auto
qed simp

lemma le_nat_inj: "length xs = length ys \<Longrightarrow> le_nat xs = le_nat ys \<Longrightarrow> xs = ys"
  by (metis le_bytes_le_nat)

lemma length_to_le_bytes [simp]: "length (to_le_bytes (w :: 'a::len word)) = LENGTH('a) div 8"
  by (simp add: to_le_bytes_def)

lemma length_to_be_bytes [simp]: "length (to_be_bytes (w :: 'a::len word)) = LENGTH('a) div 8"
  by (simp add: to_be_bytes_def)

lemma pow256: "(256 :: nat) ^ k = 2 ^ (8 * k)"
  by (simp add: power_mult)

lemma from_to_le_bytes:
  assumes "8 dvd LENGTH('a::len)"
  shows "from_le_bytes (to_le_bytes w) = (w :: 'a word)"
proof -
  from assms have "(256 :: nat) ^ (LENGTH('a) div 8) = 2 ^ LENGTH('a)"
    by (simp add: pow256)
  then show ?thesis
    by (simp add: from_le_bytes_def to_le_bytes_def)
qed

lemma to_from_le_bytes:
  assumes "8 dvd LENGTH('a::len)" and "length bs = LENGTH('a) div 8"
  shows "to_le_bytes (from_le_bytes bs :: 'a word) = bs"
proof -
  from assms have "(256 :: nat) ^ (LENGTH('a) div 8) = 2 ^ LENGTH('a)"
    by (simp add: pow256)
  with le_nat_bound [of bs] assms(2) have "le_nat bs < 2 ^ LENGTH('a)" by simp
  then have "unat (word_of_nat (le_nat bs) :: 'a word) = le_nat bs"
    by (simp add: unat_of_nat)
  with assms(2) show ?thesis
    by (simp add: from_le_bytes_def to_le_bytes_def)
qed

lemma le_roundtrips [simp, codec_simps]:
  "from_le_bytes (to_le_bytes (a :: u8)) = a"
  "from_le_bytes (to_le_bytes (b :: u16)) = b"
  "from_le_bytes (to_le_bytes (c :: u32)) = c"
  "from_le_bytes (to_le_bytes (d :: u64)) = d"
  by (simp_all add: from_to_le_bytes)

lemma be_roundtrips [simp, codec_simps]:
  "from_be_bytes (to_be_bytes (b :: u16)) = b"
  "from_be_bytes (to_be_bytes (c :: u32)) = c"
  "from_be_bytes (to_be_bytes (d :: u64)) = d"
  by (simp_all add: from_be_bytes_def to_be_bytes_def from_to_le_bytes)

lemma to_from_be_bytes:
  assumes "8 dvd LENGTH('a::len)" and "length bs = LENGTH('a) div 8"
  shows "to_be_bytes (from_be_bytes bs :: 'a word) = bs"
  using assms by (simp add: from_be_bytes_def to_be_bytes_def to_from_le_bytes)

text \<open>Big-endian strings of one width compare as the numbers they stand for.\<close>

lemma le_nat_append: "le_nat (xs @ ys) = le_nat xs + 256 ^ length xs * le_nat ys"
  by (induction xs) (auto simp: algebra_simps)

lemma be_order: "length xs = length ys \<Longrightarrow> xs < ys \<longleftrightarrow> le_nat (rev xs) < le_nat (rev ys)"
proof (induction xs ys rule: list_induct2)
  case (Cons x xs y ys)
  let ?p = "256 ^ length ys :: nat"
  have bx: "le_nat (rev xs) < ?p" and by': "le_nat (rev ys) < ?p"
    using le_nat_bound [of "rev xs"] le_nat_bound [of "rev ys"] Cons.hyps by simp_all
  consider "unat x < unat y" | "x = y" | "unat y < unat x"
    by (metis linorder_neqE_nat word_unat_eq_iff)
  then show ?case
  proof cases
    case 1
    then have "?p * unat x + ?p \<le> ?p * unat y"
      by (metis Suc_leI add.commute mult_Suc_right mult_le_mono2)
    with 1 bx show ?thesis by (auto simp: le_nat_append Cons.hyps word_less_nat_alt)
  next
    case 2
    with Cons show ?thesis by (auto simp: le_nat_append)
  next
    case 3
    then have "?p * unat y + ?p \<le> ?p * unat x"
      by (metis Suc_leI add.commute mult_Suc_right mult_le_mono2)
    with 3 by' show ?thesis by (auto simp: le_nat_append Cons.hyps word_less_nat_alt)
  qed
qed simp

lemma to_be_bytes_less_iff:
  assumes "8 dvd LENGTH('a::len)"
  shows "to_be_bytes a < to_be_bytes b \<longleftrightarrow> (a :: 'a word) < b"
proof -
  from assms have "(256 :: nat) ^ (LENGTH('a) div 8) = 2 ^ LENGTH('a)"
    by (simp add: pow256)
  then show ?thesis
    by (simp add: be_order to_be_bytes_def to_le_bytes_def word_less_nat_alt)
qed

lemma unat_from_le_bytes:
  "unat (from_le_bytes bs :: 'a::len word) = le_nat bs mod 2 ^ LENGTH('a)"
  by (simp add: from_le_bytes_def unat_of_nat)

section \<open>Widths\<close>

lemma take_bit_self_iff: "take_bit n w = w \<longleftrightarrow> unat (w :: 'a::len word) < 2 ^ n"
  by (simp add: word_unat_eq_iff unsigned_take_bit_eq take_bit_nat_eq_self_iff)

lemma ucast_down_up:
  assumes "LENGTH('b::len) \<le> LENGTH('a::len)"
  shows "ucast (ucast (x :: 'b word) :: 'a word) = x"
proof -
  have "unat x < 2 ^ LENGTH('a)"
    using unsigned_less [of x, where 'a = nat] assms
    by (meson less_le_trans one_le_numeral power_increasing)
  then show ?thesis
    by (simp add: word_unat_eq_iff unsigned_ucast_eq take_bit_nat_eq_self unsigned_take_bit_eq)
qed

lemma ucast_up_down:
  "unat (a :: 'a::len word) < 2 ^ LENGTH('b::len) \<Longrightarrow> ucast (ucast a :: 'b word) = a"
  by (simp add: word_unat_eq_iff unsigned_ucast_eq take_bit_nat_eq_self unsigned_take_bit_eq)

lemma unat_ucast_u64:
  "unat (ucast (x :: u8) :: u64) = unat x"
  "unat (ucast (y :: u16) :: u64) = unat y"
  "unat (ucast (z :: u32) :: u64) = unat z"
  using unsigned_less [of x, where 'a = nat] unsigned_less [of y, where 'a = nat]
    unsigned_less [of z, where 'a = nat]
  by (simp_all add: unsigned_ucast_eq take_bit_nat_eq_self)

section \<open>Code equations\<close>

text \<open>Equations that test for overflow on words, so that closed terms are computed without unary
  numbers of the size of the word range.\<close>

lemma add_overflow_iff: "unat (a :: 'a::len word) + unat b < 2 ^ LENGTH('a) \<longleftrightarrow> a \<le> a + b"
proof (cases "unat a + unat b < 2 ^ LENGTH('a)")
  case True
  then show ?thesis by (simp add: word_le_nat_alt unat_add_lt)
next
  case False
  have b: "unat b < 2 ^ LENGTH('a)" using unsigned_less [of b, where 'a = nat] by simp
  have a: "unat a < 2 ^ LENGTH('a)" using unsigned_less [of a, where 'a = nat] by simp
  have "unat a + unat b - 2 ^ LENGTH('a) < 2 ^ LENGTH('a)" using a b by linarith
  then have "unat (a + b) = unat a + unat b - 2 ^ LENGTH('a)"
    unfolding unat_word_ariths using False by (simp add: le_mod_geq)
  with False b have "unat (a + b) < unat a" by linarith
  with False show ?thesis by (simp add: word_le_nat_alt)
qed

lemma checked_add_code [code]: "checked_add a b = (if a \<le> a + b then Some (a + b) else None)"
  by (simp add: checked_add_def add_overflow_iff)

lemma saturating_add_code [code]: "saturating_add a b = (if a \<le> a + b then a + b else - 1)"
  by (simp add: saturating_add_def add_overflow_iff)

section \<open>Slices\<close>

definition subslice :: "nat \<Rightarrow> nat \<Rightarrow> 'a list \<Rightarrow> 'a list" where
  "subslice i j xs = take (j - i) (drop i xs)"

definition rust_slice :: "'a list \<Rightarrow> bool" where
  "rust_slice xs \<longleftrightarrow> length xs < 2 ^ 63"

definition len_u64 :: "'a list \<Rightarrow> u64" where
  "len_u64 xs = word_of_nat (length xs)"

definition len_u32 :: "'a list \<Rightarrow> u32" where
  "len_u32 xs = word_of_nat (length xs)"

lemma length_subslice [simp, codec_simps]: "length (subslice i j xs) = min (j - i) (length xs - i)"
  by (simp add: subslice_def)

lemma subslice_append_left [simp]: "j \<le> length xs \<Longrightarrow> subslice i j (xs @ ys) = subslice i j xs"
  by (cases "i \<le> j") (auto simp: subslice_def)

lemma subslice_append_right [simp]:
  "length xs \<le> i \<Longrightarrow> subslice i j (xs @ ys) = subslice (i - length xs) (j - length xs) ys"
  by (simp add: subslice_def)

lemma subslice_Nil [simp]: "subslice i j [] = []"
  by (simp add: subslice_def)

lemma subslice_full [simp]: "length xs \<le> j \<Longrightarrow> subslice 0 j xs = xs"
  by (simp add: subslice_def)

lemma subslice_join:
  "i \<le> j \<Longrightarrow> j \<le> k \<Longrightarrow> subslice i j xs @ subslice j k xs = subslice i k xs"
proof -
  assume "i \<le> j" "j \<le> k"
  then have "k - i = (j - i) + (k - j)" and "drop j xs = drop (j - i) (drop i xs)"
    by simp_all
  then show ?thesis by (simp add: subslice_def take_add)
qed

lemma subslice_prefix: "subslice i j (subslice 0 k xs) = subslice i (min j k) xs"
  by (simp add: subslice_def drop_take min_def)

lemma unat_len_u64: "rust_slice xs \<Longrightarrow> unat (len_u64 xs) = length xs"
  by (simp add: len_u64_def rust_slice_def unat_of_nat)

lemma unat_len_u32: "length xs < 2 ^ 32 \<Longrightarrow> unat (len_u32 xs) = length xs"
  by (simp add: len_u32_def unat_of_nat)

lemma rust_slice_append: "rust_slice (xs @ ys) \<Longrightarrow> rust_slice xs \<and> rust_slice ys"
  by (simp add: rust_slice_def)

section \<open>Generic interfaces\<close>

text \<open>
  A codec: every valid value encodes, and decoding the encoding gives the value back. The
  client's facts are the ones a store relies on: distinct values never share an encoding,
  and a decoder applied to an encoding never fails.
\<close>

locale codec =
  fixes enc :: "'a \<Rightarrow> 'e + bytes"
    and dec :: "bytes \<Rightarrow> 'f + 'a"
    and valid :: "'a \<Rightarrow> bool"
  assumes enc_ok: "valid x \<Longrightarrow> \<exists>bs. enc x = Inr bs"
    and dec_enc: "valid x \<Longrightarrow> enc x = Inr bs \<Longrightarrow> dec bs = Inr x"
begin

lemma enc_inj:
  assumes "valid x" and "valid y" and "enc x = Inr bs" and "enc y = Inr bs"
  shows "x = y"
proof -
  from assms(1,3) have "dec bs = Inr x" by (rule dec_enc)
  moreover from assms(2,4) have "dec bs = Inr y" by (rule dec_enc)
  ultimately show ?thesis by simp
qed

lemma roundtrip: "valid x \<Longrightarrow> \<exists>bs. enc x = Inr bs \<and> dec bs = Inr x"
  using enc_ok dec_enc by blast

lemma enc_inj_on: "inj_on enc (Collect valid)"
  by (rule inj_onI) (metis enc_inj enc_ok mem_Collect_eq)

end

text \<open>
  A canonical codec also re-encodes whatever it accepts to the very bytes it was given: no
  value has a second accepted encoding.
\<close>

locale canonical_codec = codec +
  assumes dec_valid: "dec bs = Inr x \<Longrightarrow> valid x"
    and enc_dec: "dec bs = Inr x \<Longrightarrow> enc x = Inr bs"
begin

lemma dec_inj:
  assumes "dec bs = Inr x" and "dec cs = Inr x"
  shows "bs = cs"
proof -
  from assms(1) have "enc x = Inr bs" by (rule enc_dec)
  moreover from assms(2) have "enc x = Inr cs" by (rule enc_dec)
  ultimately show ?thesis by simp
qed

lemma dec_iff_enc: "dec bs = Inr x \<longleftrightarrow> valid x \<and> enc x = Inr bs"
  using dec_enc dec_valid enc_dec by blast

end

text \<open>
  A self-delimiting format: parsing consumes a positive number of bytes and depends on those
  bytes only. A buffer is then the concatenation of whole items in at most one way.
\<close>

locale self_delimiting =
  fixes parse :: "bytes \<Rightarrow> 'e + 'a \<times> nat"
  assumes parse_len: "parse w = Inr (x, n) \<Longrightarrow> 0 < n \<and> n \<le> length w"
    and parse_prefix: "parse w = Inr (x, n) \<Longrightarrow> parse (take n w @ r) = Inr (x, n)"
begin

lemma parse_whole: "parse w = Inr (x, length w) \<Longrightarrow> parse (w @ r) = Inr (x, length w)"
  using parse_prefix [of w x "length w" r] by simp

lemma concat_unique:
  assumes "\<forall>w \<in> set us. \<exists>x. parse w = Inr (x, length w)"
    and "\<forall>w \<in> set vs. \<exists>x. parse w = Inr (x, length w)" and "concat us = concat vs"
  shows "us = vs"
  using assms
proof (induction us vs rule: list_induct2')
  case (4 u us v vs)
  obtain x y where x: "parse u = Inr (x, length u)" and y: "parse v = Inr (y, length v)"
    using "4.prems"(1,2) by auto
  have "u @ concat us = v @ concat vs" using "4.prems"(3) by simp
  then have "Inr (x, length u) = (Inr (y, length v) :: 'e + 'a \<times> nat)"
    using parse_whole [OF x, of "concat us"] parse_whole [OF y, of "concat vs"] by simp
  then have "length u = length v" by simp
  with \<open>u @ concat us = v @ concat vs\<close> have "u = v" "concat us = concat vs" by simp_all
  with "4.IH" "4.prems" show ?case by simp
qed (auto dest: parse_len)

end

text \<open>
  A machine whose operations may refuse: a step either errors and leaves the state as it
  was, or yields the next state. A property that holds at the start and that every accepted
  step with admissible arguments keeps holds after any accepted sequence of such steps.
\<close>

fun run_steps :: "('s \<Rightarrow> 'ev \<Rightarrow> 'e + 's) \<Rightarrow> 's \<Rightarrow> 'ev list \<Rightarrow> 'e + 's" where
  "run_steps step s [] = Inr s"
| "run_steps step s (ev # evs) = and_then (step s ev) (\<lambda>s'. run_steps step s' evs)"

lemma run_steps_append:
  "run_steps step s (xs @ ys) = and_then (run_steps step s xs) (\<lambda>s'. run_steps step s' ys)"
  by (induction xs arbitrary: s) (auto simp: and_then_def split: sum.splits)

inductive reaches :: "('s \<Rightarrow> 'ev \<Rightarrow> 'e + 's) \<Rightarrow> ('ev \<Rightarrow> bool) \<Rightarrow> 's \<Rightarrow> 's \<Rightarrow> bool"
  for step :: "'s \<Rightarrow> 'ev \<Rightarrow> 'e + 's" and ok :: "'ev \<Rightarrow> bool" and s0 :: 's where
  reaches_refl: "reaches step ok s0 s0"
| reaches_step: "reaches step ok s0 s \<Longrightarrow> ok ev \<Longrightarrow> step s ev = Inr t \<Longrightarrow> reaches step ok s0 t"

inductive_simps reaches_simps: "reaches step ok s0 t"

lemma run_steps_reaches:
  "run_steps step s evs = Inr t \<Longrightarrow> list_all ok evs \<Longrightarrow> reaches step ok s0 s \<Longrightarrow> reaches step ok s0 t"
  by (induction evs arbitrary: s) (auto simp: result_simps intro: reaches_step)

lemma reaches_run_steps:
  "reaches step ok s0 t \<Longrightarrow> \<exists>evs. list_all ok evs \<and> run_steps step s0 evs = Inr t"
proof (induction rule: reaches.induct)
  case reaches_refl
  show ?case by (rule exI [of _ "[]"]) simp
next
  case (reaches_step s ev t)
  then obtain evs where "list_all ok evs" "run_steps step s0 evs = Inr s" by blast
  with reaches_step.hyps(2,3) have "list_all ok (evs @ [ev]) \<and> run_steps step s0 (evs @ [ev]) = Inr t"
    by (simp add: run_steps_append)
  then show ?case by blast
qed

locale guarded_machine =
  fixes step :: "'s \<Rightarrow> 'ev \<Rightarrow> 'e + 's"
    and ok :: "'ev \<Rightarrow> bool"
    and inv :: "'s \<Rightarrow> bool"
  assumes step_inv: "inv s \<Longrightarrow> ok ev \<Longrightarrow> step s ev = Inr t \<Longrightarrow> inv t"
begin

lemma reaches_inv: "reaches step ok s t \<Longrightarrow> inv s \<Longrightarrow> inv t"
  by (induction rule: reaches.induct) (auto intro: step_inv)

lemma run_inv: "run_steps step s evs = Inr t \<Longrightarrow> list_all ok evs \<Longrightarrow> inv s \<Longrightarrow> inv t"
  by (rule reaches_inv [OF run_steps_reaches [OF _ _ reaches_refl]])

end

end
