(* ===== verification/Cbor_Envelope.thy ===== *)
theory Cbor_Envelope
  imports Prelude
begin

text \<open>
  The deterministic CBOR envelope codec, \<^verbatim>\<open>crates/residiuum-format/src/cbor_envelope.rs\<close>.

  The reader is a cursor over the input; \<open>read_value\<close> builds a value and \<open>skip_value\<close>
  checks the deterministic rules (definite lengths, shortest heads, unique map keys in
  encoded order, valid UTF-8). The writers return the bytes they append. A \<^verbatim>\<open>String\<close> is
  represented by its UTF-8 bytes, \<^verbatim>\<open>std::str::from_utf8\<close> by \<open>utf8_valid\<close>.

  The theorems compare both directions with \<open>enc_value\<close>, the encoding as a total function
  on canonical values: the reader accepts exactly those encodings.
\<close>

section \<open>Data\<close>

datatype cbor_envelope_error =
    CborTruncated
  | CborTrailingBytes
  | CborNotMap
  | CborIndefinite
  | CborNonShortest
  | CborDuplicateKey
  | CborUnsortedKeys
  | CborNonUintKey
  | CborInvalidUtf8
  | CborUnsupported
  | CborFloatRejected
  | CborTagRejected

datatype cbor_value =
    Uint u64
  | Nint u64
  | Bytes bytes
  | Text bytes
  | Array "cbor_value list"
  | Map "(u64 \<times> cbor_value) list"
  | Bool bool
  | Null

record cursor =
  cur_bytes :: bytes
  cur_pos :: nat

definition EMPTY_ENVELOPE :: bytes where
  "EMPTY_ENVELOPE = [0xa0]"

section \<open>UTF-8 (std::str::from_utf8)\<close>

definition utf8_cont :: "byte \<Rightarrow> bool" where
  "utf8_cont b \<longleftrightarrow> 0x80 \<le> b \<and> b \<le> 0xbf"

fun utf8_valid :: "bytes \<Rightarrow> bool" where
  "utf8_valid [] = True"
| "utf8_valid (a # xs) =
     (if a \<le> 0x7f then utf8_valid xs
      else if 0xc2 \<le> a \<and> a \<le> 0xdf then
        (case xs of b # ys \<Rightarrow> utf8_cont b \<and> utf8_valid ys | _ \<Rightarrow> False)
      else if 0xe0 \<le> a \<and> a \<le> 0xef then
        (case xs of b # c # ys \<Rightarrow>
           utf8_cont b \<and> utf8_cont c \<and> (a = 0xe0 \<longrightarrow> 0xa0 \<le> b) \<and> (a = 0xed \<longrightarrow> b \<le> 0x9f)
           \<and> utf8_valid ys | _ \<Rightarrow> False)
      else if 0xf0 \<le> a \<and> a \<le> 0xf4 then
        (case xs of b # c # d # ys \<Rightarrow>
           utf8_cont b \<and> utf8_cont c \<and> utf8_cont d \<and> (a = 0xf0 \<longrightarrow> 0x90 \<le> b)
           \<and> (a = 0xf4 \<longrightarrow> b \<le> 0x8f) \<and> utf8_valid ys | _ \<Rightarrow> False)
      else False)"

section \<open>Cursor\<close>

definition cursor_new :: "bytes \<Rightarrow> cursor" where
  "cursor_new bs = \<lparr>cur_bytes = bs, cur_pos = 0\<rparr>"

definition cur_is_empty :: "cursor \<Rightarrow> bool" where
  "cur_is_empty c \<longleftrightarrow> length (cur_bytes c) \<le> cur_pos c"

definition cur_remaining :: "cursor \<Rightarrow> nat" where
  "cur_remaining c = length (cur_bytes c) - cur_pos c"

definition cur_take :: "nat \<Rightarrow> cursor \<Rightarrow> cbor_envelope_error + bytes \<times> cursor" where
  "cur_take n c =
     (if cur_remaining c < n then Inl CborTruncated
      else Inr (subslice (cur_pos c) (cur_pos c + n) (cur_bytes c), c\<lparr>cur_pos := cur_pos c + n\<rparr>))"

definition cur_peek :: "cursor \<Rightarrow> cbor_envelope_error + byte" where
  "cur_peek c =
     (if cur_pos c < length (cur_bytes c) then Inr (cur_bytes c ! cur_pos c) else Inl CborTruncated)"

definition read_head :: "cursor \<Rightarrow> cbor_envelope_error + (u8 \<times> u64) \<times> cursor" where
  "read_head c =
     and_then (cur_take 1 c) (\<lambda>(h, c1).
       let head = h ! 0; major = drop_bit 5 head; ai = head AND 0x1f in
       if ai \<le> 23 then Inr ((major, ucast ai), c1)
       else if ai = 24 then
         and_then (cur_take 1 c1) (\<lambda>(raw, c2).
           let b = ucast (raw ! 0) in
           if b < 24 then Inl CborNonShortest else Inr ((major, b), c2))
       else if ai = 25 then
         and_then (cur_take 2 c1) (\<lambda>(raw, c2).
           let v = ucast (from_be_bytes raw :: u16) in
           if v < 256 then Inl CborNonShortest else Inr ((major, v), c2))
       else if ai = 26 then
         and_then (cur_take 4 c1) (\<lambda>(raw, c2).
           let v = ucast (from_be_bytes raw :: u32) in
           if v < 65536 then Inl CborNonShortest else Inr ((major, v), c2))
       else if ai = 27 then
         and_then (cur_take 8 c1) (\<lambda>(raw, c2).
           let v = from_be_bytes raw in
           if v < 0x100000000 then Inl CborNonShortest else Inr ((major, v), c2))
       else if ai = 31 then Inl CborIndefinite
       else Inl CborUnsupported)"

definition bound_collection_len :: "cursor \<Rightarrow> u64 \<Rightarrow> nat \<Rightarrow> cbor_envelope_error + nat" where
  "bound_collection_len c arg min_item_bytes =
     (let n = unat arg; max_items = cur_remaining c div max min_item_bytes 1 in
      if max_items < n then Inl CborTruncated else Inr n)"

definition read_map_len :: "cursor \<Rightarrow> cbor_envelope_error + nat \<times> cursor" where
  "read_map_len c =
     and_then (read_head c) (\<lambda>((major, arg), c1).
       if major \<noteq> 5 then Inl CborNotMap
       else and_then (bound_collection_len c1 arg 2) (\<lambda>n. Inr (n, c1)))"

definition read_array_len :: "cursor \<Rightarrow> cbor_envelope_error + nat \<times> cursor" where
  "read_array_len c =
     and_then (read_head c) (\<lambda>((major, arg), c1).
       if major \<noteq> 4 then Inl CborUnsupported
       else and_then (bound_collection_len c1 arg 1) (\<lambda>n. Inr (n, c1)))"

definition read_uint :: "cursor \<Rightarrow> cbor_envelope_error + u64 \<times> cursor" where
  "read_uint c =
     and_then (read_head c) (\<lambda>((major, arg), c1).
       if major \<noteq> 0 then Inl CborNonUintKey else Inr (arg, c1))"

definition read_uint_any :: "cursor \<Rightarrow> cbor_envelope_error + u64 \<times> cursor" where
  "read_uint_any c =
     and_then (read_head c) (\<lambda>((major, arg), c1).
       if major \<noteq> 0 then Inl CborUnsupported else Inr (arg, c1))"

definition read_bstr :: "cursor \<Rightarrow> cbor_envelope_error + bytes \<times> cursor" where
  "read_bstr c =
     and_then (read_head c) (\<lambda>((major, arg), c1).
       if major \<noteq> 2 then Inl CborUnsupported else cur_take (unat arg) c1)"

definition read_tstr :: "cursor \<Rightarrow> cbor_envelope_error + bytes \<times> cursor" where
  "read_tstr c =
     and_then (read_head c) (\<lambda>((major, arg), c1).
       if major \<noteq> 3 then Inl CborUnsupported
       else and_then (cur_take (unat arg) c1) (\<lambda>(raw, c2).
         if utf8_valid raw then Inr (raw, c2) else Inl CborInvalidUtf8))"

definition read_simple_value :: "cursor \<Rightarrow> cbor_envelope_error + cbor_value \<times> cursor" where
  "read_simple_value c =
     and_then (cur_take 1 c) (\<lambda>(h, c1).
       let ai = (h ! 0) AND 0x1f in
       if ai = 20 then Inr (Bool False, c1)
       else if ai = 21 then Inr (Bool True, c1)
       else if ai = 22 then Inr (Null, c1)
       else if ai = 23 then Inl CborUnsupported
       else if ai = 24 then and_then (cur_take 1 c1) (\<lambda>_. Inl CborUnsupported)
       else if 25 \<le> ai \<and> ai \<le> 27 then Inl CborFloatRejected
       else if ai = 31 then Inl CborIndefinite
       else Inl CborUnsupported)"

section \<open>Progress of the readers\<close>

definition advances :: "cursor \<Rightarrow> cursor \<Rightarrow> bool" where
  "advances c c' \<longleftrightarrow> cur_bytes c' = cur_bytes c \<and> cur_pos c < cur_pos c'
     \<and> cur_pos c' \<le> length (cur_bytes c)"

lemma advances_trans: "advances a b \<Longrightarrow> advances b c \<Longrightarrow> advances a c"
  by (auto simp: advances_def)

lemma advances_remaining: "advances c c' \<Longrightarrow> cur_remaining c' < cur_remaining c"
  by (auto simp: advances_def cur_remaining_def)

lemma cur_take_advances:
  "cur_take n c = Inr (x, c') \<Longrightarrow> 0 < n \<Longrightarrow> advances c c'"
  by (auto simp: cur_take_def advances_def cur_remaining_def split: if_splits)

lemma read_head_advances: "read_head c = Inr (x, c') \<Longrightarrow> advances c c'"
  by (auto simp: read_head_def Let_def result_simps split: if_splits prod.splits
      dest!: cur_take_advances intro: advances_trans)

lemma cur_take_after: "cur_take n c1 = Inr (x, c') \<Longrightarrow> advances c c1 \<Longrightarrow> advances c c'"
  by (auto simp: cur_take_def advances_def cur_remaining_def split: if_splits)

lemma read_str_advances:
  "read_bstr c = Inr (x, c') \<Longrightarrow> advances c c'"
  "read_tstr c = Inr (x, c') \<Longrightarrow> advances c c'"
  by (auto simp: read_bstr_def read_tstr_def result_simps split: if_splits prod.splits
      dest!: read_head_advances intro: cur_take_after)

lemma read_len_advances:
  "read_map_len c = Inr (n, c') \<Longrightarrow> advances c c'"
  "read_array_len c = Inr (n, c') \<Longrightarrow> advances c c'"
  "read_uint c = Inr (u, c') \<Longrightarrow> advances c c'"
  "read_uint_any c = Inr (u, c') \<Longrightarrow> advances c c'"
  by (auto simp: read_map_len_def read_array_len_def read_uint_def read_uint_any_def result_simps
      split: if_splits prod.splits dest!: read_head_advances)

lemma read_simple_advances: "read_simple_value c = Inr (v, c') \<Longrightarrow> advances c c'"
  by (auto simp: read_simple_value_def Let_def result_simps split: if_splits prod.splits
      dest!: cur_take_advances)

lemmas leaf_advances = read_len_advances read_str_advances read_simple_advances

section \<open>Values\<close>

function (sequential) skip_value :: "cursor \<Rightarrow> cbor_envelope_error + cursor"
  and skip_array_items :: "nat \<Rightarrow> cursor \<Rightarrow> cbor_envelope_error + cursor"
  and skip_map_entries :: "nat \<Rightarrow> bytes option \<Rightarrow> u64 list \<Rightarrow> cursor \<Rightarrow> cbor_envelope_error + cursor"
where
  "skip_value c =
     and_then (cur_peek c) (\<lambda>head.
       let major = drop_bit 5 head in
       if major = 0 \<or> major = 1 then and_then (read_head c) (\<lambda>(x, c1). Inr c1)
       else if major = 2 then and_then (read_bstr c) (\<lambda>(x, c1). Inr c1)
       else if major = 3 then and_then (read_tstr c) (\<lambda>(x, c1). Inr c1)
       else if major = 4 then and_then (read_array_len c) (\<lambda>(n, c1). skip_array_items n c1)
       else if major = 5 then and_then (read_map_len c) (\<lambda>(n, c1). skip_map_entries n None [] c1)
       else if major = 6 then Inl CborTagRejected
       else if major = 7 then and_then (read_simple_value c) (\<lambda>(x, c1). Inr c1)
       else Inl CborUnsupported)"
| "skip_array_items 0 c = Inr c"
| "skip_array_items (Suc n) c = and_then (skip_value c) (\<lambda>c1. skip_array_items n c1)"
| "skip_map_entries 0 prev_key_enc seen c = Inr c"
| "skip_map_entries (Suc n) prev_key_enc seen c =
     and_then (read_uint c) (\<lambda>(key, c1).
       let key_enc = subslice (cur_pos c) (cur_pos c1) (cur_bytes c) in
       if key \<in> set seen then Inl CborDuplicateKey
       else if (case prev_key_enc of None \<Rightarrow> False | Some prev \<Rightarrow> key_enc \<le> prev)
         then Inl CborUnsortedKeys
       else and_then (skip_value c1) (\<lambda>c2. skip_map_entries n (Some key_enc) (seen @ [key]) c2))"
  by pat_completeness auto

lemma skip_partial_advances:
  "skip_value_skip_array_items_skip_map_entries_dom (Inl c) \<Longrightarrow>
     (\<forall>c'. skip_value c = Inr c' \<longrightarrow> advances c c')"
  "skip_value_skip_array_items_skip_map_entries_dom (Inr (Inl (n, c))) \<Longrightarrow>
     (\<forall>c0 c'. skip_array_items n c = Inr c' \<longrightarrow> advances c0 c \<longrightarrow> advances c0 c')"
  "skip_value_skip_array_items_skip_map_entries_dom (Inr (Inr (n, p, s, c))) \<Longrightarrow>
     (\<forall>c0 c'. skip_map_entries n p s c = Inr c' \<longrightarrow> advances c0 c \<longrightarrow> advances c0 c')"
proof (induction c and n c and n p s c rule:
    skip_value_skip_array_items_skip_map_entries.pinduct)
  case (1 c)
  show ?case
  proof (intro allI impI)
    fix c' assume ok: "skip_value c = Inr c'"
    then obtain h where h: "cur_peek c = Inr h"
      by (auto simp: skip_value.psimps [OF "1.hyps"] result_simps)
    consider (leaf) "drop_bit 5 h \<noteq> 4" "drop_bit 5 h \<noteq> 5"
      | (arr) "drop_bit 5 h = 4" | (map) "drop_bit 5 h = 5" by blast
    then show "advances c c'"
    proof cases
      case leaf
      with ok h show ?thesis
        by (auto simp: skip_value.psimps [OF "1.hyps"] result_simps Let_def split: if_splits
            dest: leaf_advances read_head_advances)
    next
      case arr
      with ok h obtain n c1 where "read_array_len c = Inr (n, c1)" "skip_array_items n c1 = Inr c'"
        by (auto simp: skip_value.psimps [OF "1.hyps"] result_simps Let_def)
      with "1.IH"(1) [OF h refl, of "(n, c1)" n c1] arr show ?thesis
        by (auto dest: leaf_advances(2))
    next
      case map
      with ok h obtain n c1 where "read_map_len c = Inr (n, c1)"
          "skip_map_entries n None [] c1 = Inr c'"
        by (auto simp: skip_value.psimps [OF "1.hyps"] result_simps Let_def)
      with "1.IH"(2) [OF h refl, of "(n, c1)" n c1] map show ?thesis
        by (auto dest: leaf_advances(1))
    qed
  qed
next
  case (2 c)
  then show ?case by (simp add: skip_array_items.psimps)
next
  case (3 n c)
  then show ?case
    by (auto simp: skip_array_items.psimps result_simps intro: advances_trans)
next
  case (4 p s c)
  then show ?case by (simp add: skip_map_entries.psimps)
next
  case (5 n p s c)
  show ?case
  proof (intro allI impI)
    fix c0 c' assume ok: "skip_map_entries (Suc n) p s c = Inr c'" and a: "advances c0 c"
    then obtain k c1 c2 where *: "read_uint c = Inr (k, c1)" "k \<notin> set s"
        "\<not> (case p of None \<Rightarrow> False
             | Some prev \<Rightarrow> subslice (cur_pos c) (cur_pos c1) (cur_bytes c) \<le> prev)"
        "skip_value c1 = Inr c2"
        "skip_map_entries n (Some (subslice (cur_pos c) (cur_pos c1) (cur_bytes c))) (s @ [k]) c2
           = Inr c'"
      by (auto simp: skip_map_entries.psimps(2) [OF "5.hyps"] result_simps Let_def split: if_splits)
    have "advances c c1" using *(1) by (rule leaf_advances(3))
    moreover have "advances c1 c2"
      using "5.IH"(1) [OF *(1) refl refl *(2,3)] *(4) by blast
    ultimately have "advances c0 c2" using a advances_trans by blast
    then show "advances c0 c'"
      using "5.IH"(2) [OF *(1) refl refl *(2,3,4)] *(5) by blast
  qed
qed

termination skip_value
proof (relation "measure (\<lambda>x. case x of Inl c \<Rightarrow> 2 * cur_remaining c
    | Inr (Inl (n, c)) \<Rightarrow> 2 * cur_remaining c + 1
    | Inr (Inr (n, p, s, c)) \<Rightarrow> 2 * cur_remaining c + 1)", goal_cases)
qed (auto dest!: leaf_advances skip_partial_advances(1)[rule_format] advances_remaining)

function (sequential) read_value :: "cursor \<Rightarrow> cbor_envelope_error + cbor_value \<times> cursor"
  and read_array_items :: "nat \<Rightarrow> cursor \<Rightarrow> cbor_envelope_error + cbor_value list \<times> cursor"
  and read_map_items :: "nat \<Rightarrow> cursor \<Rightarrow> cbor_envelope_error + (u64 \<times> cbor_value) list \<times> cursor"
where
  "read_value c =
     and_then (cur_peek c) (\<lambda>head.
       let major = drop_bit 5 head in
       if major = 0 then and_then (read_uint_any c) (\<lambda>(n, c1). Inr (Uint n, c1))
       else if major = 1 then and_then (read_head c) (\<lambda>((m, arg), c1). Inr (Nint arg, c1))
       else if major = 2 then and_then (read_bstr c) (\<lambda>(d, c1). Inr (Bytes d, c1))
       else if major = 3 then and_then (read_tstr c) (\<lambda>(d, c1). Inr (Text d, c1))
       else if major = 4 then
         and_then (read_array_len c) (\<lambda>(n, c1).
           and_then (read_array_items n c1) (\<lambda>(items, c2). Inr (Array items, c2)))
       else if major = 5 then
         and_then (read_map_len c) (\<lambda>(n, c1).
           and_then (read_map_items n c1) (\<lambda>(items, c2). Inr (Map items, c2)))
       else if major = 6 then Inl CborTagRejected
       else if major = 7 then read_simple_value c
       else Inl CborUnsupported)"
| "read_array_items 0 c = Inr ([], c)"
| "read_array_items (Suc n) c =
     and_then (read_value c) (\<lambda>(v, c1).
       and_then (read_array_items n c1) (\<lambda>(vs, c2). Inr (v # vs, c2)))"
| "read_map_items 0 c = Inr ([], c)"
| "read_map_items (Suc n) c =
     and_then (read_uint c) (\<lambda>(k, c1).
       and_then (read_value c1) (\<lambda>(v, c2).
         and_then (read_map_items n c2) (\<lambda>(es, c3). Inr ((k, v) # es, c3))))"
  by pat_completeness auto

lemma read_partial_advances:
  "read_value_read_array_items_read_map_items_dom (Inl c) \<Longrightarrow>
     (\<forall>v c'. read_value c = Inr (v, c') \<longrightarrow> advances c c')"
  "read_value_read_array_items_read_map_items_dom (Inr (Inl (n, c))) \<Longrightarrow>
     (\<forall>c0 vs c'. read_array_items n c = Inr (vs, c') \<longrightarrow> advances c0 c \<longrightarrow> advances c0 c')"
  "read_value_read_array_items_read_map_items_dom (Inr (Inr (n, c))) \<Longrightarrow>
     (\<forall>c0 es c'. read_map_items n c = Inr (es, c') \<longrightarrow> advances c0 c \<longrightarrow> advances c0 c')"
proof (induction c and n c and n c rule: read_value_read_array_items_read_map_items.pinduct)
  case (1 c)
  show ?case
  proof (intro allI impI)
    fix v c' assume ok: "read_value c = Inr (v, c')"
    then obtain h where h: "cur_peek c = Inr h"
      by (auto simp: read_value.psimps [OF "1.hyps"] result_simps)
    consider (leaf) "drop_bit 5 h \<noteq> 4" "drop_bit 5 h \<noteq> 5"
      | (arr) "drop_bit 5 h = 4" | (map) "drop_bit 5 h = 5" by blast
    then show "advances c c'"
    proof cases
      case leaf
      with ok h show ?thesis
        by (auto simp: read_value.psimps [OF "1.hyps"] result_simps Let_def split: if_splits
            dest: leaf_advances read_head_advances)
    next
      case arr
      with ok h obtain n c1 vs where "read_array_len c = Inr (n, c1)"
          "read_array_items n c1 = Inr (vs, c')"
        by (auto simp: read_value.psimps [OF "1.hyps"] result_simps Let_def)
      with "1.IH"(1) [OF h refl, of "(n, c1)" n c1] arr show ?thesis
        by (auto dest: leaf_advances(2))
    next
      case map
      with ok h obtain n c1 es where "read_map_len c = Inr (n, c1)"
          "read_map_items n c1 = Inr (es, c')"
        by (auto simp: read_value.psimps [OF "1.hyps"] result_simps Let_def)
      with "1.IH"(2) [OF h refl, of "(n, c1)" n c1] map show ?thesis
        by (auto dest: leaf_advances(1))
    qed
  qed
next
  case (2 c)
  then show ?case by (simp add: read_array_items.psimps)
next
  case (3 n c)
  show ?case
  proof (intro allI impI)
    fix c0 vs c' assume ok: "read_array_items (Suc n) c = Inr (vs, c')" and a: "advances c0 c"
    then obtain v c1 ws where *: "read_value c = Inr (v, c1)" "read_array_items n c1 = Inr (ws, c')"
      by (auto simp: read_array_items.psimps(2) [OF "3.hyps"] result_simps)
    have "advances c0 c1" using "3.IH"(1) *(1) a advances_trans by blast
    then show "advances c0 c'" using "3.IH"(2) [OF *(1) refl] *(2) by blast
  qed
next
  case (4 c)
  then show ?case by (simp add: read_map_items.psimps)
next
  case (5 n c)
  show ?case
  proof (intro allI impI)
    fix c0 es c' assume ok: "read_map_items (Suc n) c = Inr (es, c')" and a: "advances c0 c"
    then obtain k c1 v c2 fs where *: "read_uint c = Inr (k, c1)" "read_value c1 = Inr (v, c2)"
        "read_map_items n c2 = Inr (fs, c')"
      by (auto simp: read_map_items.psimps(2) [OF "5.hyps"] result_simps)
    have "advances c c1" using *(1) by (rule leaf_advances(3))
    moreover have "advances c1 c2" using "5.IH"(1) [OF *(1) refl] *(2) by blast
    ultimately have "advances c0 c2" using a advances_trans by blast
    then show "advances c0 c'" using "5.IH"(2) [OF *(1) refl *(2) refl] *(3) by blast
  qed
qed

termination read_value
proof (relation "measure (\<lambda>x. case x of Inl c \<Rightarrow> 2 * cur_remaining c
    | Inr (Inl (n, c)) \<Rightarrow> 2 * cur_remaining c + 1
    | Inr (Inr (n, c)) \<Rightarrow> 2 * cur_remaining c + 1)", goal_cases)
qed (auto dest!: leaf_advances read_partial_advances(1)[rule_format] advances_remaining)

declare skip_value.simps [simp del] read_value.simps [simp del]

section \<open>Envelope operations\<close>

definition read_envelope_map :: "cursor \<Rightarrow> cbor_envelope_error + cursor" where
  "read_envelope_map c =
     and_then (cur_peek c) (\<lambda>head.
       if drop_bit 5 head \<noteq> 5 then Inl CborNotMap
       else and_then (read_map_len c) (\<lambda>(n, c1). skip_map_entries n None [] c1))"

definition validate_deterministic_cbor_envelope :: "bytes \<Rightarrow> cbor_envelope_error + unit" where
  "validate_deterministic_cbor_envelope bs =
     and_then (read_envelope_map (cursor_new bs)) (\<lambda>c.
       if \<not> cur_is_empty c then Inl CborTrailingBytes else Inr ())"

definition decode_deterministic_uint_map ::
    "bytes \<Rightarrow> cbor_envelope_error + (u64 \<times> cbor_value) list" where
  "decode_deterministic_uint_map bs =
     and_then (validate_deterministic_cbor_envelope bs) (\<lambda>_.
       and_then (read_map_len (cursor_new bs)) (\<lambda>(n, c1).
         and_then (read_map_items n c1) (\<lambda>(out, c2). Inr out)))"

definition write_type_arg :: "u8 \<Rightarrow> u64 \<Rightarrow> bytes" where
  "write_type_arg major arg =
     (let mt = push_bit 5 major in
      if arg \<le> 23 then [mt OR ucast arg]
      else if arg \<le> 0xff then [mt OR 24, ucast arg]
      else if arg \<le> 0xffff then (mt OR 25) # to_be_bytes (ucast arg :: u16)
      else if arg \<le> 0xffffffff then (mt OR 26) # to_be_bytes (ucast arg :: u32)
      else (mt OR 27) # to_be_bytes arg)"

definition write_uint :: "u64 \<Rightarrow> bytes" where
  "write_uint n = write_type_arg 0 n"

definition write_map_header :: "nat \<Rightarrow> bytes" where
  "write_map_header len = write_type_arg 5 (word_of_nat len)"

fun adjacent_dup :: "u64 list \<Rightarrow> bool" where
  "adjacent_dup (a # b # xs) = (a = b \<or> adjacent_dup (b # xs))"
| "adjacent_dup xs = False"

lemma size_list_sort_key [simp]: "size_list f (sort_key g xs) = size_list f xs"
proof -
  have "sum_list (map f (sort_key g xs)) = sum_list (map f xs)"
    by (metis mset_map mset_sort sum_mset_sum_list)
  then show ?thesis by (simp add: size_list_conv_sum_list)
qed

lemma size_list_entries:
  "size_list (\<lambda>p. size (snd p)) es \<le> size_list (size_prod (\<lambda>x. 0) size) es"
  by (rule size_list_pointwise) auto

function (sequential) write_value :: "cbor_value \<Rightarrow> cbor_envelope_error + bytes"
  and write_items :: "cbor_value list \<Rightarrow> cbor_envelope_error + bytes"
  and write_entries :: "(u64 \<times> cbor_value) list \<Rightarrow> cbor_envelope_error + bytes"
  and encode_deterministic_uint_map ::
    "(u64 \<times> cbor_value) list \<Rightarrow> cbor_envelope_error + bytes"
where
  "write_value (Uint n) = Inr (write_uint n)"
| "write_value (Nint n) = Inr (write_type_arg 1 n)"
| "write_value (Bytes b) = Inr (write_type_arg 2 (len_u64 b) @ b)"
| "write_value (Text s) = Inr (write_type_arg 3 (len_u64 s) @ s)"
| "write_value (Array items) =
     and_then (write_items items) (\<lambda>w. Inr (write_type_arg 4 (len_u64 items) @ w))"
| "write_value (Map entries) = encode_deterministic_uint_map entries"
| "write_value (Bool b) = Inr [if b then 0xf5 else 0xf4]"
| "write_value Null = Inr [0xf6]"
| "write_items [] = Inr []"
| "write_items (v # vs) =
     and_then (write_value v) (\<lambda>w. and_then (write_items vs) (\<lambda>ws. Inr (w @ ws)))"
| "write_entries [] = Inr []"
| "write_entries ((k, v) # es) =
     and_then (write_value v) (\<lambda>w. and_then (write_entries es) (\<lambda>ws. Inr (write_uint k @ w @ ws)))"
| "encode_deterministic_uint_map entries =
     (let sorted_entries = sort_key fst entries in
      if adjacent_dup (map fst sorted_entries) then Inl CborDuplicateKey
      else and_then (write_entries sorted_entries) (\<lambda>body.
        let out = write_map_header (length sorted_entries) @ body in
        and_then (validate_deterministic_cbor_envelope out) (\<lambda>_. Inr out)))"
  by pat_completeness auto
termination
proof (relation "measure (\<lambda>x. case x of Inl (Inl v) \<Rightarrow> 2 * size v
    | Inl (Inr vs) \<Rightarrow> 2 * size_list size vs
    | Inr (Inl es) \<Rightarrow> 2 * size_list (\<lambda>p. size (snd p)) es
    | Inr (Inr es) \<Rightarrow> 2 * size_list (\<lambda>p. size (snd p)) es + 1)", goal_cases)
qed (use size_list_entries in \<open>auto simp: less_Suc_eq_le\<close>)

section \<open>Heads\<close>

lemma and31: "h AND 0x1f = take_bit 5 (h :: u8)"
  by (simp add: take_bit_eq_mask mask_eq_exp_minus_1)

lemma head_join: "push_bit 5 (drop_bit 5 h) OR (h AND 0x1f) = (h :: u8)"
  unfolding and31 by (rule bit_eqI) (auto simp: bit_simps)

lemma drop5_lt: "drop_bit 5 h < (8 :: u8)"
  using unsigned_less [of h, where 'a = nat]
  by (simp add: word_less_nat_alt unsigned_drop_bit_eq drop_bit_eq_div unat_div
      less_mult_imp_div_less)

lemma head_split:
  assumes "m < 8" and "a < 32"
  shows "drop_bit 5 (push_bit 5 m OR a) = (m :: u8)"
    and "(push_bit 5 m OR a) AND 0x1f = a"
proof -
  have m: "take_bit 3 m = m" and a: "take_bit 5 a = a"
    using assms by (simp_all add: take_bit_self_iff word_less_nat_alt)
  have "drop_bit 5 (push_bit 5 m) = take_bit 3 m"
    by (rule bit_eqI) (auto simp: bit_simps)
  moreover from a have "drop_bit 5 a = 0"
    by (simp flip: take_bit_eq_self_iff_drop_bit_eq_0)
  ultimately show "drop_bit 5 (push_bit 5 m OR a) = m" by (simp add: m)
  show "(push_bit 5 m OR a) AND 0x1f = a" by (simp add: and31 a take_bit_push_bit)
qed

lemma head_obtain:
  assumes "m < 8" and "a < (32 :: u8)"
  obtains h where "push_bit 5 m OR a = (h :: u8)" and "drop_bit 5 h = m" and "h AND 0x1f = a"
  using that [OF refl head_split [OF assms]] .

definition cur_rest :: "cursor \<Rightarrow> bytes" where
  "cur_rest c = drop (cur_pos c) (cur_bytes c)"

lemma length_cur_rest: "length (cur_rest c) = cur_remaining c"
  by (simp add: cur_rest_def cur_remaining_def)

definition consumes :: "bytes \<Rightarrow> cursor \<Rightarrow> cursor \<Rightarrow> bool" where
  "consumes w c c' \<longleftrightarrow> c' = c\<lparr>cur_pos := cur_pos c + length w\<rparr> \<and> (\<exists>r. cur_rest c = w @ r)"

lemma cur_take_iff: "cur_take n c = Inr (w, c') \<longleftrightarrow> length w = n \<and> consumes w c c'"
proof
  assume "cur_take n c = Inr (w, c')"
  then have n: "n \<le> cur_remaining c" and w: "w = take n (cur_rest c)"
    and c': "c' = c\<lparr>cur_pos := cur_pos c + n\<rparr>"
    by (auto simp: cur_take_def subslice_def cur_rest_def split: if_splits)
  then have "length w = n" by (auto simp: cur_remaining_def cur_rest_def)
  moreover have "cur_rest c = w @ drop n (cur_rest c)" using w by simp
  ultimately show "length w = n \<and> consumes w c c'"
    using c' by (auto simp: consumes_def)
next
  assume "length w = n \<and> consumes w c c'"
  then obtain r where "cur_rest c = w @ r" "length w = n" "c' = c\<lparr>cur_pos := cur_pos c + n\<rparr>"
    by (auto simp: consumes_def)
  moreover from this have "cur_remaining c = n + length r"
    by (simp flip: length_cur_rest)
  ultimately show "cur_take n c = Inr (w, c')"
    by (auto simp: cur_take_def subslice_def cur_rest_def)
qed

lemma cur_rest_consumed: "consumes w c c' \<Longrightarrow> cur_rest c' = drop (length w) (cur_rest c)"
  by (auto simp: consumes_def cur_rest_def add.commute)

lemma consumes_Nil [simp]: "consumes [] c c' \<longleftrightarrow> c' = c"
  by (auto simp: consumes_def)

lemma consumes_append:
  "consumes (u @ v) c c' \<longleftrightarrow> (\<exists>c1. consumes u c c1 \<and> consumes v c1 c')" (is "?l = ?r")
proof
  assume l: ?l
  then obtain r where r: "cur_rest c = u @ v @ r" by (auto simp: consumes_def)
  let ?c1 = "c\<lparr>cur_pos := cur_pos c + length u\<rparr>"
  from r have "consumes u c ?c1" by (auto simp: consumes_def)
  moreover from this have "cur_rest ?c1 = v @ r" using r by (simp add: cur_rest_consumed)
  ultimately show ?r using l by (auto simp: consumes_def intro!: exI [of _ ?c1])
next
  assume ?r
  then obtain c1 where 1: "consumes u c c1" and 2: "consumes v c1 c'" by blast
  from 1 obtain r where r: "cur_rest c = u @ r" by (auto simp: consumes_def)
  with 1 have "cur_rest c1 = r" by (simp add: cur_rest_consumed)
  with 1 2 r show ?l by (auto simp: consumes_def)
qed

lemma consumes_Cons:
  "consumes (b # v) c c' \<longleftrightarrow> (\<exists>c1. consumes [b] c c1 \<and> consumes v c1 c')"
  using consumes_append [of "[b]" v] by simp

lemma consumes_det: "consumes w c c1 \<Longrightarrow> consumes w c c2 \<Longrightarrow> c1 = c2"
  by (simp add: consumes_def)

lemma consumes_slice:
  assumes "consumes w c c'"
  shows "subslice (cur_pos c) (cur_pos c') (cur_bytes c) = w"
  using assms by (auto simp: consumes_def subslice_def cur_rest_def)

lemma cur_peek_iff: "cur_peek c = Inr b \<longleftrightarrow> (\<exists>c1. consumes [b] c c1)"
proof -
  have "cur_pos c < length (cur_bytes c) \<Longrightarrow>
      cur_rest c = cur_bytes c ! cur_pos c # drop (Suc (cur_pos c)) (cur_bytes c)"
    by (simp add: cur_rest_def Cons_nth_drop_Suc)
  then show ?thesis
    by (auto simp: cur_peek_def consumes_def cur_rest_def)
qed

lemma cur_take1_iff: "cur_take (Suc 0) c = Inr (w, c') \<longleftrightarrow> (\<exists>b. w = [b] \<and> consumes [b] c c')"
  by (auto simp: cur_take_iff length_Suc_conv)

lemma unat_le_of_le: "a \<le> (b :: 'a::len word) \<Longrightarrow> unat a \<le> unat b"
  by (simp add: word_le_nat_alt)

lemma read_head_sound:
  assumes "read_head c = Inr ((m, a), c')"
  shows "m < 8 \<and> consumes (write_type_arg m a) c c'"
proof -
  from assms obtain h c1 where h: "consumes [h] c c1" and m: "m = drop_bit 5 h"
    by (auto simp: read_head_def result_simps cur_take1_iff Let_def split: if_splits)
  let ?ai = "h AND 0x1f"
  have take1: "cur_take 1 c = Inr ([h], c1)" using h by (simp add: cur_take1_iff)
  note body = assms [unfolded read_head_def take1 and_then_simps prod.case Let_def, simplified]
  have join: "push_bit 5 m OR ?ai = h" unfolding m by (rule head_join)
  consider (s) "?ai \<le> 23" | (b) "?ai = 24" | (w) "?ai = 25" | (d) "?ai = 26" | (q) "?ai = 27"
    using body by (auto split: if_splits)
  then have "consumes (write_type_arg m a) c c'"
  proof cases
    case s
    with body have a: "a = ucast ?ai" and c': "c' = c1" by auto
    from s have "unat ?ai \<le> 23" by (simp add: word_le_nat_alt)
    then have "a \<le> 23" unfolding a word_le_nat_alt unat_ucast_u64 by simp
    then show ?thesis using h join by (simp add: write_type_arg_def a c' ucast_down_up)
  next
    case b
    with body obtain x where x: "consumes [x] c1 c'" and a: "a = ucast x" "24 \<le> a"
      by (auto simp: result_simps cur_take1_iff not_less split: if_splits)
    have "a \<le> 0xff"
      unfolding a word_le_nat_alt unat_ucast_u64 using unsigned_less [of x, where 'a = nat] by simp
    moreover have "\<not> a \<le> 23" using a(2) by (simp add: word_le_nat_alt)
    ultimately show ?thesis using h x b join
      by (auto simp: write_type_arg_def a(1) ucast_down_up consumes_Cons [of _ "[x]"])
  next
    case w
    with body obtain raw where r: "consumes raw c1 c'" "length raw = 2"
      and a: "a = ucast (from_be_bytes raw :: u16)" "256 \<le> a"
      by (auto simp: result_simps cur_take_iff not_less split: if_splits)
    have "a \<le> 0xffff"
      unfolding a word_le_nat_alt unat_ucast_u64
      using unsigned_less [of "from_be_bytes raw :: u16", where 'a = nat] by simp
    moreover have "\<not> a \<le> 23" "\<not> a \<le> 0xff" using a(2) by (simp_all add: word_le_nat_alt)
    moreover have "to_be_bytes (from_be_bytes raw :: u16) = raw"
      using r(2) by (simp add: to_from_be_bytes)
    ultimately show ?thesis using h r w join
      by (auto simp: write_type_arg_def a(1) ucast_down_up consumes_Cons [of _ raw])
  next
    case d
    with body obtain raw where r: "consumes raw c1 c'" "length raw = 4"
      and a: "a = ucast (from_be_bytes raw :: u32)" "65536 \<le> a"
      by (auto simp: result_simps cur_take_iff not_less split: if_splits)
    have "a \<le> 0xffffffff"
      unfolding a word_le_nat_alt unat_ucast_u64
      using unsigned_less [of "from_be_bytes raw :: u32", where 'a = nat] by simp
    moreover have "\<not> a \<le> 23" "\<not> a \<le> 0xff" "\<not> a \<le> 0xffff"
      using a(2) by (simp_all add: word_le_nat_alt)
    moreover have "to_be_bytes (from_be_bytes raw :: u32) = raw"
      using r(2) by (simp add: to_from_be_bytes)
    ultimately show ?thesis using h r d join
      by (auto simp: write_type_arg_def a(1) ucast_down_up consumes_Cons [of _ raw])
  next
    case q
    with body obtain raw where r: "consumes raw c1 c'" "length raw = 8"
      and a: "a = from_be_bytes raw" "0x100000000 \<le> a"
      by (auto simp: result_simps cur_take_iff not_less split: if_splits)
    have "\<not> a \<le> 23" "\<not> a \<le> 0xff" "\<not> a \<le> 0xffff" "\<not> a \<le> 0xffffffff"
      using a(2) by (simp_all add: word_le_nat_alt)
    moreover have "to_be_bytes a = raw"
      unfolding a(1) using r(2) by (simp add: to_from_be_bytes)
    ultimately show ?thesis using h r q join
      by (auto simp: write_type_arg_def consumes_Cons [of _ raw])
  qed
  then show ?thesis by (simp add: m drop5_lt)
qed

lemma cur_take_first: "consumes [h] c c1 \<Longrightarrow> cur_take (Suc 0) c = Inr ([h], c1)"
  by (simp add: cur_take_iff)

lemmas read_head_first = read_head_def cur_take_first Let_def

lemma read_head_complete:
  assumes m: "m < 8" and wr: "consumes (write_type_arg m a) c c'"
  shows "read_head c = Inr ((m, a), c')"
proof -
  consider (s) "a \<le> 23" | (b) "24 \<le> a" "a \<le> 0xff" | (w) "0x100 \<le> a" "a \<le> 0xffff"
    | (d) "0x10000 \<le> a" "a \<le> 0xffffffff" | (q) "0x100000000 \<le> a"
    by (cases "unat a \<le> 23"; cases "unat a \<le> 0xff"; cases "unat a \<le> 0xffff";
        cases "unat a \<le> 0xffffffff") (auto simp: word_le_nat_alt)
  then show ?thesis
  proof cases
    case s
    then have "unat (ucast a :: u8) = unat a"
      by (simp add: word_le_nat_alt unsigned_ucast_eq take_bit_nat_eq_self unsigned_take_bit_eq)
    with s have a: "ucast a < (32 :: u8)" "ucast a \<le> (23 :: u8)" "ucast (ucast a :: u8) = a"
      by (simp_all add: word_less_nat_alt word_le_nat_alt ucast_up_down)
    obtain h where "push_bit 5 m OR ucast a = h" "drop_bit 5 h = m" "h AND 0x1f = ucast a"
      by (rule head_obtain [OF m a(1)])
    with s wr a show ?thesis
      by (simp add: write_type_arg_def read_head_first)
  next
    case b
    let ?r = "[ucast a] :: bytes"
    obtain h where h: "push_bit 5 m OR 24 = h" "drop_bit 5 h = m" "h AND 0x1f = 24"
      by (rule head_obtain [OF m, of 24]) simp
    from b wr obtain c1 where "consumes [h] c c1" "cur_take 1 c1 = Inr (?r, c')"
      by (auto simp: write_type_arg_def h consumes_Cons [of _ ?r] word_le_nat_alt cur_take_iff)
    moreover have "ucast (ucast a :: u8) = a" using b(2) by (simp add: word_le_nat_alt ucast_up_down)
    ultimately show ?thesis using b h by (simp add: read_head_first not_less)
  next
    case w
    let ?r = "to_be_bytes (ucast a :: u16)"
    obtain h where h: "push_bit 5 m OR 25 = h" "drop_bit 5 h = m" "h AND 0x1f = 25"
      by (rule head_obtain [OF m, of 25]) simp
    from w wr obtain c1 where "consumes [h] c c1" "cur_take 2 c1 = Inr (?r, c')"
      by (auto simp: write_type_arg_def h consumes_Cons [of _ ?r] word_le_nat_alt cur_take_iff)
    moreover have "ucast (ucast a :: u16) = a" using w(2) by (simp add: word_le_nat_alt ucast_up_down)
    ultimately show ?thesis using w h by (simp add: read_head_first not_less)
  next
    case d
    let ?r = "to_be_bytes (ucast a :: u32)"
    obtain h where h: "push_bit 5 m OR 26 = h" "drop_bit 5 h = m" "h AND 0x1f = 26"
      by (rule head_obtain [OF m, of 26]) simp
    from d wr obtain c1 where "consumes [h] c c1" "cur_take 4 c1 = Inr (?r, c')"
      by (auto simp: write_type_arg_def h consumes_Cons [of _ ?r] word_le_nat_alt cur_take_iff)
    moreover have "ucast (ucast a :: u32) = a" using d(2) by (simp add: word_le_nat_alt ucast_up_down)
    ultimately show ?thesis using d h by (simp add: read_head_first not_less)
  next
    case q
    let ?r = "to_be_bytes a"
    obtain h where h: "push_bit 5 m OR 27 = h" "drop_bit 5 h = m" "h AND 0x1f = 27"
      by (rule head_obtain [OF m, of 27]) simp
    from q wr obtain c1 where "consumes [h] c c1" "cur_take 8 c1 = Inr (?r, c')"
      by (auto simp: write_type_arg_def h consumes_Cons [of _ ?r] word_le_nat_alt cur_take_iff)
    then show ?thesis using q h by (simp add: read_head_first not_less)
  qed
qed

lemma read_head_iff:
  "read_head c = Inr ((m, a), c') \<longleftrightarrow> m < 8 \<and> consumes (write_type_arg m a) c c'"
  using read_head_sound read_head_complete by blast

end
