(* ===== verification/Cbor_Determinism.thy ===== *)
theory Cbor_Determinism
  imports Cbor_Envelope
begin

text \<open>
  What the deterministic CBOR codec of \<open>Cbor_Envelope\<close> accepts and produces.

  \<open>enc_value\<close> is the encoding as a total function, \<open>canonical_value\<close> the values it is meant
  for (valid UTF-8, lengths a head can carry, map keys strictly increasing). The reader
  accepts exactly the strings \<open>enc_value\<close> produces, and the writer produces \<open>enc_value\<close> of
  the value with its maps sorted.
\<close>

section \<open>Specification\<close>

fun enc_value :: "cbor_value \<Rightarrow> bytes" where
  "enc_value (Uint n) = write_type_arg 0 n"
| "enc_value (Nint n) = write_type_arg 1 n"
| "enc_value (Bytes b) = write_type_arg 2 (len_u64 b) @ b"
| "enc_value (Text s) = write_type_arg 3 (len_u64 s) @ s"
| "enc_value (Array vs) = write_type_arg 4 (len_u64 vs) @ concat (map enc_value vs)"
| "enc_value (Map es) =
     write_type_arg 5 (len_u64 es) @ concat (map (\<lambda>(k, v). write_uint k @ enc_value v) es)"
| "enc_value (Bool b) = [if b then 0xf5 else 0xf4]"
| "enc_value Null = [0xf6]"

definition head_len :: "'a list \<Rightarrow> bool" where
  "head_len xs \<longleftrightarrow> length xs < 2 ^ 64"

fun writable :: "cbor_value \<Rightarrow> bool" where
  "writable (Bytes b) = head_len b"
| "writable (Text s) = (head_len s \<and> utf8_valid s)"
| "writable (Array vs) = (head_len vs \<and> (\<forall>v \<in> set vs. writable v))"
| "writable (Map es) = (head_len es \<and> (\<forall>(k, v) \<in> set es. writable v))"
| "writable _ = True"

fun sorted_maps :: "cbor_value \<Rightarrow> bool" where
  "sorted_maps (Array vs) = (\<forall>v \<in> set vs. sorted_maps v)"
| "sorted_maps (Map es) = (sorted_wrt (<) (map fst es) \<and> (\<forall>(k, v) \<in> set es. sorted_maps v))"
| "sorted_maps _ = True"

definition canonical_value :: "cbor_value \<Rightarrow> bool" where
  "canonical_value v \<longleftrightarrow> writable v \<and> sorted_maps v"

fun unique_keys :: "cbor_value \<Rightarrow> bool" where
  "unique_keys (Array vs) = (\<forall>v \<in> set vs. unique_keys v)"
| "unique_keys (Map es) = (distinct (map fst es) \<and> (\<forall>(k, v) \<in> set es. unique_keys v))"
| "unique_keys _ = True"

fun canon :: "cbor_value \<Rightarrow> cbor_value" where
  "canon (Array vs) = Array (map canon vs)"
| "canon (Map es) = Map (sort_key fst (map (\<lambda>(k, v). (k, canon v)) es))"
| "canon v = v"

section \<open>Order of encoded keys\<close>

lemma unat_ucast_le:
  "unat (a :: u64) < 2 ^ LENGTH('b::len) \<Longrightarrow> unat (ucast a :: 'b word) = unat a"
  by (simp add: unsigned_ucast_eq take_bit_nat_eq_self unsigned_take_bit_eq)

lemma write_uint_mono:
  assumes "a < b"
  shows "write_uint a < write_uint b"
proof -
  have ab: "unat a < unat b" using assms by (simp add: word_less_nat_alt)
  consider (s) "unat b \<le> 23" | (b) "23 < unat b" "unat b \<le> 0xff"
    | (w) "0xff < unat b" "unat b \<le> 0xffff"
    | (d) "0xffff < unat b" "unat b \<le> 0xffffffff" | (q) "0xffffffff < unat b" by linarith
  then show ?thesis
  proof cases
    case s
    with ab show ?thesis
      by (simp add: write_uint_def write_type_arg_def word_le_nat_alt word_less_nat_alt unat_ucast_le)
  next
    case b
    with ab show ?thesis
      by (auto simp: write_uint_def write_type_arg_def word_le_nat_alt word_less_nat_alt unat_ucast_le)
  next
    case w
    with ab show ?thesis
      by (auto simp: write_uint_def write_type_arg_def word_le_nat_alt word_less_nat_alt unat_ucast_le
          to_be_bytes_less_iff)
  next
    case d
    with ab show ?thesis
      by (auto simp: write_uint_def write_type_arg_def word_le_nat_alt word_less_nat_alt unat_ucast_le
          to_be_bytes_less_iff)
  next
    case q
    with ab show ?thesis
      by (auto simp: write_uint_def write_type_arg_def word_le_nat_alt word_less_nat_alt unat_ucast_le
          to_be_bytes_less_iff)
  qed
qed

lemma write_uint_less_iff: "write_uint a < write_uint b \<longleftrightarrow> a < b"
  by (metis write_uint_mono not_less_iff_gr_or_eq)

section \<open>The reader after a head\<close>

lemma write_type_arg_first:
  assumes "m < 8"
  obtains h t where "write_type_arg m a = h # t" and "drop_bit 5 h = m"
proof -
  have "ucast a < (32 :: u8)" if "a \<le> 23"
    using that by (simp add: word_le_nat_alt word_less_nat_alt unat_ucast_le)
  then have "\<exists>k t. write_type_arg m a = (push_bit 5 m OR k) # t \<and> k < 32"
    by (auto simp: write_type_arg_def Let_def)
  then show ?thesis using that head_split(1) [OF assms] by blast
qed

lemma write_type_arg_nonempty [simp]: "write_type_arg m a \<noteq> []"
  by (simp add: write_type_arg_def Let_def)

lemma peek_head:
  assumes "m < 8" and "consumes (write_type_arg m a) c c1"
  obtains h where "cur_peek c = Inr h" and "drop_bit 5 h = m"
proof -
  obtain h t where ht: "write_type_arg m a = h # t" "drop_bit 5 h = m"
    using assms(1) by (rule write_type_arg_first)
  with assms(2) obtain c2 where "consumes [h] c c2" by (auto simp: consumes_Cons [of h t])
  then have "cur_peek c = Inr h" by (auto simp: cur_peek_iff)
  with ht(2) show ?thesis using that by blast
qed

lemma peek_read_head:
  assumes "cur_peek c = Inr h" and "read_head c = Inr ((m, a), c1)"
  shows "m = drop_bit 5 h"
proof -
  from assms(2) have "m < 8" "consumes (write_type_arg m a) c c1" by (auto simp: read_head_iff)
  then obtain h' where "cur_peek c = Inr h'" "drop_bit 5 h' = m" by (rule peek_head)
  with assms(1) show ?thesis by simp
qed

text \<open>After a head of major type \<open>m\<close> and argument \<open>a\<close>, the readers do what \<open>m\<close> says.\<close>

lemma skip_value_head:
  assumes "m < 8" and "consumes (write_type_arg m a) c c1"
  shows "m = 0 \<or> m = 1 \<Longrightarrow> skip_value c = Inr c1"
    and "m = 2 \<Longrightarrow> skip_value c = and_then (cur_take (unat a) c1) (\<lambda>(x, c2). Inr c2)"
    and "m = 3 \<Longrightarrow> skip_value c = and_then (cur_take (unat a) c1) (\<lambda>(x, c2).
           if utf8_valid x then Inr c2 else Inl CborInvalidUtf8)"
    and "m = 4 \<Longrightarrow> skip_value c = and_then (bound_collection_len c1 a 1)
           (\<lambda>n. skip_array_items n c1)"
    and "m = 5 \<Longrightarrow> skip_value c = and_then (bound_collection_len c1 a 2)
           (\<lambda>n. skip_map_entries n None [] c1)"
proof -
  from assms have h: "read_head c = Inr ((m, a), c1)" by (simp add: read_head_iff)
  from assms obtain b where "cur_peek c = Inr b" "drop_bit 5 b = m" by (rule peek_head)
  note * = this h skip_value.simps [of c] read_bstr_def read_tstr_def read_array_len_def read_map_len_def
  show "m = 0 \<or> m = 1 \<Longrightarrow> skip_value c = Inr c1" by (auto simp: *)
  show "m = 2 \<Longrightarrow> skip_value c = and_then (cur_take (unat a) c1) (\<lambda>(x, c2). Inr c2)"
    by (simp add: *)
  show "m = 3 \<Longrightarrow> skip_value c = and_then (cur_take (unat a) c1) (\<lambda>(x, c2).
           if utf8_valid x then Inr c2 else Inl CborInvalidUtf8)"
    by (auto simp: * and_then_def split: sum.splits)
  show "m = 4 \<Longrightarrow> skip_value c = and_then (bound_collection_len c1 a 1)
           (\<lambda>n. skip_array_items n c1)"
    by (auto simp: * and_then_def split: sum.splits)
  show "m = 5 \<Longrightarrow> skip_value c = and_then (bound_collection_len c1 a 2)
           (\<lambda>n. skip_map_entries n None [] c1)"
    by (auto simp: * and_then_def split: sum.splits)
qed

lemma read_value_head:
  assumes "m < 8" and "consumes (write_type_arg m a) c c1"
  shows "m = 0 \<Longrightarrow> read_value c = Inr (Uint a, c1)"
    and "m = 1 \<Longrightarrow> read_value c = Inr (Nint a, c1)"
    and "m = 2 \<Longrightarrow> read_value c = and_then (cur_take (unat a) c1) (\<lambda>(x, c2). Inr (Bytes x, c2))"
    and "m = 3 \<Longrightarrow> read_value c = and_then (cur_take (unat a) c1) (\<lambda>(x, c2).
           if utf8_valid x then Inr (Text x, c2) else Inl CborInvalidUtf8)"
    and "m = 4 \<Longrightarrow> read_value c = and_then (bound_collection_len c1 a 1)
           (\<lambda>n. and_then (read_array_items n c1) (\<lambda>(items, c2). Inr (Array items, c2)))"
    and "m = 5 \<Longrightarrow> read_value c = and_then (bound_collection_len c1 a 2)
           (\<lambda>n. and_then (read_map_items n c1) (\<lambda>(items, c2). Inr (Map items, c2)))"
proof -
  from assms have h: "read_head c = Inr ((m, a), c1)" by (simp add: read_head_iff)
  from assms obtain b where "cur_peek c = Inr b" "drop_bit 5 b = m" by (rule peek_head)
  note * = this h read_value.simps [of c] read_bstr_def read_tstr_def read_array_len_def
    read_map_len_def read_uint_any_def
  show "m = 0 \<Longrightarrow> read_value c = Inr (Uint a, c1)" by (simp add: *)
  show "m = 1 \<Longrightarrow> read_value c = Inr (Nint a, c1)" by (simp add: *)
  show "m = 2 \<Longrightarrow> read_value c = and_then (cur_take (unat a) c1) (\<lambda>(x, c2). Inr (Bytes x, c2))"
    by (simp add: *)
  show "m = 3 \<Longrightarrow> read_value c = and_then (cur_take (unat a) c1) (\<lambda>(x, c2).
           if utf8_valid x then Inr (Text x, c2) else Inl CborInvalidUtf8)"
    by (auto simp: * and_then_def split: sum.splits)
  show "m = 4 \<Longrightarrow> read_value c = and_then (bound_collection_len c1 a 1)
           (\<lambda>n. and_then (read_array_items n c1) (\<lambda>(items, c2). Inr (Array items, c2)))"
    by (auto simp: * and_then_def split: sum.splits)
  show "m = 5 \<Longrightarrow> read_value c = and_then (bound_collection_len c1 a 2)
           (\<lambda>n. and_then (read_map_items n c1) (\<lambda>(items, c2). Inr (Map items, c2)))"
    by (auto simp: * and_then_def split: sum.splits)
qed

section \<open>The reader accepts every canonical encoding\<close>

lemma unat_head_len: "head_len xs \<Longrightarrow> unat (len_u64 xs) = length xs"
  by (simp add: head_len_def len_u64_def unat_of_nat)

lemma len_u64_unat: "length xs = unat a \<Longrightarrow> len_u64 xs = a"
  by (simp add: len_u64_def)

lemma head_len_unat: "length xs = unat (a :: u64) \<Longrightarrow> head_len xs"
  using unsigned_less [of a, where 'a = nat] by (simp add: head_len_def)

lemma enc_value_nonempty: "0 < length (enc_value v)"
  by (cases v) auto

lemma entry_len: "2 \<le> length (write_uint k) + length (enc_value v)"
proof -
  have "0 < length (write_uint k)" by (simp add: write_uint_def)
  with enc_value_nonempty [of v] show ?thesis by linarith
qed

lemma length_concat_ge: "(\<And>x. x \<in> set xs \<Longrightarrow> n \<le> length (f x)) \<Longrightarrow>
    n * length xs \<le> length (concat (map f xs))"
  by (induction xs) (force simp: add_mono)+

lemma consumes_remaining: "consumes w c c' \<Longrightarrow> length w \<le> cur_remaining c"
  by (auto simp: consumes_def simp flip: length_cur_rest)

lemma bound_collection_len_ok:
  assumes "head_len xs" and "consumes (concat (map f xs)) c c'" and "0 < n"
    and "\<And>x. x \<in> set xs \<Longrightarrow> n \<le> length (f x)"
  shows "bound_collection_len c (len_u64 xs) n = Inr (length xs)"
proof -
  have "n * length xs \<le> length (concat (map f xs))" using assms(4) by (rule length_concat_ge)
  also have "\<dots> \<le> cur_remaining c" using assms(2) by (rule consumes_remaining)
  finally have "length xs \<le> cur_remaining c div n"
    using assms(3) by (simp add: less_eq_div_iff_mult_less_eq mult.commute)
  moreover have "max n 1 = n" using assms(3) by simp
  ultimately show ?thesis using assms(1) by (simp add: bound_collection_len_def unat_head_len)
qed

definition reads :: "cbor_value \<Rightarrow> bool" where
  "reads v \<longleftrightarrow> (\<forall>c c'. consumes (enc_value v) c c' \<longrightarrow>
     skip_value c = Inr c' \<and> read_value c = Inr (v, c'))"

lemma reads_items:
  assumes "\<forall>v \<in> set vs. reads v" and "consumes (concat (map enc_value vs)) c c'"
  shows "skip_array_items (length vs) c = Inr c' \<and> read_array_items (length vs) c = Inr (vs, c')"
  using assms
proof (induction vs arbitrary: c)
  case (Cons v vs)
  then obtain c1 where "consumes (enc_value v) c c1" "consumes (concat (map enc_value vs)) c1 c'"
    by (auto simp: consumes_append)
  with Cons show ?case by (auto simp: reads_def)
qed simp

lemma read_uint_ok: "consumes (write_uint k) c c1 \<Longrightarrow> read_uint c = Inr (k, c1)"
  by (simp add: read_uint_def write_uint_def read_head_complete [of 0 k])

lemma reads_entries:
  assumes "\<forall>(k, v) \<in> set es. reads v" and "sorted_wrt (<) (map fst es)"
    and "\<forall>k \<in> set seen. \<forall>k' \<in> fst ` set es. k < k'"
    and "\<forall>p. prev = Some p \<longrightarrow> (\<forall>k' \<in> fst ` set es. p < write_uint k')"
    and "consumes (concat (map (\<lambda>(k, v). write_uint k @ enc_value v) es)) c c'"
  shows "skip_map_entries (length es) prev seen c = Inr c'
    \<and> read_map_items (length es) c = Inr (es, c')"
  using assms
proof (induction es arbitrary: c prev seen)
  case (Cons e es)
  obtain k v where e: "e = (k, v)" by force
  from Cons.prems(5) e obtain c1 c2 where c: "consumes (write_uint k) c c1"
      "consumes (enc_value v) c1 c2"
      "consumes (concat (map (\<lambda>(k, v). write_uint k @ enc_value v) es)) c2 c'"
    by (auto simp: consumes_append)
  have v: "skip_value c1 = Inr c2" "read_value c1 = Inr (v, c2)"
    using Cons.prems(1) e c(2) by (auto simp: reads_def)
  have later: "\<forall>k' \<in> fst ` set es. k < k'" using Cons.prems(2) e by auto
  have "skip_map_entries (length es) (Some (write_uint k)) (seen @ [k]) c2 = Inr c'
    \<and> read_map_items (length es) c2 = Inr (es, c')"
    using Cons.prems later c(3) e by (intro Cons.IH) (auto simp: write_uint_less_iff)
  moreover have "k \<notin> set seen" using Cons.prems(3) e by auto
  moreover have "\<not> (case prev of None \<Rightarrow> False | Some p \<Rightarrow> write_uint k \<le> p)"
    using Cons.prems(4) e by (auto simp: not_le split: option.splits)
  ultimately show ?case
    using v e read_uint_ok [OF c(1)] consumes_slice [OF c(1)]
    by (auto simp: Let_def split: option.splits)
qed simp

lemma canonical_sub:
  "canonical_value (Array vs) \<longleftrightarrow> head_len vs \<and> (\<forall>v \<in> set vs. canonical_value v)"
  "canonical_value (Map es) \<longleftrightarrow> head_len es \<and> sorted_wrt (<) (map fst es)
     \<and> (\<forall>(k, v) \<in> set es. canonical_value v)"
  by (auto simp: canonical_value_def)

lemma simple_reads: "reads (Bool b)" "reads Null"
proof -
  have "skip_value c = Inr c' \<and> read_value c = Inr (Bool b, c')"
    if "consumes [if b then 0xf5 else 0xf4] c c'" for c c'
  proof -
    from that have "cur_peek c = Inr (if b then 0xf5 else 0xf4)" by (auto simp: cur_peek_iff)
    moreover from that have "cur_take (Suc 0) c = Inr ([if b then 0xf5 else 0xf4], c')"
      by (simp add: cur_take_iff)
    ultimately show ?thesis
      by (auto simp: skip_value.simps [of c] read_value.simps [of c] read_simple_value_def Let_def
          drop_bit_eq_div)
  qed
  then show "reads (Bool b)" by (simp add: reads_def)
  have "skip_value c = Inr c' \<and> read_value c = Inr (Null, c')"
    if "consumes [0xf6] c c'" for c c'
  proof -
    from that have "cur_peek c = Inr 0xf6" by (auto simp: cur_peek_iff)
    moreover from that have "cur_take (Suc 0) c = Inr ([0xf6], c')"
      by (simp add: cur_take_iff)
    ultimately show ?thesis
      by (auto simp: skip_value.simps [of c] read_value.simps [of c] read_simple_value_def Let_def
          drop_bit_eq_div)
  qed
  then show "reads Null" by (simp add: reads_def)
qed

lemma string_parts:
  assumes "consumes (write_type_arg m (len_u64 b) @ b) c c'" and "head_len b"
  obtains c1 where "consumes (write_type_arg m (len_u64 b)) c c1"
    and "cur_take (unat (len_u64 b)) c1 = Inr (b, c')"
  using assms by (auto simp: consumes_append cur_take_iff unat_head_len)

lemma canonical_reads: "canonical_value v \<Longrightarrow> reads v"
proof (induction v)
  case (Uint n)
  then show ?case using skip_value_head(1) [of 0 n] read_value_head(1) [of 0 n]
    by (auto simp: reads_def)
next
  case (Nint n)
  then show ?case using skip_value_head(1) [of 1 n] read_value_head(2) [of 1 n]
    by (auto simp: reads_def)
next
  case (Bytes b)
  then have "head_len b" by (simp add: canonical_value_def)
  then show ?case unfolding reads_def enc_value.simps
    by (auto elim!: string_parts simp: skip_value_head(2) [of 2] read_value_head(3) [of 2])
next
  case (Text b)
  then have "head_len b" "utf8_valid b" by (simp_all add: canonical_value_def)
  then show ?case unfolding reads_def enc_value.simps
    by (auto elim!: string_parts simp: skip_value_head(3) [of 3] read_value_head(4) [of 3])
next
  case (Array vs)
  then have vs: "head_len vs" "\<forall>v \<in> set vs. reads v" by (auto simp: canonical_sub)
  show ?case unfolding reads_def
  proof (intro allI impI)
    fix c c' assume "consumes (enc_value (Array vs)) c c'"
    then obtain c1 where c1: "consumes (write_type_arg 4 (len_u64 vs)) c c1"
        "consumes (concat (map enc_value vs)) c1 c'" by (auto simp: consumes_append)
    have "bound_collection_len c1 (len_u64 vs) 1 = Inr (length vs)"
      using enc_value_nonempty by (intro bound_collection_len_ok [OF vs(1) c1(2)]) (auto simp: Suc_leI)
    with reads_items [OF vs(2) c1(2)] skip_value_head(4) [OF _ c1(1)] read_value_head(5) [OF _ c1(1)]
    show "skip_value c = Inr c' \<and> read_value c = Inr (Array vs, c')" by simp
  qed
next
  case (Map es)
  then have es: "head_len es" "sorted_wrt (<) (map fst es)" "\<forall>(k, v) \<in> set es. reads v"
    by (auto simp: canonical_sub)
  let ?f = "\<lambda>(k, v). write_uint k @ enc_value v"
  show ?case unfolding reads_def
  proof (intro allI impI)
    fix c c' assume "consumes (enc_value (Map es)) c c'"
    then obtain c1 where c1: "consumes (write_type_arg 5 (len_u64 es)) c c1"
        "consumes (concat (map ?f es)) c1 c'" by (auto simp: consumes_append)
    have "bound_collection_len c1 (len_u64 es) 2 = Inr (length es)"
      by (intro bound_collection_len_ok [OF es(1) c1(2)]) (auto simp: entry_len)
    with reads_entries [OF es(3,2) _ _ c1(2), of "[]" None] skip_value_head(5) [OF _ c1(1)]
      read_value_head(6) [OF _ c1(1)]
    show "skip_value c = Inr c' \<and> read_value c = Inr (Map es, c')" by simp
  qed
qed (rule simple_reads)+

section \<open>The reader accepts nothing else\<close>

lemma skip_leaf_sound:
  assumes "skip_value c = Inr c'" and "cur_peek c = Inr h"
    and "drop_bit 5 h \<noteq> 4" and "drop_bit 5 h \<noteq> 5"
  shows "\<exists>v. canonical_value v \<and> consumes (enc_value v) c c'"
proof -
  let ?m = "drop_bit 5 h"
  consider (int) m a where "read_head c = Inr ((m, a), c')" "?m = 0 \<or> ?m = 1"
    | (bstr) x where "read_bstr c = Inr (x, c')" | (tstr) x where "read_tstr c = Inr (x, c')"
    | (simple) x where "read_simple_value c = Inr (x, c')" "?m = 7"
    using assms by (auto simp: skip_value.simps [of c] Let_def result_simps split: if_splits)
  then show ?thesis
  proof cases
    case int
    with peek_read_head [OF assms(2) int(1)] have "?m = 0 \<or> ?m = 1" "consumes (write_type_arg ?m a) c c'"
      by (auto simp: read_head_iff)
    then have "canonical_value (if ?m = 0 then Uint a else Nint a)
        \<and> consumes (enc_value (if ?m = 0 then Uint a else Nint a)) c c'"
      by (auto simp: canonical_value_def)
    then show ?thesis by blast
  next
    case bstr
    then obtain a c1 where "consumes (write_type_arg 2 a) c c1" "consumes x c1 c'" "length x = unat a"
      by (auto simp: read_bstr_def result_simps read_head_iff cur_take_iff split: if_splits)
    then have "canonical_value (Bytes x) \<and> consumes (enc_value (Bytes x)) c c'"
      by (auto simp: canonical_value_def consumes_append len_u64_unat intro: head_len_unat)
    then show ?thesis by blast
  next
    case tstr
    then obtain a c1 where "consumes (write_type_arg 3 a) c c1" "consumes x c1 c'" "length x = unat a"
        "utf8_valid x"
      by (auto simp: read_tstr_def result_simps read_head_iff cur_take_iff split: if_splits)
    then have "canonical_value (Text x) \<and> consumes (enc_value (Text x)) c c'"
      by (auto simp: canonical_value_def consumes_append len_u64_unat intro: head_len_unat)
    then show ?thesis by blast
  next
    case simple
    then have h: "consumes [h] c c'" "h AND 0x1f = 20 \<or> h AND 0x1f = 21 \<or> h AND 0x1f = 22"
      using assms(2) by (auto simp: read_simple_value_def result_simps cur_take1_iff cur_peek_iff Let_def
          consumes_def split: if_splits)
    have "push_bit 5 7 OR (h AND 0x1f) = h" using head_join [of h] simple(2) by simp
    with h(2) have "h = 0xf4 \<or> h = 0xf5 \<or> h = 0xf6" by auto
    then obtain v where "v \<in> {Bool False, Bool True, Null}" "enc_value v = [h]" by force
    with h(1) have "canonical_value v \<and> consumes (enc_value v) c c'"
      by (auto simp: canonical_value_def)
    then show ?thesis by blast
  qed
qed

lemma read_uint_sound: "read_uint c = Inr (k, c1) \<Longrightarrow> consumes (write_uint k) c c1"
  by (auto simp: read_uint_def write_uint_def result_simps read_head_iff split: if_splits)

lemma skip_sound:
  "skip_value c = Inr c' \<Longrightarrow> \<exists>v. canonical_value v \<and> consumes (enc_value v) c c'"
  "skip_array_items n c = Inr c' \<Longrightarrow> \<exists>vs. length vs = n \<and> (\<forall>v \<in> set vs. canonical_value v)
     \<and> consumes (concat (map enc_value vs)) c c'"
  "skip_map_entries n p s c = Inr c' \<Longrightarrow> \<exists>es. length es = n \<and> (\<forall>(k, v) \<in> set es. canonical_value v)
     \<and> sorted_wrt (<) (map fst es) \<and> (\<forall>q. p = Some q \<longrightarrow> (\<forall>k \<in> fst ` set es. q < write_uint k))
     \<and> consumes (concat (map (\<lambda>(k, v). write_uint k @ enc_value v) es)) c c'"
proof (induction c and n c and n p s c arbitrary: c' and c' and c'
    rule: skip_value_skip_array_items_skip_map_entries.induct)
  case (1 c)
  then obtain h where h: "cur_peek c = Inr h"
    by (auto simp: skip_value.simps [of c] result_simps)
  consider (leaf) "drop_bit 5 h \<noteq> 4" "drop_bit 5 h \<noteq> 5"
    | (arr) "drop_bit 5 h = 4" | (map) "drop_bit 5 h = 5" by blast
  then show ?case
  proof cases
    case leaf
    with "1.prems" h show ?thesis by (intro skip_leaf_sound)
  next
    case arr
    with "1.prems" h obtain n c1 where n: "read_array_len c = Inr (n, c1)"
        "skip_array_items n c1 = Inr c'"
      by (auto simp: skip_value.simps [of c] result_simps)
    then obtain a where "n = unat a" "consumes (write_type_arg 4 a) c c1"
      by (auto simp: read_array_len_def bound_collection_len_def read_head_iff result_simps Let_def
          split: if_splits)
    moreover obtain vs where "length vs = n" "\<forall>v \<in> set vs. canonical_value v"
        "consumes (concat (map enc_value vs)) c1 c'"
      using "1.IH"(1) [OF h refl _ _ _ _ n(1) refl n(2)] arr by auto
    ultimately have "canonical_value (Array vs) \<and> consumes (enc_value (Array vs)) c c'"
      by (auto simp: canonical_sub consumes_append len_u64_unat head_len_unat)
    then show ?thesis by blast
  next
    case map
    with "1.prems" h obtain n c1 where n: "read_map_len c = Inr (n, c1)"
        "skip_map_entries n None [] c1 = Inr c'"
      by (auto simp: skip_value.simps [of c] result_simps)
    then obtain a where "n = unat a" "consumes (write_type_arg 5 a) c c1"
      by (auto simp: read_map_len_def bound_collection_len_def read_head_iff result_simps Let_def
          split: if_splits)
    moreover obtain es where "length es = n" "\<forall>(k, v) \<in> set es. canonical_value v"
        "sorted_wrt (<) (map fst es)"
        "consumes (concat (map (\<lambda>(k, v). write_uint k @ enc_value v) es)) c1 c'"
      using "1.IH"(2) [OF h refl _ _ _ _ _ n(1) refl n(2)] map by auto
    ultimately have "canonical_value (Map es) \<and> consumes (enc_value (Map es)) c c'"
      by (auto simp: canonical_sub consumes_append len_u64_unat head_len_unat)
    then show ?thesis by blast
  qed
next
  case (3 n c)
  then obtain c1 where c1: "skip_value c = Inr c1" "skip_array_items n c1 = Inr c'"
    by (auto simp: result_simps)
  with "3.IH" obtain v vs where "canonical_value v" "consumes (enc_value v) c c1" "length vs = n"
      "\<forall>v \<in> set vs. canonical_value v" "consumes (concat (map enc_value vs)) c1 c'" by blast
  then show ?case by (intro exI [of _ "v # vs"]) (auto simp: consumes_append)
next
  case (5 n p s c)
  then obtain k c1 c2 where *: "read_uint c = Inr (k, c1)" "k \<notin> set s"
      "\<not> (case p of None \<Rightarrow> False
           | Some prev \<Rightarrow> subslice (cur_pos c) (cur_pos c1) (cur_bytes c) \<le> prev)"
      "skip_value c1 = Inr c2"
      "skip_map_entries n (Some (subslice (cur_pos c) (cur_pos c1) (cur_bytes c))) (s @ [k]) c2
         = Inr c'"
    by (auto simp: result_simps Let_def split: if_splits)
  have k: "consumes (write_uint k) c c1" using *(1) by (rule read_uint_sound)
  note slice = consumes_slice [OF this]
  obtain v where "canonical_value v" "consumes (enc_value v) c1 c2"
    using "5.IH"(1) [OF *(1) refl refl *(2,3)] *(4) by blast
  moreover obtain es where "length es = n" "\<forall>(k, v) \<in> set es. canonical_value v"
      "sorted_wrt (<) (map fst es)"
      and later: "\<forall>k' \<in> fst ` set es. write_uint k < write_uint k'"
      and "consumes (concat (map (\<lambda>(k, v). write_uint k @ enc_value v) es)) c2 c'"
    using "5.IH"(2) [OF *(1) refl refl *(2,3,4)] *(5) slice by auto
  moreover have "\<forall>k' \<in> {k} \<union> fst ` set es. q < write_uint k'" if "p = Some q" for q
  proof -
    have "q < write_uint k" using *(3) slice that by (auto simp: not_le)
    with later show ?thesis by (auto intro: less_trans)
  qed
  ultimately show ?case using k
    by (intro exI [of _ "(k, v) # es"]) (auto simp: consumes_append write_uint_less_iff)
qed auto

section \<open>The writer produces the encoding of the sorted value\<close>

lemma adjacent_dup_iff: "sorted xs \<Longrightarrow> adjacent_dup xs \<longleftrightarrow> \<not> distinct xs"
proof (induction xs rule: adjacent_dup.induct)
  case (1 a b xs)
  then show ?case by (cases "a = b") (auto simp: le_less)
qed auto

lemma sort_key_map: "sort_key f (map g xs) = map g (sort_key (\<lambda>x. f (g x)) xs)"
proof (induction xs)
  case (Cons x xs)
  have "insort_key f (g x) (map g ys) = map g (insort_key (\<lambda>x. f (g x)) x ys)" for ys
    by (induction ys) auto
  with Cons show ?case by simp
qed simp

lemma distinct_sort_key_fst: "distinct (map fst (sort_key fst es)) = distinct (map fst es)"
  by (rule mset_eq_imp_distinct_iff) simp

abbreviation canon_entry :: "u64 \<times> cbor_value \<Rightarrow> u64 \<times> cbor_value" where
  "canon_entry \<equiv> \<lambda>(k, v). (k, canon v)"

lemma canon_Map: "canon (Map es) = Map (map canon_entry (sort_key fst es))"
proof -
  have "(\<lambda>e. fst (canon_entry e)) = fst" by auto
  then show ?thesis by (simp add: sort_key_map)
qed

lemma map_fst_canon_entry [simp]: "map fst (map canon_entry es) = map fst es"
  by auto

lemma head_len_sort [simp]: "head_len (sort_key f es) = head_len es"
  by (simp add: head_len_def)

lemma head_len_map [simp]: "head_len (map f es) = head_len es"
  by (simp add: head_len_def)

lemma canonical_canon: "writable v \<Longrightarrow> unique_keys v \<Longrightarrow> canonical_value (canon v)"
proof (induction v)
  case (Map es)
  have "sorted_wrt (<) (map fst (sort_key fst es))"
    using Map.prems by (simp add: strict_sorted_iff distinct_sort_key_fst)
  with Map show ?case unfolding canon_Map canonical_sub map_fst_canon_entry
    by (fastforce simp: case_prod_beta)
qed (auto simp: canonical_sub, auto simp: canonical_value_def)

lemma write_items_spec:
  assumes "\<forall>v \<in> set vs. write_value v =
      (if unique_keys v then Inr (enc_value (canon v)) else Inl CborDuplicateKey)"
  shows "write_items vs = (if \<forall>v \<in> set vs. unique_keys v
      then Inr (concat (map (\<lambda>v. enc_value (canon v)) vs)) else Inl CborDuplicateKey)"
  using assms by (induction vs) auto

lemma write_entries_spec:
  assumes "\<forall>(k, v) \<in> set es. write_value v =
      (if unique_keys v then Inr (enc_value (canon v)) else Inl CborDuplicateKey)"
  shows "write_entries es = (if \<forall>(k, v) \<in> set es. unique_keys v
      then Inr (concat (map (\<lambda>(k, v). write_uint k @ enc_value (canon v)) es))
      else Inl CborDuplicateKey)"
  using assms by (induction es) auto

lemma consumes_all: "consumes bs (cursor_new bs) \<lparr>cur_bytes = bs, cur_pos = length bs\<rparr>"
  by (simp add: consumes_def cursor_new_def cur_rest_def)

lemma validate_enc:
  assumes "canonical_value (Map es)"
  shows "validate_deterministic_cbor_envelope (enc_value (Map es)) = Inr ()"
proof -
  let ?c = "cursor_new (enc_value (Map es))"
  let ?e = "\<lparr>cur_bytes = enc_value (Map es), cur_pos = length (enc_value (Map es))\<rparr>"
  have "skip_value ?c = Inr ?e"
    using canonical_reads [OF assms] consumes_all unfolding reads_def by blast
  moreover obtain c1 where "consumes (write_type_arg 5 (len_u64 es)) ?c c1"
    using consumes_all [of "enc_value (Map es)"] by (auto simp: consumes_append)
  then obtain h where "cur_peek ?c = Inr h" "drop_bit 5 h = 5"
    by (rule peek_head [of 5, rotated]) simp_all
  ultimately have "read_envelope_map ?c = Inr ?e"
    by (simp add: read_envelope_map_def skip_value.simps [of ?c] del: enc_value.simps)
  then show ?thesis by (simp add: validate_deterministic_cbor_envelope_def cur_is_empty_def
      del: enc_value.simps)
qed

lemma encode_map_spec:
  assumes "writable (Map es)" and "\<forall>(k, v) \<in> set es. write_value v =
      (if unique_keys v then Inr (enc_value (canon v)) else Inl CborDuplicateKey)"
  shows "encode_deterministic_uint_map es =
      (if unique_keys (Map es) then Inr (enc_value (canon (Map es))) else Inl CborDuplicateKey)"
proof (cases "unique_keys (Map es)")
  case True
  then have v: "validate_deterministic_cbor_envelope (enc_value (canon (Map es))) = Inr ()"
    using validate_enc canonical_canon [OF assms(1)] unfolding canon_Map by blast
  have "\<forall>(k, v) \<in> set es. unique_keys v" "distinct (map fst es)" using True by auto
  with v assms show ?thesis
    by (simp add: canon_Map adjacent_dup_iff distinct_sort_key_fst write_entries_spec Let_def
        write_map_header_def len_u64_def case_prod_unfold comp_def sort_key_map)
next
  case False
  with assms show ?thesis
    by (auto simp: adjacent_dup_iff distinct_sort_key_fst write_entries_spec Let_def)
qed

lemma write_value_spec:
  "writable v \<Longrightarrow> write_value v =
     (if unique_keys v then Inr (enc_value (canon v)) else Inl CborDuplicateKey)"
proof (induction v)
  case (Array vs)
  then show ?case by (auto simp: write_items_spec len_u64_def comp_def)
next
  case (Map es)
  then have "\<forall>(k, v) \<in> set es. write_value v =
      (if unique_keys v then Inr (enc_value (canon v)) else Inl CborDuplicateKey)" by fastforce
  with Map.prems encode_map_spec show ?case by simp
qed (auto simp: write_uint_def)

section \<open>Envelopes\<close>

lemma validate_iff:
  "validate_deterministic_cbor_envelope bs = Inr () \<longleftrightarrow>
     (\<exists>es. canonical_value (Map es) \<and> bs = enc_value (Map es))"
proof
  assume ok: "validate_deterministic_cbor_envelope bs = Inr ()"
  let ?c = "cursor_new bs"
  from ok obtain c h where "read_envelope_map ?c = Inr c" "cur_is_empty c"
      and h: "cur_peek ?c = Inr h" "drop_bit 5 h = 5"
    by (auto simp: validate_deterministic_cbor_envelope_def read_envelope_map_def result_simps
        split: if_splits)
  then have "skip_value ?c = Inr c"
    by (simp add: read_envelope_map_def skip_value.simps [of ?c])
  then obtain v where v: "canonical_value v" "consumes (enc_value v) ?c c"
    using skip_sound(1) by blast
  then have "bs = enc_value v"
    using \<open>cur_is_empty c\<close> by (auto simp: consumes_def cursor_new_def cur_rest_def cur_is_empty_def)
  moreover have "\<exists>es. v = Map es"
  proof -
    have "hd (enc_value v) = h" using v(2) h(1) enc_value_nonempty [of v]
      by (cases "enc_value v") (auto simp: cur_peek_iff consumes_def)
    moreover have "drop_bit 5 (hd (write_type_arg m a @ w)) = m" if "m < 8" for m a w
      using that by (rule write_type_arg_first [of m a]) simp
    ultimately show ?thesis using h(2)
      by (cases v) (force simp: drop_bit_eq_div split: if_splits)+
  qed
  ultimately show "\<exists>es. canonical_value (Map es) \<and> bs = enc_value (Map es)" using v(1) by blast
qed (blast intro: validate_enc)

lemma decode_enc:
  assumes "canonical_value (Map es)"
  shows "decode_deterministic_uint_map (enc_value (Map es)) = Inr es"
proof -
  let ?c = "cursor_new (enc_value (Map es))"
  let ?e = "\<lparr>cur_bytes = enc_value (Map es), cur_pos = length (enc_value (Map es))\<rparr>"
  have "read_value ?c = Inr (Map es, ?e)"
    using canonical_reads [OF assms] consumes_all unfolding reads_def by blast
  moreover obtain c1 where "consumes (write_type_arg 5 (len_u64 es)) ?c c1"
    using consumes_all [of "enc_value (Map es)"] by (auto simp: consumes_append)
  then obtain h where "cur_peek ?c = Inr h" "drop_bit 5 h = 5"
    by (rule peek_head [of 5, rotated]) simp_all
  ultimately show ?thesis using validate_enc [OF assms]
    by (auto simp: decode_deterministic_uint_map_def read_value.simps [of ?c] result_simps
        simp del: enc_value.simps)
qed

lemma decode_iff:
  "decode_deterministic_uint_map bs = Inr es \<longleftrightarrow> canonical_value (Map es) \<and> bs = enc_value (Map es)"
proof
  assume ok: "decode_deterministic_uint_map bs = Inr es"
  then have "validate_deterministic_cbor_envelope bs = Inr ()"
    by (auto simp: decode_deterministic_uint_map_def result_simps)
  then obtain fs where fs: "canonical_value (Map fs)" "bs = enc_value (Map fs)"
    by (auto simp: validate_iff)
  with ok decode_enc [OF fs(1)] show "canonical_value (Map es) \<and> bs = enc_value (Map es)" by simp
qed (auto simp del: enc_value.simps simp: decode_enc)

lemma encode_iff:
  assumes "writable (Map es)"
  shows "encode_deterministic_uint_map es =
      (if unique_keys (Map es) then Inr (enc_value (canon (Map es))) else Inl CborDuplicateKey)"
  using write_value_spec [OF assms] by simp

lemma sorted_unique: "sorted_maps v \<Longrightarrow> unique_keys v"
  by (induction v) (auto simp: strict_sorted_iff split_beta)

lemma canon_id: "sorted_maps v \<Longrightarrow> canon v = v"
proof (induction v)
  case (Array vs)
  then show ?case by (auto intro: map_idI)
next
  case (Map es)
  then have "map canon_entry es = es" by (intro map_idI) force
  moreover have "sort_key fst es = es"
    using Map.prems by (intro sort_key_id_if_sorted) (simp add: strict_sorted_iff)
  ultimately show ?case unfolding canon_Map by simp
qed auto

interpretation env: canonical_codec encode_deterministic_uint_map decode_deterministic_uint_map
  "\<lambda>es. canonical_value (Map es)"
proof unfold_locales
  fix es bs
  note enc = encode_iff [of es] sorted_unique [of "Map es"] canon_id [of "Map es"]
  show "\<exists>bs. encode_deterministic_uint_map es = Inr bs" if "canonical_value (Map es)"
    using that enc unfolding canonical_value_def by auto
  show "decode_deterministic_uint_map bs = Inr es"
    if "canonical_value (Map es)" "encode_deterministic_uint_map es = Inr bs"
    using that enc decode_enc [of es] unfolding canonical_value_def by auto
  show "canonical_value (Map es)" if "decode_deterministic_uint_map bs = Inr es"
    using that by (simp add: decode_iff)
  show "encode_deterministic_uint_map es = Inr bs" if "decode_deterministic_uint_map bs = Inr es"
    using that enc unfolding decode_iff canonical_value_def by auto
qed

section \<open>Properties\<close>

text \<open>C9: whatever the decoder accepts is the one encoding of what it returns. If a byte
  string decodes to a list of entries, encoding these entries gives exactly that byte string,
  so no envelope has a second accepted form.\<close>

theorem envelope_unique_encoding:
  assumes "decode_deterministic_uint_map bs = Inr es"
  shows "encode_deterministic_uint_map es = Inr bs
    \<and> (\<forall>cs. decode_deterministic_uint_map cs = Inr es \<longrightarrow> cs = bs)"
  using env.enc_dec [OF assms] env.dec_inj [OF _ assms] by blast

theorem envelope_unique_encoding_witness:
  "decode_deterministic_uint_map [0xa1, 0x01, 0x18, 0x2a] = Inr [(1, Uint 42)]
    \<and> encode_deterministic_uint_map [(1, Uint 42)] = Inr [0xa1, 0x01, 0x18, 0x2a]"
proof -
  have "decode_deterministic_uint_map [0xa1, 0x01, 0x18, 0x2a] = Inr [(1, Uint 42)]"
    by code_simp
  from this envelope_unique_encoding [OF this] show ?thesis by blast
qed

text \<open>C10: an envelope built from entries with unique keys at every level always encodes, its
  encoding passes the validator, and it decodes to the same entries with every map sorted by
  key.\<close>

theorem envelope_roundtrip:
  assumes "writable (Map es)" and "unique_keys (Map es)"
  shows "\<exists>bs. encode_deterministic_uint_map es = Inr bs
    \<and> validate_deterministic_cbor_envelope bs = Inr ()
    \<and> decode_deterministic_uint_map bs = Inr (sort_key fst (map (\<lambda>(k, v). (k, canon v)) es))"
proof -
  let ?fs = "sort_key fst (map canon_entry es)"
  have c: "canon (Map es) = Map ?fs" by simp
  then have "canonical_value (Map ?fs)" using canonical_canon [OF assms] by metis
  moreover have "encode_deterministic_uint_map es = Inr (enc_value (Map ?fs))"
    using encode_iff [OF assms(1)] assms(2) c by metis
  ultimately show ?thesis using decode_enc validate_enc by blast
qed

theorem envelope_roundtrip_witness:
  "\<exists>bs. encode_deterministic_uint_map [(7, Text [0x68, 0x69]), (2, Map [(9, Null), (3, Bool True)])]
      = Inr bs
    \<and> validate_deterministic_cbor_envelope bs = Inr ()
    \<and> decode_deterministic_uint_map bs
      = Inr [(2, Map [(3, Bool True), (9, Null)]), (7, Text [0x68, 0x69])]"
  using envelope_roundtrip [of "[(7, Text [0x68, 0x69]), (2, Map [(9, Null), (3, Bool True)])]"]
  by (simp add: head_len_def)

text \<open>The encoder fails in one way only. On well-formed values it reports
  \<open>CborDuplicateKey\<close> exactly when some map, at any depth, names a key twice; the validation it
  runs over its own output never fails.\<close>

lemma encode_error_iff:
  assumes "writable (Map es)"
  shows "encode_deterministic_uint_map es = Inl e \<longleftrightarrow>
    e = CborDuplicateKey \<and> \<not> unique_keys (Map es)"
  using encode_iff [OF assms] by auto

text \<open>Validation and decoding agree. An envelope passes the validator exactly when it
  decodes to some list of entries, so a decoder run on a validated envelope never fails.\<close>

lemma validate_iff_decodes:
  "validate_deterministic_cbor_envelope bs = Inr () \<longleftrightarrow>
     (\<exists>es. decode_deterministic_uint_map bs = Inr es)"
  unfolding validate_iff decode_iff ..

text \<open>The bytewise order of encoded integer keys is the numeric order of the keys, so the
  encoder, which sorts by number, and the validator, which compares encodings, agree on what
  sorted means.\<close>

lemma encoded_key_order:
  "write_uint a < write_uint b \<longleftrightarrow> a < b"
  by (rule write_uint_less_iff)

text \<open>The head reader and the head writer are inverse to each other, and only the
  shortest form is read: a head is accepted exactly when the input continues with the bytes
  the writer emits for that major type and argument.\<close>

lemma read_head_exact:
  "read_head c = Inr ((major, arg), c') \<longleftrightarrow>
     major < 8 \<and> c' = c\<lparr>cur_pos := cur_pos c + length (write_type_arg major arg)\<rparr>
     \<and> (\<exists>r. drop (cur_pos c) (cur_bytes c) = write_type_arg major arg @ r)"
  unfolding read_head_iff consumes_def cur_rest_def by simp

end
