(* ===== verification/Descriptors.thy ===== *)
theory Descriptors
  imports Cbor_Determinism
begin

text \<open>
  Bodies of heap, collection and stream descriptors (\<^verbatim>\<open>residiuum-format/src/descriptors.rs\<close>), on top of
  the envelope codec. An array \<^verbatim>\<open>[u8; 16]\<close> or \<^verbatim>\<open>[u8; 32]\<close> is a byte list and a \<^verbatim>\<open>String\<close> the list of its UTF-8
  bytes; that decoded ones have these lengths and are valid UTF-8 is proved. BLAKE3 is an argument.
\<close>

section \<open>Descriptors\<close>

definition HEAP_DESCRIPTOR_PROFILE :: bytes where
  "HEAP_DESCRIPTOR_PROFILE = map (\<lambda>c. word_of_nat (of_char c)) ''residiuum-heap-v1''"

datatype descriptor_error = DescCbor cbor_envelope_error | DescInvalid string | DescTooLarge

datatype heap_descriptor_state = HdActive | HdReadOnly | HdSuspended | HdRetired | HdPurging | HdPurged

definition heap_state_from_u64 :: "u64 \<Rightarrow> descriptor_error + heap_descriptor_state" where
  "heap_state_from_u64 v =
     (if v = 1 then Inr HdActive else if v = 2 then Inr HdReadOnly else if v = 3 then Inr HdSuspended
      else if v = 4 then Inr HdRetired else if v = 5 then Inr HdPurging else if v = 6 then Inr HdPurged
      else Inl (DescInvalid ''heap state''))"

fun heap_state_u64 :: "heap_descriptor_state \<Rightarrow> u64" where
  "heap_state_u64 HdActive = 1"
| "heap_state_u64 HdReadOnly = 2"
| "heap_state_u64 HdSuspended = 3"
| "heap_state_u64 HdRetired = 4"
| "heap_state_u64 HdPurging = 5"
| "heap_state_u64 HdPurged = 6"

datatype object_descriptor_state = OdActive | OdRetired

definition object_state_from_u64 :: "u64 \<Rightarrow> descriptor_error + object_descriptor_state" where
  "object_state_from_u64 v =
     (if v = 1 then Inr OdActive else if v = 2 then Inr OdRetired else Inl (DescInvalid ''object state''))"

fun object_state_u64 :: "object_descriptor_state \<Rightarrow> u64" where
  "object_state_u64 OdActive = 1"
| "object_state_u64 OdRetired = 2"

record heap_descriptor =
  hd_origin_deployment_id :: bytes
  hd_heap_id :: bytes
  hd_creation_event_id :: bytes
  hd_created_at :: u64
  hd_predecessor_hash :: "bytes option"
  hd_sequence :: u64
  hd_state :: heap_descriptor_state
  hd_name :: bytes
  hd_aliases :: "bytes list"

record object_descriptor =
  od_heap_id :: bytes
  od_object_id :: bytes
  od_creation_event_id :: bytes
  od_created_at :: u64
  od_predecessor_hash :: "bytes option"
  od_sequence :: u64
  od_name :: bytes
  od_aliases :: "bytes list"
  od_state :: object_descriptor_state

section \<open>Field readers\<close>

definition validate_name :: "bytes \<Rightarrow> descriptor_error + unit" where
  "validate_name b =
     (if b = [] \<or> 255 < length b then Inl (DescInvalid ''name length'')
      else if \<exists>c \<in> set b. c = 0 \<or> c < 0x20 then Inl (DescInvalid ''name control char'')
      else Inr ())"

definition desc_uint :: "cbor_value \<Rightarrow> descriptor_error + u64" where
  "desc_uint v = (case v of Uint u \<Rightarrow> Inr u | _ \<Rightarrow> Inl (DescInvalid ''uint''))"

definition desc_text :: "cbor_value \<Rightarrow> descriptor_error + bytes" where
  "desc_text v = (case v of Text s \<Rightarrow> Inr s | _ \<Rightarrow> Inl (DescInvalid ''text''))"

definition desc_b16 :: "cbor_value \<Rightarrow> descriptor_error + bytes" where
  "desc_b16 v = (case v of Bytes b \<Rightarrow> if length b = 16 then Inr b else Inl (DescInvalid ''bstr16'')
     | _ \<Rightarrow> Inl (DescInvalid ''bstr16''))"

definition desc_b32 :: "cbor_value \<Rightarrow> descriptor_error + bytes" where
  "desc_b32 v = (case v of Bytes b \<Rightarrow> if length b = 32 then Inr b else Inl (DescInvalid ''bstr32'')
     | _ \<Rightarrow> Inl (DescInvalid ''bstr32''))"

definition desc_pred :: "cbor_value \<Rightarrow> descriptor_error + bytes option" where
  "desc_pred v = (case v of Null \<Rightarrow> Inr None | _ \<Rightarrow> and_then (desc_b32 v) (\<lambda>b. Inr (Some b)))"

fun alias_items :: "cbor_value list \<Rightarrow> descriptor_error + bytes list" where
  "alias_items [] = Inr []"
| "alias_items (item # items) =
     and_then (desc_text item) (\<lambda>s. and_then (validate_name s) (\<lambda>_.
       and_then (alias_items items) (\<lambda>out. Inr (s # out))))"

fun alias_dup :: "bytes list \<Rightarrow> bool" where
  "alias_dup (a # b # as) = (a = b \<or> alias_dup (b # as))"
| "alias_dup as = False"

definition desc_aliases :: "cbor_value \<Rightarrow> descriptor_error + bytes list" where
  "desc_aliases v =
     (case v of
        Array items \<Rightarrow>
          if 64 < length items then Inl (DescInvalid ''too many aliases'')
          else and_then (alias_items items) (\<lambda>out.
            if sort out \<noteq> out then Inl (DescInvalid ''aliases not sorted'')
            else if alias_dup out then Inl (DescInvalid ''duplicate alias'')
            else Inr out)
      | _ \<Rightarrow> Inl (DescInvalid ''aliases''))"

fun validate_names :: "bytes list \<Rightarrow> descriptor_error + unit" where
  "validate_names [] = Inr ()"
| "validate_names (a # as) = and_then (validate_name a) (\<lambda>_. validate_names as)"

definition pred_value :: "bytes option \<Rightarrow> cbor_value" where
  "pred_value p = (case p of None \<Rightarrow> Null | Some h \<Rightarrow> Bytes h)"

section \<open>Heap descriptors\<close>

definition heap_entries :: "heap_descriptor \<Rightarrow> (u64 \<times> cbor_value) list" where
  "heap_entries d =
     [(1, Uint 1), (2, Bytes (hd_origin_deployment_id d)), (3, Bytes (hd_heap_id d)), (4, Bytes (hd_creation_event_id d)),
      (5, Uint (hd_created_at d)), (6, Text HEAP_DESCRIPTOR_PROFILE), (7, pred_value (hd_predecessor_hash d)),
      (8, Uint (hd_sequence d)), (9, Uint (heap_state_u64 (hd_state d))), (10, Text (hd_name d)),
      (11, Array (map Text (hd_aliases d)))]"

definition encode_heap_descriptor :: "heap_descriptor \<Rightarrow> descriptor_error + bytes" where
  "encode_heap_descriptor d =
     and_then (validate_name (hd_name d)) (\<lambda>_.
       if hd_sequence d = 0 then Inl (DescInvalid ''sequence'')
       else if hd_sequence d = 1 \<and> hd_predecessor_hash d \<noteq> None then Inl (DescInvalid ''seq1 predecessor'')
       else if hd_sequence d = 1 \<and> hd_aliases d \<noteq> [] then Inl (DescInvalid ''seq1 aliases'')
       else and_then (validate_names (hd_aliases d)) (\<lambda>_.
         and_then (map_err DescCbor (encode_deterministic_uint_map (heap_entries d))) (\<lambda>out.
           if 65536 < length out then Inl DescTooLarge else Inr out)))"

record heap_fields =
  hf_version :: "u64 option"
  hf_origin :: "bytes option"
  hf_heap :: "bytes option"
  hf_creation :: "bytes option"
  hf_created_at :: "u64 option"
  hf_profile :: "bytes option"
  hf_pred :: "bytes option option"
  hf_sequence :: "u64 option"
  hf_state :: "heap_descriptor_state option"
  hf_name :: "bytes option"
  hf_aliases :: "bytes list option"

definition heap_fields_none :: heap_fields where
  "heap_fields_none = \<lparr>hf_version = None, hf_origin = None, hf_heap = None, hf_creation = None, hf_created_at = None,
     hf_profile = None, hf_pred = None, hf_sequence = None, hf_state = None, hf_name = None, hf_aliases = None\<rparr>"

definition heap_field :: "heap_fields \<Rightarrow> u64 \<Rightarrow> cbor_value \<Rightarrow> descriptor_error + heap_fields" where
  "heap_field st k v =
     (if k = 1 then and_then (desc_uint v) (\<lambda>x. Inr (st\<lparr>hf_version := Some x\<rparr>))
      else if k = 2 then and_then (desc_b16 v) (\<lambda>x. Inr (st\<lparr>hf_origin := Some x\<rparr>))
      else if k = 3 then and_then (desc_b16 v) (\<lambda>x. Inr (st\<lparr>hf_heap := Some x\<rparr>))
      else if k = 4 then and_then (desc_b16 v) (\<lambda>x. Inr (st\<lparr>hf_creation := Some x\<rparr>))
      else if k = 5 then and_then (desc_uint v) (\<lambda>x. Inr (st\<lparr>hf_created_at := Some x\<rparr>))
      else if k = 6 then and_then (desc_text v) (\<lambda>x. Inr (st\<lparr>hf_profile := Some x\<rparr>))
      else if k = 7 then and_then (desc_pred v) (\<lambda>x. Inr (st\<lparr>hf_pred := Some x\<rparr>))
      else if k = 8 then and_then (desc_uint v) (\<lambda>x. Inr (st\<lparr>hf_sequence := Some x\<rparr>))
      else if k = 9 then and_then (and_then (desc_uint v) heap_state_from_u64) (\<lambda>x. Inr (st\<lparr>hf_state := Some x\<rparr>))
      else if k = 10 then and_then (desc_text v) (\<lambda>x. Inr (st\<lparr>hf_name := Some x\<rparr>))
      else if k = 11 then and_then (desc_aliases v) (\<lambda>x. Inr (st\<lparr>hf_aliases := Some x\<rparr>))
      else Inl (DescInvalid ''unknown key''))"

fun heap_loop :: "heap_fields \<Rightarrow> (u64 \<times> cbor_value) list \<Rightarrow> descriptor_error + heap_fields" where
  "heap_loop st [] = Inr st"
| "heap_loop st ((k, v) # es) = and_then (heap_field st k v) (\<lambda>st1. heap_loop st1 es)"

definition heap_build :: "heap_fields \<Rightarrow> descriptor_error + heap_descriptor" where
  "heap_build st =
     and_then (ok_or (hf_origin st) (DescInvalid ''origin'')) (\<lambda>origin.
     and_then (ok_or (hf_heap st) (DescInvalid ''heap'')) (\<lambda>heap.
     and_then (ok_or (hf_creation st) (DescInvalid ''creation'')) (\<lambda>creation.
     and_then (ok_or (hf_created_at st) (DescInvalid ''created_at'')) (\<lambda>created_at.
     and_then (ok_or (hf_pred st) (DescInvalid ''pred'')) (\<lambda>prd.
     and_then (ok_or (hf_sequence st) (DescInvalid ''sequence'')) (\<lambda>seq.
     and_then (ok_or (hf_state st) (DescInvalid ''state'')) (\<lambda>state.
     and_then (ok_or (hf_name st) (DescInvalid ''name'')) (\<lambda>name.
     and_then (ok_or (hf_aliases st) (DescInvalid ''aliases'')) (\<lambda>aliases.
       Inr \<lparr>hd_origin_deployment_id = origin, hd_heap_id = heap, hd_creation_event_id = creation,
         hd_created_at = created_at, hd_predecessor_hash = prd, hd_sequence = seq, hd_state = state,
         hd_name = name, hd_aliases = aliases\<rparr>)))))))))"

definition decode_heap_descriptor :: "bytes \<Rightarrow> descriptor_error + heap_descriptor" where
  "decode_heap_descriptor bs =
     (if 65536 < length bs then Inl DescTooLarge
      else and_then (map_err DescCbor (decode_deterministic_uint_map bs)) (\<lambda>es.
        if length es \<noteq> 11 then Inl (DescInvalid ''field count'')
        else and_then (heap_loop heap_fields_none es) (\<lambda>st.
          if hf_version st \<noteq> Some 1 then Inl (DescInvalid ''version'')
          else if hf_profile st \<noteq> Some HEAP_DESCRIPTOR_PROFILE then Inl (DescInvalid ''profile'')
          else and_then (heap_build st) (\<lambda>d.
            and_then (validate_name (hd_name d)) (\<lambda>_.
              if hd_sequence d = 0 then Inl (DescInvalid ''sequence'')
              else if hd_sequence d = 1 \<and> (hd_predecessor_hash d \<noteq> None \<or> hd_aliases d \<noteq> [])
              then Inl (DescInvalid ''seq1 shape'')
              else Inr d)))))"

section \<open>Collection and stream descriptors\<close>

definition object_entries :: "object_descriptor \<Rightarrow> (u64 \<times> cbor_value) list" where
  "object_entries d =
     [(1, Uint 1), (2, Bytes (od_heap_id d)), (3, Bytes (od_object_id d)), (4, Bytes (od_creation_event_id d)),
      (5, Uint (od_created_at d)), (6, Text HEAP_DESCRIPTOR_PROFILE), (7, pred_value (od_predecessor_hash d)),
      (8, Uint (od_sequence d)), (9, Text (od_name d)), (10, Array (map Text (od_aliases d))),
      (11, Uint (object_state_u64 (od_state d))), (12, Map [])]"

definition encode_object_descriptor :: "object_descriptor \<Rightarrow> descriptor_error + bytes" where
  "encode_object_descriptor d =
     and_then (validate_name (od_name d)) (\<lambda>_.
       if od_sequence d = 0 then Inl (DescInvalid ''sequence'')
       else if od_sequence d = 1 \<and> od_predecessor_hash d \<noteq> None then Inl (DescInvalid ''seq1 predecessor'')
       else and_then (validate_names (od_aliases d)) (\<lambda>_.
         and_then (map_err DescCbor (encode_deterministic_uint_map (object_entries d))) (\<lambda>out.
           if 65536 < length out then Inl DescTooLarge else Inr out)))"

record object_fields =
  of_version :: "u64 option"
  of_heap_id :: "bytes option"
  of_object :: "bytes option"
  of_creation :: "bytes option"
  of_created_at :: "u64 option"
  of_profile_name :: "bytes option"
  of_pred :: "bytes option option"
  of_sequence :: "u64 option"
  of_name :: "bytes option"
  of_aliases :: "bytes list option"
  of_state :: "object_descriptor_state option"
  of_options_ok :: bool

definition object_fields_none :: object_fields where
  "object_fields_none = \<lparr>of_version = None, of_heap_id = None, of_object = None, of_creation = None, of_created_at = None,
     of_profile_name = None, of_pred = None, of_sequence = None, of_name = None, of_aliases = None, of_state = None,
     of_options_ok = False\<rparr>"

definition object_field :: "object_fields \<Rightarrow> u64 \<Rightarrow> cbor_value \<Rightarrow> descriptor_error + object_fields" where
  "object_field st k v =
     (if k = 1 then and_then (desc_uint v) (\<lambda>x. Inr (st\<lparr>of_version := Some x\<rparr>))
      else if k = 2 then and_then (desc_b16 v) (\<lambda>x. Inr (st\<lparr>of_heap_id := Some x\<rparr>))
      else if k = 3 then and_then (desc_b16 v) (\<lambda>x. Inr (st\<lparr>of_object := Some x\<rparr>))
      else if k = 4 then and_then (desc_b16 v) (\<lambda>x. Inr (st\<lparr>of_creation := Some x\<rparr>))
      else if k = 5 then and_then (desc_uint v) (\<lambda>x. Inr (st\<lparr>of_created_at := Some x\<rparr>))
      else if k = 6 then and_then (desc_text v) (\<lambda>x. Inr (st\<lparr>of_profile_name := Some x\<rparr>))
      else if k = 7 then and_then (desc_pred v) (\<lambda>x. Inr (st\<lparr>of_pred := Some x\<rparr>))
      else if k = 8 then and_then (desc_uint v) (\<lambda>x. Inr (st\<lparr>of_sequence := Some x\<rparr>))
      else if k = 9 then and_then (desc_text v) (\<lambda>x. Inr (st\<lparr>of_name := Some x\<rparr>))
      else if k = 10 then and_then (desc_aliases v) (\<lambda>x. Inr (st\<lparr>of_aliases := Some x\<rparr>))
      else if k = 11 then and_then (and_then (desc_uint v) object_state_from_u64) (\<lambda>x. Inr (st\<lparr>of_state := Some x\<rparr>))
      else if k = 12 then (if v = Map [] then Inr (st\<lparr>of_options_ok := True\<rparr>) else Inl (DescInvalid ''options''))
      else Inl (DescInvalid ''unknown key''))"

fun object_loop :: "object_fields \<Rightarrow> (u64 \<times> cbor_value) list \<Rightarrow> descriptor_error + object_fields" where
  "object_loop st [] = Inr st"
| "object_loop st ((k, v) # es) = and_then (object_field st k v) (\<lambda>st1. object_loop st1 es)"

definition object_build :: "object_fields \<Rightarrow> descriptor_error + object_descriptor" where
  "object_build st =
     and_then (ok_or (of_heap_id st) (DescInvalid ''heap'')) (\<lambda>heap.
     and_then (ok_or (of_object st) (DescInvalid ''object'')) (\<lambda>object.
     and_then (ok_or (of_creation st) (DescInvalid ''creation'')) (\<lambda>creation.
     and_then (ok_or (of_created_at st) (DescInvalid ''created_at'')) (\<lambda>created_at.
     and_then (ok_or (of_pred st) (DescInvalid ''pred'')) (\<lambda>prd.
     and_then (ok_or (of_sequence st) (DescInvalid ''sequence'')) (\<lambda>seq.
     and_then (ok_or (of_name st) (DescInvalid ''name'')) (\<lambda>name.
     and_then (ok_or (of_aliases st) (DescInvalid ''aliases'')) (\<lambda>aliases.
     and_then (ok_or (of_state st) (DescInvalid ''state'')) (\<lambda>state.
       Inr \<lparr>od_heap_id = heap, od_object_id = object, od_creation_event_id = creation, od_created_at = created_at,
         od_predecessor_hash = prd, od_sequence = seq, od_name = name, od_aliases = aliases, od_state = state\<rparr>)))))))))"

definition decode_object_descriptor :: "bytes \<Rightarrow> descriptor_error + object_descriptor" where
  "decode_object_descriptor bs =
     (if 65536 < length bs then Inl DescTooLarge
      else and_then (map_err DescCbor (decode_deterministic_uint_map bs)) (\<lambda>es.
        if length es \<noteq> 12 then Inl (DescInvalid ''field count'')
        else and_then (object_loop object_fields_none es) (\<lambda>st.
          if of_version st \<noteq> Some 1 \<or> of_profile_name st \<noteq> Some HEAP_DESCRIPTOR_PROFILE \<or> \<not> of_options_ok st
          then Inl (DescInvalid ''header'')
          else and_then (object_build st) (\<lambda>d.
            and_then (validate_name (od_name d)) (\<lambda>_.
              if od_sequence d = 0 \<or> od_sequence d = 1 \<and> od_predecessor_hash d \<noteq> None
              then Inl (DescInvalid ''sequence shape'')
              else Inr d)))))"

definition descriptor_hash :: "(bytes \<Rightarrow> bytes) \<Rightarrow> bytes \<Rightarrow> bytes" where
  "descriptor_hash blake3 body =
     blake3 (map (\<lambda>c. word_of_nat (of_char c)) ''RESIDIUUM-HEAP-DESCRIPTOR-V1'' @ [0] @ body)"

section \<open>What the readers accept\<close>

definition name_ok :: "bytes \<Rightarrow> bool" where
  "name_ok b \<longleftrightarrow> b \<noteq> [] \<and> length b \<le> 255 \<and> (\<forall>c \<in> set b. 0x20 \<le> c)"

lemma validate_name_iff [result_simps]: "validate_name b = Inr u \<longleftrightarrow> name_ok b"
proof -
  have "c = 0 \<or> c < 0x20 \<longleftrightarrow> c < 0x20" for c :: byte by auto
  then show ?thesis by (auto simp: validate_name_def name_ok_def not_less not_le)
qed

lemma validate_names_iff [result_simps]: "validate_names as = Inr u \<longleftrightarrow> (\<forall>a \<in> set as. name_ok a)"
  by (induction as) (auto simp: result_simps)

lemma desc_readers [result_simps]:
  "desc_uint v = Inr u \<longleftrightarrow> v = Uint u"
  "desc_text v = Inr s \<longleftrightarrow> v = Text s"
  "desc_b16 v = Inr b \<longleftrightarrow> v = Bytes b \<and> length b = 16"
  "desc_b32 v = Inr b \<longleftrightarrow> v = Bytes b \<and> length b = 32"
  by (auto simp: desc_uint_def desc_text_def desc_b16_def desc_b32_def split: cbor_value.splits)

lemma desc_pred_iff [result_simps]: "desc_pred v = Inr p \<longleftrightarrow> v = pred_value p \<and> (\<forall>h. p = Some h \<longrightarrow> length h = 32)"
  by (cases v; cases p) (auto simp: desc_pred_def pred_value_def desc_b32_def)

lemma heap_state_iff [result_simps]: "heap_state_from_u64 v = Inr st \<longleftrightarrow> v = heap_state_u64 st"
  by (cases st) (auto simp: heap_state_from_u64_def)

lemma object_state_iff [result_simps]: "object_state_from_u64 v = Inr st \<longleftrightarrow> v = object_state_u64 st"
  by (cases st) (auto simp: object_state_from_u64_def)

lemma alias_items_iff: "alias_items items = Inr out \<longleftrightarrow> items = map Text out \<and> (\<forall>a \<in> set out. name_ok a)"
  by (induction items arbitrary: out) (auto simp: result_simps)

lemma alias_dup_iff: "sorted as \<Longrightarrow> alias_dup as \<longleftrightarrow> \<not> distinct as"
  by (induction as rule: alias_dup.induct) auto

definition aliases_ok :: "bytes list \<Rightarrow> bool" where
  "aliases_ok as \<longleftrightarrow> length as \<le> 64 \<and> sorted_wrt (<) as \<and> (\<forall>a \<in> set as. name_ok a)"

lemma desc_aliases_iff [result_simps]: "desc_aliases v = Inr out \<longleftrightarrow> v = Array (map Text out) \<and> aliases_ok out"
proof (cases v)
  case (Array items)
  have "sort out = out \<and> \<not> alias_dup out \<longleftrightarrow> sorted_wrt (<) out"
    by (metis alias_dup_iff sorted_sort sorted_sort_id strict_sorted_iff)
  then show ?thesis using Array
    by (auto simp: desc_aliases_def result_simps alias_items_iff aliases_ok_def split: if_splits)
qed (auto simp: desc_aliases_def)

section \<open>Descriptors that survive\<close>

definition utf8_name :: "bytes \<Rightarrow> bool" where
  "utf8_name b \<longleftrightarrow> name_ok b \<and> utf8_valid b"

definition heap_descriptor_ok :: "heap_descriptor \<Rightarrow> bool" where
  "heap_descriptor_ok d \<longleftrightarrow> length (hd_origin_deployment_id d) = 16 \<and> length (hd_heap_id d) = 16
     \<and> length (hd_creation_event_id d) = 16 \<and> (\<forall>h. hd_predecessor_hash d = Some h \<longrightarrow> length h = 32)
     \<and> hd_sequence d \<noteq> 0 \<and> (hd_sequence d = 1 \<longrightarrow> hd_predecessor_hash d = None \<and> hd_aliases d = [])
     \<and> utf8_name (hd_name d) \<and> aliases_ok (hd_aliases d) \<and> (\<forall>a \<in> set (hd_aliases d). utf8_valid a)"

definition object_descriptor_ok :: "object_descriptor \<Rightarrow> bool" where
  "object_descriptor_ok d \<longleftrightarrow> length (od_heap_id d) = 16 \<and> length (od_object_id d) = 16
     \<and> length (od_creation_event_id d) = 16 \<and> (\<forall>h. od_predecessor_hash d = Some h \<longrightarrow> length h = 32)
     \<and> od_sequence d \<noteq> 0 \<and> (od_sequence d = 1 \<longrightarrow> od_predecessor_hash d = None)
     \<and> utf8_name (od_name d) \<and> aliases_ok (od_aliases d) \<and> (\<forall>a \<in> set (od_aliases d). utf8_valid a)"

text \<open>A list of distinct sorted keys from a set of as many keys is the sorted list of the set.\<close>

lemma keys_exact:
  assumes "sorted_wrt (<) (ks :: u64 list)" "set ks \<subseteq> set js" "length ks = length js" "sorted_wrt (<) js"
  shows "ks = js"
proof -
  have "distinct ks" "distinct js" "sorted ks" "sorted js" using assms(1,4) by (simp_all add: strict_sorted_iff)
  then have "set ks = set js" using assms(2,3) by (metis card_subset_eq distinct_card finite_set)
  then show ?thesis using \<open>distinct ks\<close> \<open>distinct js\<close> \<open>sorted ks\<close> \<open>sorted js\<close> by (metis sorted_distinct_set_unique)
qed

lemma heap_field_key: "heap_field st k v = Inr st' \<Longrightarrow> k \<in> set [1, 2, 3, 4, 5, 6, 7, 8, 9, 10, 11]"
  by (auto simp: heap_field_def split: if_splits)

lemma heap_loop_keys: "heap_loop st es = Inr st' \<Longrightarrow> fst ` set es \<subseteq> set [1, 2, 3, 4, 5, 6, 7, 8, 9, 10, 11]"
proof (induction st es rule: heap_loop.induct)
  case (2 st k v es)
  then obtain st1 where "heap_field st k v = Inr st1" "heap_loop st1 es = Inr st'" by (auto simp: result_simps)
  then have "k \<in> set [1, 2, 3, 4, 5, 6, 7, 8, 9, 10, 11]" "fst ` set es \<subseteq> set [1, 2, 3, 4, 5, 6, 7, 8, 9, 10, 11]"
    using "2.IH" by (auto simp del: set_simps intro: heap_field_key)
  then show ?case by simp
qed simp

lemma object_field_key: "object_field st k v = Inr st' \<Longrightarrow> k \<in> set [1, 2, 3, 4, 5, 6, 7, 8, 9, 10, 11, 12]"
  by (auto simp: object_field_def split: if_splits)

lemma object_loop_keys: "object_loop st es = Inr st' \<Longrightarrow> fst ` set es \<subseteq> set [1, 2, 3, 4, 5, 6, 7, 8, 9, 10, 11, 12]"
proof (induction st es rule: object_loop.induct)
  case (2 st k v es)
  then obtain st1 where "object_field st k v = Inr st1" "object_loop st1 es = Inr st'" by (auto simp: result_simps)
  then have "k \<in> set [1, 2, 3, 4, 5, 6, 7, 8, 9, 10, 11, 12]" "fst ` set es \<subseteq> set [1, 2, 3, 4, 5, 6, 7, 8, 9, 10, 11, 12]"
    using "2.IH" by (auto simp del: set_simps intro: object_field_key)
  then show ?case by simp
qed simp

lemma heap_loop_entries:
  assumes "sorted_wrt (<) (map fst es)" "length es = 11" "heap_loop heap_fields_none es = Inr st"
    "hf_version st = Some 1" "hf_profile st = Some HEAP_DESCRIPTOR_PROFILE" "heap_build st = Inr d"
  shows "es = heap_entries d \<and> length (hd_origin_deployment_id d) = 16 \<and> length (hd_heap_id d) = 16
     \<and> length (hd_creation_event_id d) = 16 \<and> (\<forall>h. hd_predecessor_hash d = Some h \<longrightarrow> length h = 32) \<and> aliases_ok (hd_aliases d)"
proof -
  have "map fst es = [1, 2, 3, 4, 5, 6, 7, 8, 9, 10, 11]"
    using assms(1,2) heap_loop_keys [OF assms(3)] by (intro keys_exact) auto
  then obtain v1 v2 v3 v4 v5 v6 v7 v8 v9 v10 v11 where
    es: "es = [(1, v1), (2, v2), (3, v3), (4, v4), (5, v5), (6, v6), (7, v7), (8, v8), (9, v9), (10, v10), (11, v11)]"
    by (auto simp: map_eq_Cons_conv)
  show ?thesis using assms(3-6) unfolding es
    by (auto simp: heap_field_def heap_fields_none_def heap_build_def heap_entries_def result_simps)
qed

lemma heap_loop_of_entries:
  assumes "heap_descriptor_ok d"
  shows "\<exists>st. heap_loop heap_fields_none (heap_entries d) = Inr st \<and> hf_version st = Some 1
    \<and> hf_profile st = Some HEAP_DESCRIPTOR_PROFILE \<and> heap_build st = Inr d"
proof -
  have r: "desc_uint (Uint u) = Inr u" "desc_text (Text s) = Inr s" "length b = 16 \<Longrightarrow> desc_b16 (Bytes b) = Inr b"
    "desc_pred (pred_value (hd_predecessor_hash d)) = Inr (hd_predecessor_hash d)"
    "heap_state_from_u64 (heap_state_u64 (hd_state d)) = Inr (hd_state d)"
    "desc_aliases (Array (map Text (hd_aliases d))) = Inr (hd_aliases d)" for u s b
    using assms by (auto simp: result_simps heap_descriptor_ok_def)
  show ?thesis using assms r
    by (simp add: heap_field_def heap_fields_none_def heap_build_def heap_entries_def heap_descriptor_ok_def)
qed

lemma object_loop_entries:
  assumes "sorted_wrt (<) (map fst es)" "length es = 12" "object_loop object_fields_none es = Inr st"
    "of_version st = Some 1" "of_profile_name st = Some HEAP_DESCRIPTOR_PROFILE" "of_options_ok st" "object_build st = Inr d"
  shows "es = object_entries d \<and> length (od_heap_id d) = 16 \<and> length (od_object_id d) = 16
     \<and> length (od_creation_event_id d) = 16 \<and> (\<forall>h. od_predecessor_hash d = Some h \<longrightarrow> length h = 32) \<and> aliases_ok (od_aliases d)"
proof -
  have "map fst es = [1, 2, 3, 4, 5, 6, 7, 8, 9, 10, 11, 12]"
    using assms(1,2) object_loop_keys [OF assms(3)] by (intro keys_exact) auto
  then obtain v1 v2 v3 v4 v5 v6 v7 v8 v9 v10 v11 v12 where
    es: "es = [(1, v1), (2, v2), (3, v3), (4, v4), (5, v5), (6, v6), (7, v7), (8, v8), (9, v9), (10, v10), (11, v11), (12, v12)]"
    by (auto simp: map_eq_Cons_conv)
  show ?thesis using assms(3-7) unfolding es
    by (auto simp: object_field_def object_fields_none_def object_build_def object_entries_def result_simps split: if_splits)
qed

lemma object_loop_of_entries:
  assumes "object_descriptor_ok d"
  shows "\<exists>st. object_loop object_fields_none (object_entries d) = Inr st \<and> of_version st = Some 1
    \<and> of_profile_name st = Some HEAP_DESCRIPTOR_PROFILE \<and> of_options_ok st \<and> object_build st = Inr d"
proof -
  have r: "desc_uint (Uint u) = Inr u" "desc_text (Text s) = Inr s" "length b = 16 \<Longrightarrow> desc_b16 (Bytes b) = Inr b"
    "desc_pred (pred_value (od_predecessor_hash d)) = Inr (od_predecessor_hash d)"
    "object_state_from_u64 (object_state_u64 (od_state d)) = Inr (od_state d)"
    "desc_aliases (Array (map Text (od_aliases d))) = Inr (od_aliases d)" for u s b
    using assms by (auto simp: result_simps object_descriptor_ok_def)
  show ?thesis using assms r
    by (simp add: object_field_def object_fields_none_def object_build_def object_entries_def object_descriptor_ok_def)
qed

section \<open>Sizes\<close>

text \<open>What the encoders check, on values of the Rust types: everything but the order of the aliases.\<close>

definition heap_descriptor_typed :: "heap_descriptor \<Rightarrow> bool" where
  "heap_descriptor_typed d \<longleftrightarrow> length (hd_origin_deployment_id d) = 16 \<and> length (hd_heap_id d) = 16
     \<and> length (hd_creation_event_id d) = 16 \<and> (\<forall>h. hd_predecessor_hash d = Some h \<longrightarrow> length h = 32)
     \<and> utf8_valid (hd_name d) \<and> (\<forall>a \<in> set (hd_aliases d). utf8_valid a)"

definition heap_checked :: "heap_descriptor \<Rightarrow> bool" where
  "heap_checked d \<longleftrightarrow> name_ok (hd_name d) \<and> hd_sequence d \<noteq> 0
     \<and> (hd_sequence d = 1 \<longrightarrow> hd_predecessor_hash d = None \<and> hd_aliases d = []) \<and> (\<forall>a \<in> set (hd_aliases d). name_ok a)"

lemma heap_ok_iff:
  "heap_descriptor_ok d \<longleftrightarrow> heap_descriptor_typed d \<and> heap_checked d \<and> length (hd_aliases d) \<le> 64 \<and> sorted_wrt (<) (hd_aliases d)"
  by (auto simp: heap_descriptor_ok_def heap_descriptor_typed_def heap_checked_def utf8_name_def aliases_ok_def)

text \<open>The entries of a descriptor that keeps the rules are canonical and far below the size limit.\<close>

lemma write_type_arg_length: "length (write_type_arg m a) \<le> 9"
  by (simp add: write_type_arg_def Let_def)

lemma write_uint_length: "length (write_uint k) \<le> 9"
  by (simp add: write_uint_def write_type_arg_length)

lemma string_length:
  "length (enc_value (Uint u)) \<le> 9" "length (enc_value (Bytes b)) \<le> 9 + length b" "length (enc_value (Text b)) \<le> 9 + length b"
  using write_type_arg_length [of 0 u] write_type_arg_length [of 2 "len_u64 b"] write_type_arg_length [of 3 "len_u64 b"]
  by (simp_all add: write_uint_def)

lemma pred_length: "(\<forall>h. p = Some h \<longrightarrow> length h = 32) \<Longrightarrow> length (enc_value (pred_value p)) \<le> 41"
  using string_length(2) [of "the p"] by (cases p) (auto simp: pred_value_def simp del: enc_value.simps(3))

lemma profile_length: "length HEAP_DESCRIPTOR_PROFILE = 17" "utf8_valid HEAP_DESCRIPTOR_PROFILE"
  by code_simp+

lemma alias_text_length:
  assumes "\<forall>a \<in> set as. name_ok a" shows "length (concat (map enc_value (map Text as))) \<le> length as * 264"
  using assms
proof (induction as)
  case (Cons a as)
  then have "length (enc_value (Text a)) \<le> 264" using string_length(3) [of a] by (auto simp: name_ok_def simp del: enc_value.simps)
  then show ?case using Cons by (simp del: enc_value.simps)
qed simp

definition aliases_short :: "bytes list \<Rightarrow> bool" where
  "aliases_short as \<longleftrightarrow> length as \<le> 64 \<and> (\<forall>a \<in> set as. name_ok a)"

lemma aliases_length: "aliases_short as \<Longrightarrow> length (enc_value (Array (map Text as))) \<le> 16905"
proof -
  assume a: "aliases_short as"
  then have "length (concat (map enc_value (map Text as))) \<le> 64 * 264"
    using alias_text_length [of as] by (auto simp: aliases_short_def intro: order.trans)
  then show ?thesis using write_type_arg_length [of 4 "len_u64 (map Text as)"] by simp
qed

definition small_entry :: "u64 \<times> cbor_value \<Rightarrow> bool" where
  "small_entry e \<longleftrightarrow> length (enc_value (snd e)) \<le> 300"

lemma entries_length:
  assumes "\<forall>e \<in> set es. small_entry e" "aliases_short as" "length es + length fs \<le> 12" "\<forall>e \<in> set fs. small_entry e"
  shows "length (enc_value (Map (es @ [(k, Array (map Text as))] @ fs))) \<le> 65536"
proof -
  have s: "length (concat (map (\<lambda>(k, v). write_uint k @ enc_value v) gs)) \<le> length gs * 309" if "\<forall>e \<in> set gs. small_entry e" for gs
    using that
  proof (induction gs)
    case (Cons e gs)
    then have "length (write_uint (fst e)) + length (enc_value (snd e)) \<le> 309"
      using write_uint_length [of "fst e"] by (simp add: small_entry_def)
    then show ?case using Cons by (cases e) (simp del: enc_value.simps)
  qed simp
  have "length (write_uint k) + length (enc_value (Array (map Text as))) \<le> 9 + 16905"
    by (intro add_mono write_uint_length aliases_length assms(2))
  moreover have "length es * 309 + length fs * 309 \<le> 12 * 309" using assms(3) by linarith
  ultimately show ?thesis
    using s [OF assms(1)] s [OF assms(4)] write_type_arg_length [of 5 "len_u64 (es @ [(k, Array (map Text as))] @ fs)"]
    by (simp del: enc_value.simps(5))
qed

lemma head_len_small: "length xs \<le> 65536 \<Longrightarrow> head_len xs"
  by (simp add: head_len_def)

lemma pred_writable: "(\<forall>h. p = Some h \<longrightarrow> length h = 32) \<Longrightarrow> writable (pred_value p) \<and> sorted_maps (pred_value p)"
  by (cases p) (auto simp: pred_value_def head_len_def)

lemma heap_entries_canonical:
  assumes "heap_descriptor_typed d" "heap_checked d" "length (hd_aliases d) \<le> 64"
  shows "canonical_value (Map (heap_entries d))"
  using assms profile_length pred_writable [of "hd_predecessor_hash d"]
  by (auto simp: canonical_value_def heap_entries_def heap_descriptor_typed_def heap_checked_def name_ok_def head_len_def)

lemma object_entries_canonical: "object_descriptor_ok d \<Longrightarrow> canonical_value (Map (object_entries d))"
  using profile_length pred_writable [of "od_predecessor_hash d"]
  by (auto simp: canonical_value_def object_entries_def object_descriptor_ok_def aliases_ok_def utf8_name_def name_ok_def head_len_def)

lemma small_entries:
  "small_entry (k, Uint u)" "length b \<le> 255 \<Longrightarrow> small_entry (k, Bytes b)" "length b \<le> 255 \<Longrightarrow> small_entry (k, Text b)"
  "(\<forall>h. p = Some h \<longrightarrow> length h = 32) \<Longrightarrow> small_entry (k, pred_value p)" "small_entry (k, Map [])"
  using string_length(1) [of u] string_length(2,3) [of b] pred_length [of p] write_type_arg_length [of 5 "len_u64 ([] :: (u64 \<times> cbor_value) list)"]
  by (auto simp: small_entry_def simp del: enc_value.simps(1-5))

lemma heap_entries_length:
  assumes "heap_descriptor_typed d" "heap_checked d" "length (hd_aliases d) \<le> 64"
  shows "length (enc_value (Map (heap_entries d))) \<le> 65536"
  using assms entries_length [of "butlast (heap_entries d)" "hd_aliases d" "[]" 11] profile_length
  by (simp add: heap_entries_def heap_descriptor_typed_def heap_checked_def aliases_short_def name_ok_def small_entries del: enc_value.simps)

lemma object_entries_length: "object_descriptor_ok d \<Longrightarrow> length (enc_value (Map (object_entries d))) \<le> 65536"
  using entries_length [of "take 9 (object_entries d)" "od_aliases d" "drop 10 (object_entries d)" 10] profile_length
  by (simp add: object_entries_def object_descriptor_ok_def utf8_name_def aliases_ok_def aliases_short_def name_ok_def small_entries
      del: enc_value.simps)

section \<open>The two codecs\<close>

lemma encode_heap_checked:
  assumes "heap_descriptor_typed d" "heap_checked d" "length (hd_aliases d) \<le> 64"
  shows "encode_heap_descriptor d = Inr (enc_value (Map (heap_entries d)))"
proof -
  have "encode_deterministic_uint_map (heap_entries d) = Inr (enc_value (Map (heap_entries d)))"
    using env.enc_dec [OF decode_enc [OF heap_entries_canonical [OF assms]]] .
  moreover have "validate_name (hd_name d) = Inr ()" "validate_names (hd_aliases d) = Inr ()"
    using assms by (auto simp: result_simps heap_checked_def)
  ultimately show ?thesis using assms(2) heap_entries_length [OF assms]
    by (auto simp: encode_heap_descriptor_def heap_checked_def simp del: enc_value.simps)
qed

lemma decode_heap_sound:
  assumes "decode_heap_descriptor bs = Inr d"
  shows "heap_descriptor_ok d" "bs = enc_value (Map (heap_entries d))"
proof -
  obtain es st where es: "decode_deterministic_uint_map bs = Inr es" "length es = 11" "heap_loop heap_fields_none es = Inr st"
      "hf_version st = Some 1" "hf_profile st = Some HEAP_DESCRIPTOR_PROFILE" "heap_build st = Inr d" "name_ok (hd_name d)"
      "hd_sequence d \<noteq> 0" "hd_sequence d = 1 \<longrightarrow> hd_predecessor_hash d = None \<and> hd_aliases d = []"
    using assms by (auto simp: decode_heap_descriptor_def result_simps split: if_splits)
  have c: "canonical_value (Map es)" "bs = enc_value (Map es)" using es(1) by (simp_all add: decode_iff)
  then have "sorted_wrt (<) (map fst es)" by (simp add: canonical_sub)
  note h = heap_loop_entries [OF this es(2-6)]
  then show "bs = enc_value (Map (heap_entries d))" using c(2) by simp
  have "writable (Map (heap_entries d))" using h c(1) by (simp add: canonical_value_def)
  then have "utf8_valid (hd_name d)" "\<forall>a \<in> set (hd_aliases d). utf8_valid a" by (auto simp: heap_entries_def)
  then show "heap_descriptor_ok d" using h es(7-9) by (simp add: heap_descriptor_ok_def utf8_name_def)
qed

lemma decode_heap_complete:
  assumes "heap_descriptor_ok d"
  shows "decode_heap_descriptor (enc_value (Map (heap_entries d))) = Inr d"
proof -
  obtain st where "heap_loop heap_fields_none (heap_entries d) = Inr st" "hf_version st = Some 1"
    "hf_profile st = Some HEAP_DESCRIPTOR_PROFILE" "heap_build st = Inr d" using heap_loop_of_entries [OF assms] by blast
  moreover have "validate_name (hd_name d) = Inr ()" using assms by (simp add: result_simps heap_descriptor_ok_def utf8_name_def)
  moreover have "length (heap_entries d) = 11" by (simp add: heap_entries_def)
  ultimately show ?thesis using assms heap_entries_length [of d] decode_enc [OF heap_entries_canonical [of d]]
    by (auto simp: heap_ok_iff heap_checked_def decode_heap_descriptor_def simp del: enc_value.simps)
qed

interpretation heap_desc: canonical_codec encode_heap_descriptor decode_heap_descriptor heap_descriptor_ok
  by unfold_locales (use encode_heap_checked decode_heap_complete decode_heap_sound in \<open>force simp: heap_ok_iff simp del: enc_value.simps\<close>)+

lemma encode_object_ok:
  assumes "object_descriptor_ok d"
  shows "encode_object_descriptor d = Inr (enc_value (Map (object_entries d)))"
proof -
  have "encode_deterministic_uint_map (object_entries d) = Inr (enc_value (Map (object_entries d)))"
    using env.enc_dec [OF decode_enc [OF object_entries_canonical [OF assms]]] .
  moreover have "validate_name (od_name d) = Inr ()" "validate_names (od_aliases d) = Inr ()"
    using assms by (auto simp: result_simps object_descriptor_ok_def utf8_name_def aliases_ok_def)
  ultimately show ?thesis using assms object_entries_length [OF assms]
    by (auto simp: encode_object_descriptor_def object_descriptor_ok_def simp del: enc_value.simps)
qed

lemma decode_object_sound:
  assumes "decode_object_descriptor bs = Inr d"
  shows "object_descriptor_ok d" "bs = enc_value (Map (object_entries d))"
proof -
  obtain es st where es: "decode_deterministic_uint_map bs = Inr es" "length es = 12" "object_loop object_fields_none es = Inr st"
      "of_version st = Some 1" "of_profile_name st = Some HEAP_DESCRIPTOR_PROFILE" "of_options_ok st" "object_build st = Inr d"
      "name_ok (od_name d)" "od_sequence d \<noteq> 0" "od_sequence d = 1 \<longrightarrow> od_predecessor_hash d = None"
    using assms by (auto simp: decode_object_descriptor_def result_simps split: if_splits)
  have c: "canonical_value (Map es)" "bs = enc_value (Map es)" using es(1) by (simp_all add: decode_iff)
  then have "sorted_wrt (<) (map fst es)" by (simp add: canonical_sub)
  note h = object_loop_entries [OF this es(2-7)]
  then show "bs = enc_value (Map (object_entries d))" using c(2) by simp
  have "writable (Map (object_entries d))" using h c(1) by (simp add: canonical_value_def)
  then have "utf8_valid (od_name d)" "\<forall>a \<in> set (od_aliases d). utf8_valid a" by (auto simp: object_entries_def)
  then show "object_descriptor_ok d" using h es(8-10) by (simp add: object_descriptor_ok_def utf8_name_def)
qed

lemma decode_object_complete:
  assumes "object_descriptor_ok d"
  shows "decode_object_descriptor (enc_value (Map (object_entries d))) = Inr d"
proof -
  obtain st where "object_loop object_fields_none (object_entries d) = Inr st" "of_version st = Some 1"
    "of_profile_name st = Some HEAP_DESCRIPTOR_PROFILE" "of_options_ok st" "object_build st = Inr d"
    using object_loop_of_entries [OF assms] by blast
  moreover have "validate_name (od_name d) = Inr ()" using assms by (simp add: result_simps object_descriptor_ok_def utf8_name_def)
  moreover have "length (object_entries d) = 12" by (simp add: object_entries_def)
  ultimately show ?thesis using assms object_entries_length [OF assms] decode_enc [OF object_entries_canonical [OF assms]]
    by (auto simp: decode_object_descriptor_def object_descriptor_ok_def simp del: enc_value.simps)
qed

interpretation object_desc: canonical_codec encode_object_descriptor decode_object_descriptor object_descriptor_ok
  by unfold_locales (use encode_object_ok decode_object_complete decode_object_sound in \<open>force simp del: enc_value.simps\<close>)+

section \<open>Properties\<close>



text \<open>C13: The encoder checks each alias but not their order, number or uniqueness. What it writes for
  a descriptor reads back exactly when the aliases are strictly sorted and at most 64; otherwise the
  encoder has succeeded and the decoder refuses its output.\<close>

theorem heap_descriptor_alias_order:
  assumes "heap_descriptor_typed d" "encode_heap_descriptor d = Inr bs"
  shows "decode_heap_descriptor bs = Inr d \<longleftrightarrow> length (hd_aliases d) \<le> 64 \<and> sorted_wrt (<) (hd_aliases d)"
proof -
  have "heap_checked d"
    using assms(2) by (auto simp: encode_heap_descriptor_def heap_checked_def result_simps split: if_splits)
  then show ?thesis using assms heap_desc.dec_iff_enc [of bs d] by (simp add: heap_ok_iff)
qed

definition ex_unsorted :: heap_descriptor where
  "ex_unsorted = \<lparr>hd_origin_deployment_id = replicate 16 1, hd_heap_id = replicate 16 2, hd_creation_event_id = replicate 16 3,
     hd_created_at = 5, hd_predecessor_hash = Some (replicate 32 0), hd_sequence = 2, hd_state = HdActive,
     hd_name = [0x61], hd_aliases = [[0x63], [0x62]]\<rparr>"

theorem heap_descriptor_alias_order_witness:
  "\<exists>bs. heap_descriptor_typed ex_unsorted \<and> encode_heap_descriptor ex_unsorted = Inr bs \<and> decode_heap_descriptor bs \<noteq> Inr ex_unsorted"
proof -
  have t: "heap_descriptor_typed ex_unsorted" "heap_checked ex_unsorted" "length (hd_aliases ex_unsorted) \<le> 64"
    "\<not> sorted_wrt (<) (hd_aliases ex_unsorted)"
    by (simp_all add: heap_descriptor_typed_def heap_checked_def name_ok_def ex_unsorted_def)
  note e = encode_heap_checked [OF t(1-3)]
  show ?thesis using heap_descriptor_alias_order [OF t(1) e] t e by blast
qed

end
