(* ===== verification/Frame.thy ===== *)
theory Frame
  imports Cbor_Determinism
begin

text \<open>
  Frames: \<^verbatim>\<open>limits.rs\<close>, \<^verbatim>\<open>kinds.rs\<close>, \<^verbatim>\<open>integrity.rs\<close> and \<^verbatim>\<open>frame.rs\<close> of
  \<^verbatim>\<open>crates/residiuum-format/src\<close>.

  A frame is a 64-byte prefix, an envelope, a body and a 56-byte suffix. The CRC32C and
  BLAKE3 functions come from third-party crates: they are the fields of the record
  \<open>integrity\<close>, which the operations take as an argument, with the thread-local diagnostic
  switch that makes the encoder leave the body hash zero. \<open>blake3_documented\<close> states what
  the sources rely on: digests of 32 bytes, and an incremental hasher that agrees with the
  one-shot function.
\<close>

section \<open>Limits (limits.rs)\<close>

record safety_limits =
  max_envelope_len :: u32
  max_body_len :: u64
  max_frame_len :: u64

definition draft_defaults :: safety_limits where
  "draft_defaults = \<lparr>max_envelope_len = 64 * 1024, max_body_len = 16 * 1024 * 1024,
     max_frame_len = 17 * 1024 * 1024\<rparr>"

definition checked_frame_len :: "u32 \<Rightarrow> u64 \<Rightarrow> u64 option" where
  "checked_frame_len envelope_len body_len =
     Option.bind (checked_add 64 56) (\<lambda>fixed.
       let env = ucast envelope_len in
       Option.bind (checked_add fixed env) (\<lambda>s. checked_add s body_len))"

definition accepts_lengths :: "safety_limits \<Rightarrow> u32 \<Rightarrow> u64 \<Rightarrow> bool" where
  "accepts_lengths self envelope_len body_len =
     (if max_envelope_len self < envelope_len \<or> max_body_len self < body_len then False
      else case checked_frame_len envelope_len body_len of
        Some frame_len \<Rightarrow> frame_len \<le> max_frame_len self
      | None \<Rightarrow> False)"

section \<open>Kinds and flags (kinds.rs)\<close>

datatype frame_kind =
    Invalid | StoreDescriptor | SegmentDescriptor | ItemEvent | PayloadChunk | BatchPrepare
  | BatchCommit | SegmentSummary | PurgeAttestation | Padding | HeapDescriptor
  | CollectionDescriptor | StreamDescriptor | HeapMigrationEvidence

definition kind_from_u8 :: "u8 \<Rightarrow> u8 + frame_kind" where
  "kind_from_u8 value =
     (if value = 0 then Inr Invalid
      else if value = 1 then Inr StoreDescriptor
      else if value = 2 then Inr SegmentDescriptor
      else if value = 3 then Inr ItemEvent
      else if value = 4 then Inr PayloadChunk
      else if value = 5 then Inr BatchPrepare
      else if value = 6 then Inr BatchCommit
      else if value = 7 then Inr SegmentSummary
      else if value = 8 then Inr PurgeAttestation
      else if value = 9 then Inr Padding
      else if value = 10 then Inr HeapDescriptor
      else if value = 11 then Inr CollectionDescriptor
      else if value = 12 then Inr StreamDescriptor
      else if value = 13 then Inr HeapMigrationEvidence
      else Inl value)"

fun kind_as_u8 :: "frame_kind \<Rightarrow> u8" where
  "kind_as_u8 Invalid = 0"
| "kind_as_u8 StoreDescriptor = 1"
| "kind_as_u8 SegmentDescriptor = 2"
| "kind_as_u8 ItemEvent = 3"
| "kind_as_u8 PayloadChunk = 4"
| "kind_as_u8 BatchPrepare = 5"
| "kind_as_u8 BatchCommit = 6"
| "kind_as_u8 SegmentSummary = 7"
| "kind_as_u8 PurgeAttestation = 8"
| "kind_as_u8 Padding = 9"
| "kind_as_u8 HeapDescriptor = 10"
| "kind_as_u8 CollectionDescriptor = 11"
| "kind_as_u8 StreamDescriptor = 12"
| "kind_as_u8 HeapMigrationEvidence = 13"

datatype frame_flags = FrameFlags (flags_as_u8: u8)

definition FLAG_COMPRESSED :: u8 where "FLAG_COMPRESSED = push_bit 0 1"
definition FLAG_ENCRYPTED :: u8 where "FLAG_ENCRYPTED = push_bit 1 1"
definition FLAG_CHUNKED :: u8 where "FLAG_CHUNKED = push_bit 2 1"
definition FLAG_CANONICAL :: u8 where "FLAG_CANONICAL = push_bit 3 1"
definition FLAG_REPAIR :: u8 where "FLAG_REPAIR = push_bit 4 1"
definition FLAG_RESERVED_MASK :: u8 where "FLAG_RESERVED_MASK = 0xe0"

definition has_reserved_bits :: "frame_flags \<Rightarrow> bool" where
  "has_reserved_bits f \<longleftrightarrow> flags_as_u8 f AND FLAG_RESERVED_MASK \<noteq> 0"

definition flag_compressed :: "frame_flags \<Rightarrow> bool" where
  "flag_compressed f \<longleftrightarrow> flags_as_u8 f AND FLAG_COMPRESSED \<noteq> 0"

definition flag_encrypted :: "frame_flags \<Rightarrow> bool" where
  "flag_encrypted f \<longleftrightarrow> flags_as_u8 f AND FLAG_ENCRYPTED \<noteq> 0"

definition flag_chunked :: "frame_flags \<Rightarrow> bool" where
  "flag_chunked f \<longleftrightarrow> flags_as_u8 f AND FLAG_CHUNKED \<noteq> 0"

section \<open>Integrity (integrity.rs)\<close>

record 'h integrity =
  crc32c :: "bytes \<Rightarrow> u32"
  crc32c_append :: "u32 \<Rightarrow> bytes \<Rightarrow> u32"
  blake3_hash :: "bytes \<Rightarrow> bytes"
  hasher_new :: 'h
  hasher_update :: "'h \<Rightarrow> bytes \<Rightarrow> 'h"
  hasher_finalize :: "'h \<Rightarrow> bytes"
  diagnostic_skip_body_hash :: bool

definition BODY_HASH_LEN :: nat where "BODY_HASH_LEN = 32"

definition blake3_documented :: "'h integrity \<Rightarrow> bool" where
  "blake3_documented I \<longleftrightarrow> (\<forall>b. length (blake3_hash I b) = BODY_HASH_LEN)
     \<and> (\<forall>cs. hasher_finalize I (foldl (hasher_update I) (hasher_new I) cs) = blake3_hash I (concat cs))"

definition set_diagnostic_skip_body_hash :: "bool \<Rightarrow> 'h integrity \<Rightarrow> 'h integrity" where
  "set_diagnostic_skip_body_hash skip I = I\<lparr>diagnostic_skip_body_hash := skip\<rparr>"

definition copy_at :: "nat \<Rightarrow> 'a list \<Rightarrow> 'a list \<Rightarrow> 'a list" where
  "copy_at i src dst = take i dst @ src @ drop (i + length src) dst"

definition prefix_crc32c :: "'h integrity \<Rightarrow> bytes \<Rightarrow> bytes \<Rightarrow> u32" where
  "prefix_crc32c I prefix64 envelope =
     (let buf = copy_at 56 (replicate 4 0) prefix64; crc = crc32c I buf in
      crc32c_append I crc envelope)"

definition suffix_crc32c :: "'h integrity \<Rightarrow> bytes \<Rightarrow> u32" where
  "suffix_crc32c I suffix56 = crc32c I (copy_at 48 (replicate 4 0) suffix56)"

definition body_hash :: "'h integrity \<Rightarrow> bytes \<Rightarrow> bytes" where
  "body_hash I body = blake3_hash I body"

section \<open>Frames (frame.rs)\<close>

definition FRAME_PREFIX_LEN :: nat where "FRAME_PREFIX_LEN = 64"
definition FRAME_SUFFIX_LEN :: nat where "FRAME_SUFFIX_LEN = 56"
definition START_MAGIC :: bytes where
  "START_MAGIC = [0x52, 0x45, 0x53, 0x49, 0x44, 0x46, 0x52, 0x4d]"
definition END_MAGIC :: bytes where
  "END_MAGIC = [0x52, 0x45, 0x53, 0x49, 0x44, 0x45, 0x4e, 0x44]"
definition WIRE_MAJOR :: u8 where "WIRE_MAJOR = 1"
definition WIRE_MINOR :: u8 where "WIRE_MINOR = 0"

record frame_header =
  wire_major :: u8
  wire_minor :: u8
  hdr_kind :: u8
  hdr_flags :: frame_flags
  envelope_len :: u32
  body_len :: u64
  logical_len :: u64
  writer_sequence :: u64
  event_id :: bytes

record frame_parts =
  parts_header :: frame_header
  parts_envelope :: bytes
  parts_body :: bytes

record decoded_frame =
  frm_header :: frame_header
  frm_envelope :: bytes
  frm_body :: bytes
  frm_body_hash :: bytes
  frm_len :: u64

datatype frame_verify_error =
    Truncated nat nat
  | BadStartMagic
  | UnsupportedWireMajor u8
  | LengthsOutOfLimits
  | BadPrefixCrc
  | BadEndMagic
  | BadSuffixCrc
  | FrameLenMismatch u64 u64
  | BadBodyHash
  | HeaderPayloadMismatch
  | ReservedNonZero
  | TrailingBytes u64 u64
  | BadEnvelopeCbor cbor_envelope_error

definition new_draft :: "frame_kind \<Rightarrow> u32 \<Rightarrow> u64 \<Rightarrow> bytes \<Rightarrow> frame_header" where
  "new_draft kind env_len b_len ev =
     \<lparr>wire_major = WIRE_MAJOR, wire_minor = WIRE_MINOR, hdr_kind = kind_as_u8 kind,
      hdr_flags = FrameFlags 0, envelope_len = env_len, body_len = b_len, logical_len = b_len,
      writer_sequence = 0, event_id = ev\<rparr>"

definition known_kind :: "frame_header \<Rightarrow> frame_kind option" where
  "known_kind h = (case kind_from_u8 (hdr_kind h) of Inr k \<Rightarrow> Some k | Inl _ \<Rightarrow> None)"

definition write_prefix_fields :: "bytes \<Rightarrow> frame_header \<Rightarrow> bytes" where
  "write_prefix_fields prefix header =
     (let p = copy_at 0 START_MAGIC prefix;
          p = copy_at 8 [wire_major header] p;
          p = copy_at 9 [wire_minor header] p;
          p = copy_at 10 [hdr_kind header] p;
          p = copy_at 11 [flags_as_u8 (hdr_flags header)] p;
          p = copy_at 12 (to_le_bytes (envelope_len header)) p;
          p = copy_at 16 (to_le_bytes (body_len header)) p;
          p = copy_at 24 (to_le_bytes (logical_len header)) p;
          p = copy_at 32 (to_le_bytes (writer_sequence header)) p;
          p = copy_at 40 (event_id header) p
      in p)"

definition read_prefix_fields :: "bytes \<Rightarrow> frame_header" where
  "read_prefix_fields prefix =
     \<lparr>wire_major = prefix ! 8, wire_minor = prefix ! 9, hdr_kind = prefix ! 10,
      hdr_flags = FrameFlags (prefix ! 11),
      envelope_len = from_le_bytes (subslice 12 16 prefix),
      body_len = from_le_bytes (subslice 16 24 prefix),
      logical_len = from_le_bytes (subslice 24 32 prefix),
      writer_sequence = from_le_bytes (subslice 32 40 prefix),
      event_id = subslice 40 56 prefix\<rparr>"

definition HASH_CHUNK :: nat where "HASH_CHUNK = 16 * 1024"

function hash_chunks :: "'h integrity \<Rightarrow> bytes \<Rightarrow> nat \<Rightarrow> 'h \<Rightarrow> bytes \<Rightarrow> 'h \<times> bytes" where
  "hash_chunks I body offset hasher out =
     (if offset < length body then
        let end' = min (offset + HASH_CHUNK) (length body);
            chunk = subslice offset end' body
        in hash_chunks I body end' (hasher_update I hasher chunk) (out @ chunk)
      else (hasher, out))"
  by pat_completeness auto
termination
  by (relation "measure (\<lambda>(I, body, offset, _, _). length body - offset)")
    (auto simp: HASH_CHUNK_def)

definition append_body_hashed :: "'h integrity \<Rightarrow> bytes \<Rightarrow> bytes \<Rightarrow> bytes \<times> bytes" where
  "append_body_hashed I out body =
     (if diagnostic_skip_body_hash I then (out @ body, replicate BODY_HASH_LEN 0)
      else if body = [] then (out, body_hash I body)
      else let (hasher, out') = hash_chunks I body 0 (hasher_new I) out
           in (out', hasher_finalize I hasher))"

definition encode_frame_into ::
    "'h integrity \<Rightarrow> bytes \<Rightarrow> frame_header \<Rightarrow> bytes \<Rightarrow> bytes \<Rightarrow> frame_verify_error + bytes" where
  "encode_frame_into I out header envelope body =
     (if len_u32 envelope \<noteq> envelope_len header \<or> len_u64 body \<noteq> body_len header
      then Inl HeaderPayloadMismatch
      else if wire_major header \<noteq> WIRE_MAJOR then Inl (UnsupportedWireMajor (wire_major header))
      else and_then (map_err BadEnvelopeCbor (validate_deterministic_cbor_envelope envelope)) (\<lambda>_.
        and_then (ok_or (checked_frame_len (envelope_len header) (body_len header))
            LengthsOutOfLimits) (\<lambda>frame_len.
          let prefix = write_prefix_fields (replicate FRAME_PREFIX_LEN 0) header;
              pcrc = prefix_crc32c I prefix envelope;
              prefix = copy_at 56 (to_le_bytes pcrc) prefix;
              out = out @ prefix;
              out = out @ envelope;
              (out, hash) = append_body_hashed I out body;
              suffix = replicate FRAME_SUFFIX_LEN 0;
              suffix = copy_at 0 END_MAGIC suffix;
              suffix = copy_at 8 (to_le_bytes frame_len) suffix;
              suffix = copy_at 16 hash suffix;
              scrc = suffix_crc32c I suffix;
              suffix = copy_at 48 (to_le_bytes scrc) suffix
          in Inr (out @ suffix))))"

definition encode_frame :: "'h integrity \<Rightarrow> frame_parts \<Rightarrow> frame_verify_error + bytes" where
  "encode_frame I parts =
     and_then (ok_or (checked_frame_len (envelope_len (parts_header parts))
         (body_len (parts_header parts))) LengthsOutOfLimits) (\<lambda>frame_len.
       encode_frame_into I [] (parts_header parts) (parts_envelope parts) (parts_body parts))"

type_synonym verified_frame_views = "frame_header \<times> bytes \<times> bytes \<times> bytes \<times> u64"

definition verify_frame_at ::
    "'h integrity \<Rightarrow> bytes \<Rightarrow> safety_limits \<Rightarrow> frame_verify_error + verified_frame_views" where
  "verify_frame_at I bs limits =
     (if length bs < FRAME_PREFIX_LEN then Inl (Truncated FRAME_PREFIX_LEN (length bs))
      else let prefix = subslice 0 FRAME_PREFIX_LEN bs in
      if subslice 0 8 prefix \<noteq> START_MAGIC then Inl BadStartMagic
      else if prefix ! 8 \<noteq> WIRE_MAJOR then Inl (UnsupportedWireMajor (prefix ! 8))
      else let header = read_prefix_fields prefix in
      if \<not> accepts_lengths limits (envelope_len header) (body_len header)
      then Inl LengthsOutOfLimits
      else and_then (ok_or (checked_frame_len (envelope_len header) (body_len header))
          LengthsOutOfLimits) (\<lambda>frame_len.
        if length bs < unat frame_len then Inl (Truncated (unat frame_len) (length bs))
        else let env_end = FRAME_PREFIX_LEN + unat (envelope_len header);
                 body_end = env_end + unat (body_len header);
                 envelope = subslice FRAME_PREFIX_LEN env_end bs;
                 body = subslice env_end body_end bs;
                 suffix_bytes = subslice body_end (unat frame_len) bs
        in if prefix_crc32c I prefix envelope \<noteq> from_le_bytes (subslice 56 60 prefix)
        then Inl BadPrefixCrc
        else and_then (map_err BadEnvelopeCbor (validate_deterministic_cbor_envelope envelope)) (\<lambda>_.
          if subslice 0 8 suffix_bytes \<noteq> END_MAGIC then Inl BadEndMagic
          else if suffix_crc32c I suffix_bytes \<noteq> from_le_bytes (subslice 48 52 suffix_bytes)
          then Inl BadSuffixCrc
          else if from_le_bytes (subslice 8 16 suffix_bytes) \<noteq> frame_len
          then Inl (FrameLenMismatch (from_le_bytes (subslice 8 16 suffix_bytes)) frame_len)
          else if body_hash I body \<noteq> subslice 16 48 suffix_bytes then Inl BadBodyHash
          else Inr (header, envelope, body, body_hash I body, frame_len))))"

definition verify_frame_bytes ::
    "'h integrity \<Rightarrow> bytes \<Rightarrow> safety_limits \<Rightarrow> frame_verify_error + verified_frame_views" where
  "verify_frame_bytes I bs limits =
     and_then (verify_frame_at I bs limits) (\<lambda>(header, envelope, body, hash, frame_len).
       if len_u64 bs \<noteq> frame_len then Inl (TrailingBytes frame_len (len_u64 bs))
       else Inr (header, envelope, body, hash, frame_len))"

definition decode_frame ::
    "'h integrity \<Rightarrow> bytes \<Rightarrow> safety_limits \<Rightarrow> frame_verify_error + decoded_frame" where
  "decode_frame I bs limits =
     and_then (verify_frame_at I bs limits) (\<lambda>(header, envelope, body, hash, frame_len).
       if len_u64 bs \<noteq> frame_len then Inl (TrailingBytes frame_len (len_u64 bs))
       else Inr \<lparr>frm_header = header, frm_envelope = envelope, frm_body = body,
         frm_body_hash = hash, frm_len = frame_len\<rparr>)"

declare hash_chunks.simps [simp del]

section \<open>Byte layout\<close>

lemma length_copy_at [simp]:
  "i + length s \<le> length d \<Longrightarrow> length (copy_at i s d) = length d"
  by (simp add: copy_at_def)

lemma copy_at_0: "copy_at 0 s d = s @ drop (length s) d"
  by (simp add: copy_at_def)

lemma copy_at_append: "length xs \<le> i \<Longrightarrow> copy_at i s (xs @ ys) = xs @ copy_at (i - length xs) s ys"
  by (simp add: copy_at_def)

lemma copy_at_Cons:
  "copy_at (numeral n) s (x # ys) = x # copy_at (pred_numeral n) s ys"
  "copy_at (Suc k) s (x # ys) = x # copy_at k s ys"
  by (simp_all add: copy_at_def numeral_eq_Suc)

lemma subslice_Cons:
  "subslice (numeral i) (numeral j) (x # ys) = subslice (pred_numeral i) (pred_numeral j) ys"
  "subslice (Suc k) (numeral j) (x # ys) = subslice k (pred_numeral j) ys"
  "subslice 0 (numeral j) (x # ys) = x # subslice 0 (pred_numeral j) ys"
  by (simp_all add: subslice_def numeral_eq_Suc)

lemmas layout_simps = copy_at_0 copy_at_append copy_at_Cons subslice_Cons

lemma length_magic [simp]: "length START_MAGIC = 8" "length END_MAGIC = 8"
  by (simp_all add: START_MAGIC_def END_MAGIC_def)

definition header_bytes :: "frame_header \<Rightarrow> bytes" where
  "header_bytes h = START_MAGIC @ [wire_major h, wire_minor h, hdr_kind h, flags_as_u8 (hdr_flags h)]
     @ to_le_bytes (envelope_len h) @ to_le_bytes (body_len h) @ to_le_bytes (logical_len h)
     @ to_le_bytes (writer_sequence h) @ event_id h"

definition frame_prefix :: "'h integrity \<Rightarrow> frame_header \<Rightarrow> bytes \<Rightarrow> bytes \<Rightarrow> bytes" where
  "frame_prefix I h env r = header_bytes h
     @ to_le_bytes (crc32c_append I (crc32c I (header_bytes h @ replicate 4 0 @ r)) env) @ r"

definition frame_suffix :: "'h integrity \<Rightarrow> u64 \<Rightarrow> bytes \<Rightarrow> bytes \<Rightarrow> bytes" where
  "frame_suffix I n hash r = END_MAGIC @ to_le_bytes n @ hash
     @ to_le_bytes (crc32c I (END_MAGIC @ to_le_bytes n @ hash @ replicate 4 0 @ r)) @ r"

text \<open>The image of a frame, with the two reserved fields as arguments.\<close>

definition frame_image :: "'h integrity \<Rightarrow> frame_header \<Rightarrow> bytes \<Rightarrow> bytes \<Rightarrow> bytes \<Rightarrow> bytes \<Rightarrow> bytes" where
  "frame_image I h env body r s = frame_prefix I h env r @ env @ body
     @ frame_suffix I (120 + ucast (envelope_len h) + body_len h) (blake3_hash I body) s"

definition frame_lengths_ok :: "frame_header \<Rightarrow> bytes \<Rightarrow> bytes \<Rightarrow> bool" where
  "frame_lengths_ok h env body \<longleftrightarrow> unat (envelope_len h) = length env \<and> unat (body_len h) = length body
     \<and> length env + length body + 120 < 2 ^ 64 \<and> length (event_id h) = 16"

lemma length_header_bytes [simp]: "length (event_id h) = 16 \<Longrightarrow> length (header_bytes h) = 56"
  by (simp add: header_bytes_def)

lemma write_prefix_fields_eq:
  "length (event_id h) = 16 \<Longrightarrow>
     write_prefix_fields (replicate FRAME_PREFIX_LEN 0) h = header_bytes h @ replicate 8 0"
  by (simp add: write_prefix_fields_def header_bytes_def FRAME_PREFIX_LEN_def layout_simps)

lemma read_header_bytes:
  "length (event_id h) = 16 \<Longrightarrow> read_prefix_fields (header_bytes h @ w) = h"
  by (simp add: read_prefix_fields_def header_bytes_def layout_simps nth_append)

lemma subslice4: "i + 4 \<le> length p \<Longrightarrow> subslice i (i + 4) p = [p ! i, p ! (i + 1), p ! (i + 2), p ! (i + 3)]"
  by (rule nth_equalityI) (auto simp: subslice_def less_Suc_eq numeral_eq_Suc)

lemma read_prefix_split:
  assumes "length p = 64" and "subslice 0 8 p = START_MAGIC"
  shows "p = header_bytes (read_prefix_fields p) @ subslice 56 60 p @ subslice 60 64 p"
proof -
  have "p = subslice 0 8 p @ subslice 8 12 p @ subslice 12 16 p @ subslice 16 24 p
      @ subslice 24 32 p @ subslice 32 40 p @ subslice 40 56 p @ subslice 56 60 p @ subslice 60 64 p"
    using assms(1) by (simp add: subslice_join)
  moreover have "subslice 8 12 p = [p ! 8, p ! 9, p ! 10, p ! 11]"
    using subslice4 [of 8 p] assms(1) by simp
  ultimately show ?thesis using assms
    by (simp add: header_bytes_def read_prefix_fields_def to_from_le_bytes)
qed

section \<open>Lengths\<close>

lemma unat_frame_len:
  assumes "120 + unat (e :: u32) + unat (b :: u64) < 2 ^ 64"
  shows "unat (120 + ucast e + b :: u64) = 120 + unat e + unat b"
proof -
  have "unat (120 + ucast e :: u64) = 120 + unat e"
    using assms by (simp add: unat_add_lt unat_ucast_u64)
  with assms show ?thesis by (simp add: unat_add_lt)
qed

lemma checked_frame_len_iff:
  "checked_frame_len e b = Some n \<longleftrightarrow> unat n = 120 + unat e + unat b"
proof -
  have "unat e < 2 ^ 32" using unsigned_less [of e, where 'a = nat] by simp
  then have s: "checked_add 120 (ucast e :: u64) = Some (120 + ucast e)"
      "unat (120 + ucast e :: u64) = 120 + unat e"
    by (simp_all add: checked_add_def unat_ucast_u64 unat_add_lt)
  have "checked_frame_len e b = checked_add (120 + ucast e) b"
    using s(1) by (simp add: checked_frame_len_def checked_add_def [of 64])
  then show ?thesis by (simp add: checked_add_Some_iff s(2))
qed

lemma frame_len_exists:
  "120 + unat e + unat b < 2 ^ 64 \<Longrightarrow> \<exists>n. checked_frame_len e b = Some n"
  unfolding checked_frame_len_iff using unat_frame_len by blast

lemma checked_frame_len_Some:
  "checked_frame_len e b = Some n \<longleftrightarrow> 120 + unat e + unat b < 2 ^ 64 \<and> n = 120 + ucast e + b"
proof (cases "120 + unat e + unat b < 2 ^ 64")
  case True
  then show ?thesis by (auto simp: checked_frame_len_iff unat_frame_len word_unat_eq_iff)
next
  case False
  then show ?thesis
    unfolding checked_frame_len_iff using unsigned_less [of n, where 'a = nat] by auto
qed

lemma accepts_lengths_iff:
  "accepts_lengths l e b \<longleftrightarrow> e \<le> max_envelope_len l \<and> b \<le> max_body_len l
     \<and> 120 + unat e + unat b \<le> unat (max_frame_len l)"
proof (cases "checked_frame_len e b")
  case None
  then have "\<not> 120 + unat e + unat b < 2 ^ 64" using frame_len_exists by fastforce
  with None unsigned_less [of "max_frame_len l", where 'a = nat] show ?thesis
    by (auto simp: accepts_lengths_def)
next
  case (Some n)
  then have "unat n = 120 + unat e + unat b" by (simp add: checked_frame_len_iff)
  with Some show ?thesis by (auto simp: accepts_lengths_def word_le_nat_alt word_less_nat_alt)
qed

section \<open>Encoding\<close>

lemma hash_chunks_spec:
  "\<exists>cs. hash_chunks I body off h out = (foldl (hasher_update I) h cs, out @ drop off body)
     \<and> concat cs = drop off body"
proof (induction I body off h out rule: hash_chunks.induct)
  case (1 I body off h out)
  show ?case
  proof (cases "off < length body")
    case True
    let ?e = "min (off + HASH_CHUNK) (length body)"
    have split: "subslice off ?e body @ drop ?e body = drop off body"
      using subslice_join [of off ?e "length body" body] True by (simp add: subslice_def)
    from 1 [OF True refl refl] obtain cs where
      "hash_chunks I body ?e (hasher_update I h (subslice off ?e body)) (out @ subslice off ?e body)
         = (foldl (hasher_update I) (hasher_update I h (subslice off ?e body)) cs,
            (out @ subslice off ?e body) @ drop ?e body)" "concat cs = drop ?e body" by blast
    with True split show ?thesis
      by (intro exI [of _ "subslice off ?e body # cs"])
        (simp add: hash_chunks.simps [of I body off] Let_def)
  next
    case False
    then show ?thesis by (intro exI [of _ "[]"]) (simp add: hash_chunks.simps [of I body off])
  qed
qed

lemma append_body_hashed_spec:
  assumes "blake3_documented I" and "\<not> diagnostic_skip_body_hash I"
  shows "append_body_hashed I out body = (out @ body, blake3_hash I body)"
proof -
  obtain cs where "hash_chunks I body 0 (hasher_new I) out =
      (foldl (hasher_update I) (hasher_new I) cs, out @ body)" "concat cs = body"
    using hash_chunks_spec [of I body 0 "hasher_new I" out] by auto
  with assms show ?thesis by (auto simp: append_body_hashed_def body_hash_def blake3_documented_def)
qed

lemma unat_len_u32_iff: "length (env :: bytes) < 2 ^ 32 \<Longrightarrow> len_u32 env = e \<longleftrightarrow> unat e = length env"
  by (metis unat_len_u32 word_unat_eq_iff)

lemma frame_lengths_eqs:
  assumes "frame_lengths_ok h env body"
  shows "len_u32 env = envelope_len h" and "len_u64 body = body_len h"
    and "checked_frame_len (envelope_len h) (body_len h) = Some (120 + ucast (envelope_len h) + body_len h)"
    and "unat (120 + ucast (envelope_len h) + body_len h) = 120 + length env + length body"
    and "length (header_bytes h) = 56"
proof -
  from assms have e: "unat (envelope_len h) = length env" "unat (body_len h) = length body"
    and n: "120 + unat (envelope_len h) + unat (body_len h) < 2 ^ 64"
    by (simp_all add: frame_lengths_ok_def)
  show "len_u32 env = envelope_len h" "len_u64 body = body_len h"
    by (simp_all add: len_u32_def len_u64_def flip: e)
  show "checked_frame_len (envelope_len h) (body_len h) = Some (120 + ucast (envelope_len h) + body_len h)"
    using n by (simp add: checked_frame_len_Some)
  show "unat (120 + ucast (envelope_len h) + body_len h) = 120 + length env + length body"
    using unat_frame_len [OF n] e by simp
  show "length (header_bytes h) = 56" using assms by (simp add: frame_lengths_ok_def)
qed

lemma encode_frame_into_hash:
  assumes hash: "\<And>out. append_body_hashed I out body = (out @ body, hash)" "length hash = 32"
    and h: "frame_lengths_ok h env body" "wire_major h = WIRE_MAJOR"
    and v: "validate_deterministic_cbor_envelope env = Inr ()"
  shows "encode_frame_into I out h env body = Inr (out @ frame_prefix I h env (replicate 4 0) @ env @ body
    @ frame_suffix I (120 + ucast (envelope_len h) + body_len h) hash (replicate 4 0))"
proof -
  have ev: "length (event_id h) = 16" using h by (simp add: frame_lengths_ok_def)
  show ?thesis
    using h(2) v hash(2) frame_lengths_eqs [OF h(1)]
    by (simp add: encode_frame_into_def hash(1) frame_prefix_def frame_suffix_def
        write_prefix_fields_eq [OF ev] Let_def prefix_crc32c_def suffix_crc32c_def layout_simps
        FRAME_SUFFIX_LEN_def flip: replicate_add)
qed

lemma encode_frame_into_ok:
  assumes "blake3_documented I" and "\<not> diagnostic_skip_body_hash I"
    and "frame_lengths_ok h env body" and "wire_major h = WIRE_MAJOR"
    and "validate_deterministic_cbor_envelope env = Inr ()"
  shows "encode_frame_into I out h env body =
    Inr (out @ frame_image I h env body (replicate 4 0) (replicate 4 0))"
  unfolding frame_image_def
  using assms append_body_hashed_spec [OF assms(1,2)]
  by (intro encode_frame_into_hash) (simp_all add: blake3_documented_def BODY_HASH_LEN_def)

lemma encode_frame_ok:
  assumes "blake3_documented I" and "\<not> diagnostic_skip_body_hash I"
    and "frame_lengths_ok (parts_header p) (parts_envelope p) (parts_body p)"
    and "wire_major (parts_header p) = WIRE_MAJOR"
    and "validate_deterministic_cbor_envelope (parts_envelope p) = Inr ()"
  shows "encode_frame I p = Inr (frame_image I (parts_header p) (parts_envelope p) (parts_body p)
    (replicate 4 0) (replicate 4 0))"
  using encode_frame_into_ok [OF assms, of "[]"] frame_lengths_eqs(3) [OF assms(3)]
  by (simp add: encode_frame_def)

section \<open>Verification\<close>

lemma prefix_fields:
  assumes "length (event_id h) = 16" and "length r = 4"
  shows "length (frame_prefix I h env r) = 64"
    and "subslice 0 8 (frame_prefix I h env r) = START_MAGIC"
    and "frame_prefix I h env r ! 8 = wire_major h"
    and "read_prefix_fields (frame_prefix I h env r) = h"
    and "from_le_bytes (subslice 56 60 (frame_prefix I h env r))
      = prefix_crc32c I (frame_prefix I h env r) env"
  using assms
  by (simp_all add: frame_prefix_def read_header_bytes prefix_crc32c_def layout_simps Let_def)
    (simp_all add: header_bytes_def layout_simps nth_append)

lemma suffix_fields:
  assumes "length hash = 32" and "length s = 4"
  shows "length (frame_suffix I n hash s) = 56"
    and "subslice 0 8 (frame_suffix I n hash s) = END_MAGIC"
    and "from_le_bytes (subslice 8 16 (frame_suffix I n hash s)) = n"
    and "subslice 16 48 (frame_suffix I n hash s) = hash"
    and "from_le_bytes (subslice 48 52 (frame_suffix I n hash s))
      = suffix_crc32c I (frame_suffix I n hash s)"
  using assms by (simp_all add: frame_suffix_def suffix_crc32c_def layout_simps)

lemma documented_hash_len: "blake3_documented I \<Longrightarrow> length (blake3_hash I body) = 32"
  by (simp add: blake3_documented_def BODY_HASH_LEN_def)

lemma length_frame_image:
  assumes "length (blake3_hash I body) = 32" and "frame_lengths_ok h env body" and "length r = 4" and "length s = 4"
  shows "length (frame_image I h env body r s) = 120 + length env + length body"
  using assms
  by (simp add: frame_image_def frame_lengths_ok_def prefix_fields(1) suffix_fields(1))

lemma verify_frame_stored_hash:
  assumes h: "frame_lengths_ok h env body" "wire_major h = WIRE_MAJOR"
    and v: "validate_deterministic_cbor_envelope env = Inr ()"
    and l: "accepts_lengths limits (envelope_len h) (body_len h)"
    and len: "length hash = 32" "length r = 4" "length s = 4"
    and n: "n = 120 + ucast (envelope_len h) + body_len h"
  shows "verify_frame_at I (frame_prefix I h env r @ env @ body @ frame_suffix I n hash s @ rest) limits =
    (if blake3_hash I body = hash then Inr (h, env, body, hash, n) else Inl BadBodyHash)"
proof -
  define bs where "bs = frame_prefix I h env r @ env @ body @ frame_suffix I n hash s @ rest"
  have ev: "length (event_id h) = 16" and e: "unat (envelope_len h) = length env"
      "unat (body_len h) = length body" using h(1) by (simp_all add: frame_lengths_ok_def)
  note eqs = frame_lengths_eqs [OF h(1), folded n]
  note P = prefix_fields [OF ev len(2), of I env] and S = suffix_fields [OF len(1,3), of I n]
  have "subslice 0 FRAME_PREFIX_LEN bs = frame_prefix I h env r"
      "subslice FRAME_PREFIX_LEN (FRAME_PREFIX_LEN + length env) bs = env"
      "subslice (FRAME_PREFIX_LEN + length env) (FRAME_PREFIX_LEN + length env + length body) bs = body"
      "subslice (FRAME_PREFIX_LEN + length env + length body) (unat n) bs = frame_suffix I n hash s"
      "\<not> length bs < FRAME_PREFIX_LEN" "\<not> length bs < unat n"
    using P(1) S(1) eqs(4) by (simp_all add: FRAME_PREFIX_LEN_def bs_def)
  then show ?thesis unfolding bs_def [symmetric]
    using P(2-5) S(2-5) v l h(2) e eqs(3) by (simp add: verify_frame_at_def body_hash_def)
qed

lemma verify_frame_image:
  assumes I: "length (blake3_hash I body) = 32"
    and h: "frame_lengths_ok h env body" "wire_major h = WIRE_MAJOR"
    and v: "validate_deterministic_cbor_envelope env = Inr ()"
    and l: "accepts_lengths limits (envelope_len h) (body_len h)"
    and r: "length r = 4" and s: "length s = 4"
  shows "verify_frame_at I (frame_image I h env body r s @ rest) limits =
    Inr (h, env, body, blake3_hash I body, 120 + ucast (envelope_len h) + body_len h)"
  using verify_frame_stored_hash [OF h v l _ r s refl, of "blake3_hash I body" I rest] I
  by (simp add: frame_image_def)

lemma suffix_split:
  assumes "length S = 56" and "subslice 0 8 S = END_MAGIC"
    and "suffix_crc32c I S = from_le_bytes (subslice 48 52 S)"
    and "from_le_bytes (subslice 8 16 S) = n" and "subslice 16 48 S = hash"
  shows "S = frame_suffix I n hash (subslice 52 56 S)"
proof -
  define m l k a r where parts: "m = subslice 0 8 S" "l = subslice 8 16 S" "k = subslice 16 48 S"
    "a = subslice 48 52 S" "r = subslice 52 56 S"
  have S: "S = m @ l @ k @ a @ r"
    unfolding parts using assms(1) by (simp add: subslice_join)
  have len: "length m = 8" "length l = 8" "length k = 32" "length a = 4" "length r = 4"
    unfolding parts using assms(1) by simp_all
  have "to_le_bytes n = l" "m = END_MAGIC" "hash = k"
    using assms(2,4,5) len(2) by (auto simp: to_from_le_bytes simp flip: parts)
  moreover have "a = to_le_bytes (crc32c I (m @ l @ k @ replicate 4 0 @ r))"
    using assms(3) len unfolding parts(4) [symmetric]
    by (simp add: S suffix_crc32c_def layout_simps to_from_le_bytes)
  ultimately have "frame_suffix I n hash r = m @ l @ k @ a @ r" by (simp add: frame_suffix_def)
  then have "frame_suffix I n hash r = S" by (simp only: S [symmetric])
  then show ?thesis unfolding parts(5) by (rule sym)
qed

lemma prefix_split:
  assumes "length P = 64" and "subslice 0 8 P = START_MAGIC"
    and "prefix_crc32c I P env = from_le_bytes (subslice 56 60 P)"
  shows "P = frame_prefix I (read_prefix_fields P) env (subslice 60 64 P)"
proof -
  define h a r where parts: "h = header_bytes (read_prefix_fields P)" "a = subslice 56 60 P"
    "r = subslice 60 64 P"
  have P: "P = h @ a @ r" unfolding parts using assms(1,2) by (rule read_prefix_split)
  have len: "length h = 56" "length a = 4" "length r = 4"
    unfolding parts using assms(1) by (simp_all add: read_prefix_fields_def)
  have "a = to_le_bytes (crc32c_append I (crc32c I (h @ replicate 4 0 @ r)) env)"
    using assms(3) len unfolding parts(2) [symmetric]
    by (simp add: P prefix_crc32c_def layout_simps to_from_le_bytes)
  then have "frame_prefix I (read_prefix_fields P) env r = h @ a @ r"
    by (simp add: frame_prefix_def flip: parts)
  then have "frame_prefix I (read_prefix_fields P) env r = P" by (simp only: P [symmetric])
  then show ?thesis unfolding parts(3) by (rule sym)
qed

lemma verify_frame_sound:
  assumes "verify_frame_at I bs limits = Inr (h, env, body, hash, n)"
  obtains r s rest where "bs = frame_image I h env body r s @ rest"
    and "length r = 4" and "length s = 4" and "frame_lengths_ok h env body"
    and "wire_major h = WIRE_MAJOR" and "validate_deterministic_cbor_envelope env = Inr ()"
    and "accepts_lengths limits (envelope_len h) (body_len h)"
    and "hash = blake3_hash I body" and "n = 120 + ucast (envelope_len h) + body_len h"
    and "unat n \<le> length bs" and "r = subslice 60 64 bs" and "s = subslice (unat n - 4) (unat n) bs"
    and "length (blake3_hash I body) = 32"
proof -
  define P where "P = subslice 0 FRAME_PREFIX_LEN bs"
  define S where "S = subslice (FRAME_PREFIX_LEN + unat (envelope_len h) + unat (body_len h)) (unat n) bs"
  from assms have P: "FRAME_PREFIX_LEN \<le> length bs" "subslice 0 8 P = START_MAGIC" "P ! 8 = WIRE_MAJOR"
      and h: "h = read_prefix_fields P" and l: "accepts_lengths limits (envelope_len h) (body_len h)"
      and n: "checked_frame_len (envelope_len h) (body_len h) = Some n" "unat n \<le> length bs"
      and env: "env = subslice FRAME_PREFIX_LEN (FRAME_PREFIX_LEN + unat (envelope_len h)) bs"
      and body: "body = subslice (FRAME_PREFIX_LEN + unat (envelope_len h))
         (FRAME_PREFIX_LEN + unat (envelope_len h) + unat (body_len h)) bs"
      and pcrc: "prefix_crc32c I P env = from_le_bytes (subslice 56 60 P)"
      and v: "validate_deterministic_cbor_envelope env = Inr ()"
      and S: "subslice 0 8 S = END_MAGIC" "suffix_crc32c I S = from_le_bytes (subslice 48 52 S)"
        "from_le_bytes (subslice 8 16 S) = n" "subslice 16 48 S = hash"
      and hash: "hash = blake3_hash I body"
    unfolding P_def S_def
    by (auto simp: verify_frame_at_def Let_def result_simps body_hash_def not_less split: if_splits)
  have lP: "length P = 64" using P(1) by (simp add: P_def FRAME_PREFIX_LEN_def)
  have un: "unat n = 120 + unat (envelope_len h) + unat (body_len h)"
    using n(1) by (simp add: checked_frame_len_iff)
  then have lS: "length S = 56" and le: "length env = unat (envelope_len h)" "length body = unat (body_len h)"
    using n(2) by (simp_all add: S_def env body FRAME_PREFIX_LEN_def)
  have ok: "frame_lengths_ok h env body"
    using lP le un unsigned_less [of n, where 'a = nat] h
    by (simp add: frame_lengths_ok_def read_prefix_fields_def)
  have nn: "n = 120 + ucast (envelope_len h) + body_len h" using n(1) by (simp add: checked_frame_len_Some)
  define r s where rs: "r = subslice 60 64 P" "s = subslice 52 56 S"
  have "bs = P @ env @ body @ S @ drop (unat n) bs"
  proof -
    have "P @ env @ body @ S = subslice 0 (unat n) bs"
      unfolding P_def env body S_def using un by (simp add: subslice_join FRAME_PREFIX_LEN_def)
    then show ?thesis by (metis append_assoc append_take_drop_id diff_zero drop0 subslice_def)
  qed
  moreover have "P = frame_prefix I h env r" unfolding h rs by (rule prefix_split [OF lP P(2) pcrc])
  moreover have "S = frame_suffix I n hash s" unfolding rs by (rule suffix_split [OF lS S])
  ultimately have "bs = frame_image I h env body r s @ drop (unat n) bs"
    unfolding frame_image_def hash nn by simp
  moreover have "r = subslice 60 64 bs" unfolding rs P_def by (simp add: subslice_prefix FRAME_PREFIX_LEN_def)
  moreover have "s = subslice (unat n - 4) (unat n) bs"
    unfolding rs S_def using n(2) un
    by (simp add: subslice_def drop_take FRAME_PREFIX_LEN_def algebra_simps)
  moreover have "length r = 4" "length s = 4" using lP lS by (simp_all add: rs)
  moreover have "wire_major h = WIRE_MAJOR" using h P(3) by (simp add: read_prefix_fields_def)
  moreover have "length (blake3_hash I body) = 32" using S(4) lS by (auto simp flip: hash)
  ultimately show ?thesis using that [OF _ _ _ ok _ v l hash nn n(2)] by blast
qed

lemma verify_frame_prefix:
  assumes "verify_frame_at I bs limits = Inr (h, env, body, hash, n)"
  shows "verify_frame_at I (take (unat n) bs @ rest) limits = Inr (h, env, body, hash, n)"
  using assms
proof (rule verify_frame_sound)
  fix r s rest'
  assume bs: "bs = frame_image I h env body r s @ rest'" and rs: "length r = 4" "length s = 4"
    and ok: "frame_lengths_ok h env body" "wire_major h = WIRE_MAJOR"
      "validate_deterministic_cbor_envelope env = Inr ()"
      "accepts_lengths limits (envelope_len h) (body_len h)" and hash: "hash = blake3_hash I body"
    and n: "n = 120 + ucast (envelope_len h) + body_len h"
    and len: "length (blake3_hash I body) = 32"
  have "take (unat n) bs = frame_image I h env body r s"
    using length_frame_image [OF len ok(1) rs] frame_lengths_eqs(4) [OF ok(1)] n bs by simp
  then show ?thesis using verify_frame_image [OF len ok rs] hash n by simp
qed

lemma verify_frame_len:
  assumes "verify_frame_at I bs limits = Inr (h, env, body, hash, n)"
  shows "120 \<le> unat n" and "unat n \<le> length bs" and "take 8 bs = START_MAGIC"
proof -
  show "120 \<le> unat n" "unat n \<le> length bs"
    using assms by (rule verify_frame_sound, simp add: frame_lengths_eqs(4))+
  show "take 8 bs = START_MAGIC"
    using assms
  proof (rule verify_frame_sound)
    fix r s rest assume "bs = frame_image I h env body r s @ rest"
    then show ?thesis by (simp add: frame_image_def frame_prefix_def header_bytes_def)
  qed
qed

lemma image_reserved:
  assumes "length (blake3_hash I body) = 32" and "frame_lengths_ok h env body" and "length r = 4" and "length s = 4"
    and "unat n = 120 + length env + length body"
  shows "subslice 60 64 (frame_image I h env body r s) = r"
    and "subslice (unat n - 4) (unat n) (frame_image I h env body r s) = s"
proof -
  have "length (event_id h) = 16" using assms by (simp add: frame_lengths_ok_def)
  then show "subslice 60 64 (frame_image I h env body r s) = r"
      "subslice (unat n - 4) (unat n) (frame_image I h env body r s) = s"
    using assms by (simp_all add: frame_image_def frame_prefix_def frame_suffix_def)
qed

section \<open>A sample frame\<close>

text \<open>Concrete functions with the documented behaviour, and one small frame, for the witnesses.\<close>

definition sample_integrity :: "bytes integrity" where
  "sample_integrity = \<lparr>crc32c = (\<lambda>b. ucast (fold (XOR) b 0)),
     crc32c_append = (\<lambda>c b. c XOR ucast (fold (XOR) b 0)),
     blake3_hash = (\<lambda>b. take 32 (b @ replicate 32 0)), hasher_new = [], hasher_update = (@),
     hasher_finalize = (\<lambda>b. take 32 (b @ replicate 32 0)), diagnostic_skip_body_hash = False\<rparr>"

lemma sample_documented: "blake3_documented sample_integrity"
proof -
  have "foldl (@) a cs = a @ concat cs" for a :: bytes and cs
    by (induction cs arbitrary: a) auto
  moreover have "min (length b) 32 + (32 - length b) = 32" for b :: bytes by simp
  ultimately show ?thesis
    by (simp add: blake3_documented_def sample_integrity_def BODY_HASH_LEN_def)
qed

lemma sample_no_skip: "\<not> diagnostic_skip_body_hash sample_integrity"
  by (simp add: sample_integrity_def)

definition sample_header :: frame_header where
  "sample_header = new_draft ItemEvent 1 3 (replicate 16 7)"

lemma sample_ok:
  "frame_lengths_ok sample_header EMPTY_ENVELOPE [1, 2, 3]" "wire_major sample_header = WIRE_MAJOR"
  "validate_deterministic_cbor_envelope EMPTY_ENVELOPE = Inr ()"
  "accepts_lengths draft_defaults (envelope_len sample_header) (body_len sample_header)"
proof -
  show "frame_lengths_ok sample_header EMPTY_ENVELOPE [1, 2, 3]" "wire_major sample_header = WIRE_MAJOR"
    by (simp_all add: sample_header_def new_draft_def frame_lengths_ok_def EMPTY_ENVELOPE_def)
  show "validate_deterministic_cbor_envelope EMPTY_ENVELOPE = Inr ()" by code_simp
  show "accepts_lengths draft_defaults (envelope_len sample_header) (body_len sample_header)"
    by (simp add: sample_header_def new_draft_def accepts_lengths_iff draft_defaults_def)
qed

definition sample_frame :: "bytes \<Rightarrow> bytes" where
  "sample_frame body = frame_image sample_integrity sample_header EMPTY_ENVELOPE body
     (replicate 4 0) (replicate 4 0)"

lemma sample_verifies:
  "verify_frame_at sample_integrity (sample_frame [1, 2, 3] @ rest) draft_defaults =
     Inr (sample_header, EMPTY_ENVELOPE, [1, 2, 3], [1, 2, 3] @ replicate 29 0, 124)"
proof -
  have "blake3_hash sample_integrity [1, 2, 3] = [1, 2, 3] @ replicate 29 0"
    by (simp add: sample_integrity_def)
  moreover have "120 + ucast (envelope_len sample_header) + body_len sample_header = (124 :: u64)"
    by (simp add: sample_header_def new_draft_def)
  ultimately show ?thesis unfolding sample_frame_def
    by (subst verify_frame_image [OF documented_hash_len [OF sample_documented] sample_ok]) simp_all
qed

section \<open>Properties\<close>

text \<open>C14: a frame round trip. Parts whose header states the lengths of a valid envelope and of
  the body, within the limits, encode; the decoder returns header, envelope and body unchanged
  with the digest of the body and the length of the frame; and the verifier finds the same
  frame when any other bytes follow it.\<close>

theorem frame_roundtrip:
  assumes "blake3_documented I" and "\<not> diagnostic_skip_body_hash I"
    and "frame_lengths_ok h env body" and "wire_major h = WIRE_MAJOR"
    and "validate_deterministic_cbor_envelope env = Inr ()"
    and "accepts_lengths limits (envelope_len h) (body_len h)"
  shows "\<exists>bs. encode_frame I \<lparr>parts_header = h, parts_envelope = env, parts_body = body\<rparr> = Inr bs
    \<and> decode_frame I bs limits = Inr \<lparr>frm_header = h, frm_envelope = env, frm_body = body,
        frm_body_hash = blake3_hash I body, frm_len = len_u64 bs\<rparr>
    \<and> (\<forall>rest. verify_frame_at I (bs @ rest) limits
          = Inr (h, env, body, blake3_hash I body, len_u64 bs))"
proof -
  let ?bs = "frame_image I h env body (replicate 4 0) (replicate 4 0)"
  let ?n = "120 + ucast (envelope_len h) + body_len h :: u64"
  have "length ?bs = unat ?n"
    using length_frame_image [OF documented_hash_len [OF assms(1)] assms(3)] frame_lengths_eqs(4) [OF assms(3)] by simp
  then have n: "len_u64 ?bs = ?n" by (rule len_u64_unat)
  have v: "verify_frame_at I (?bs @ rest) limits = Inr (h, env, body, blake3_hash I body, ?n)" for rest
    using assms by (intro verify_frame_image) (simp_all add: documented_hash_len)
  have "encode_frame I \<lparr>parts_header = h, parts_envelope = env, parts_body = body\<rparr> = Inr ?bs"
    using assms by (simp add: encode_frame_ok)
  with v v [of "[]"] n show ?thesis by (simp add: decode_frame_def)
qed

theorem frame_roundtrip_witness:
  "\<exists>bs. encode_frame sample_integrity \<lparr>parts_header = sample_header,
        parts_envelope = EMPTY_ENVELOPE, parts_body = [1, 2, 3]\<rparr> = Inr bs
    \<and> decode_frame sample_integrity bs draft_defaults = Inr \<lparr>frm_header = sample_header,
        frm_envelope = EMPTY_ENVELOPE, frm_body = [1, 2, 3],
        frm_body_hash = blake3_hash sample_integrity [1, 2, 3], frm_len = len_u64 bs\<rparr>"
  using frame_roundtrip [OF sample_documented sample_no_skip sample_ok] by blast


text \<open>C15: what the verifier accepts is what the encoder writes. Every accepted frame
  re-encodes, from the parts the verifier returned, to as many bytes as the frame occupies,
  and to exactly those bytes if and only if the two reserved fields are zero.\<close>

theorem verified_frame_reencodes:
  assumes "blake3_documented I" and "\<not> diagnostic_skip_body_hash I"
    and "verify_frame_at I bs limits = Inr (h, env, body, hash, n)"
  shows "\<exists>fb. encode_frame I \<lparr>parts_header = h, parts_envelope = env, parts_body = body\<rparr> = Inr fb
    \<and> length fb = unat n \<and> unat n \<le> length bs
    \<and> (take (unat n) bs = fb \<longleftrightarrow> subslice 60 64 bs = replicate 4 0
          \<and> subslice (unat n - 4) (unat n) bs = replicate 4 0)"
  using assms(3)
proof (rule verify_frame_sound)
  fix r s rest
  assume bs: "bs = frame_image I h env body r s @ rest" and rs: "length r = 4" "length s = 4"
    and ok: "frame_lengths_ok h env body" "wire_major h = WIRE_MAJOR"
      "validate_deterministic_cbor_envelope env = Inr ()"
    and n: "n = 120 + ucast (envelope_len h) + body_len h" "unat n \<le> length bs"
    and sub: "r = subslice 60 64 bs" "s = subslice (unat n - 4) (unat n) bs"
    and hash: "length (blake3_hash I body) = 32"
  let ?z = "replicate 4 0 :: bytes"
  have un: "unat n = 120 + length env + length body"
    using frame_lengths_eqs(4) [OF ok(1)] n(1) by simp
  have "take (unat n) bs = frame_image I h env body r s"
    using length_frame_image [OF hash ok(1) rs] un bs by simp
  moreover have "frame_image I h env body r s = frame_image I h env body ?z ?z \<longleftrightarrow> r = ?z \<and> s = ?z"
    using image_reserved [OF hash ok(1) rs un] image_reserved [OF hash ok(1) _ _ un, of ?z ?z]
    by (metis length_replicate)
  moreover have "length (frame_image I h env body ?z ?z) = unat n"
    using length_frame_image [OF hash ok(1), of ?z ?z] un by simp
  ultimately show ?thesis
    using encode_frame_ok [OF assms(1,2), of "\<lparr>parts_header = h, parts_envelope = env, parts_body = body\<rparr>"]
      ok n(2) sub by simp
qed

theorem verified_frame_reencodes_witness:
  "\<exists>fb. encode_frame sample_integrity \<lparr>parts_header = sample_header,
        parts_envelope = EMPTY_ENVELOPE, parts_body = [1, 2, 3]\<rparr> = Inr fb
    \<and> length fb = 124"
  using verified_frame_reencodes [OF sample_documented sample_no_skip sample_verifies [of "[9]"]]
  by auto


text \<open>Frames are self-delimiting. Whatever follows an accepted frame, and whatever replaces
  it, the verifier returns the same header, envelope, body, digest and length.\<close>

lemma verify_ignores_following_bytes:
  assumes "verify_frame_at I bs limits = Inr (h, env, body, hash, n)"
  shows "verify_frame_at I (take (unat n) bs @ rest) limits = Inr (h, env, body, hash, n)"
  using assms by (rule verify_frame_prefix)

text \<open>C16: a body cannot be exchanged unnoticed. If a frame and the same frame with another
  body of the same length, under the unchanged prefix, envelope and suffix, both verify, the
  two bodies have the same BLAKE3 digest.\<close>

theorem body_substitution_needs_collision:
  assumes "verify_frame_at I (p @ env @ body @ s) limits = Inr (h, env, body, hash, n)"
    and "verify_frame_at I (p @ env @ body' @ s) limits = Inr (h', env, body', hash', n')"
    and "length p = FRAME_PREFIX_LEN" and "length s = FRAME_SUFFIX_LEN" and "length body = length body'"
  shows "h' = h \<and> n' = n \<and> blake3_hash I body = blake3_hash I body'"
proof -
  let ?b1 = "p @ env @ body @ s" and ?b2 = "p @ env @ body' @ s"
  from assms(1) have h: "h = read_prefix_fields p"
    and n: "checked_frame_len (envelope_len h) (body_len h) = Some n"
    and hash: "blake3_hash I body = subslice 16 48 (subslice (FRAME_PREFIX_LEN + unat (envelope_len h)
      + unat (body_len h)) (unat n) ?b1)"
    using assms(3)
    by (auto simp: verify_frame_at_def Let_def result_simps body_hash_def split: if_splits)
  from assms(2) have h': "h' = read_prefix_fields p"
    and n': "checked_frame_len (envelope_len h') (body_len h') = Some n'"
    and hash': "blake3_hash I body' = subslice 16 48 (subslice (FRAME_PREFIX_LEN + unat (envelope_len h')
      + unat (body_len h')) (unat n') ?b2)"
    using assms(3)
    by (auto simp: verify_frame_at_def Let_def result_simps body_hash_def split: if_splits)
  have "length env = unat (envelope_len h)" "length body = unat (body_len h)"
    using assms(1) by (auto elim!: verify_frame_sound simp: frame_lengths_ok_def)
  then show ?thesis using h h' n n' hash hash' assms(3-5) by simp
qed

theorem body_substitution_needs_collision_witness:
  "\<exists>p s. \<exists>h hash n.
     verify_frame_at sample_integrity (p @ EMPTY_ENVELOPE @ replicate 33 1 @ s) draft_defaults
       = Inr (h, EMPTY_ENVELOPE, replicate 33 1, hash, n)
     \<and> verify_frame_at sample_integrity (p @ EMPTY_ENVELOPE @ (replicate 32 1 @ [2]) @ s) draft_defaults
       = Inr (h, EMPTY_ENVELOPE, replicate 32 1 @ [2], hash, n)
     \<and> blake3_hash sample_integrity (replicate 33 1)
       = blake3_hash sample_integrity (replicate 32 1 @ [2])"
proof -
  let ?h = "new_draft ItemEvent 1 33 (replicate 16 7)" and ?z = "replicate 4 0 :: bytes"
  let ?p = "frame_prefix sample_integrity ?h EMPTY_ENVELOPE ?z"
  let ?n = "120 + ucast (envelope_len ?h) + body_len ?h :: u64" and ?hash = "replicate 32 1 :: bytes"
  let ?s = "frame_suffix sample_integrity ?n ?hash ?z"
  have ok: "frame_lengths_ok ?h EMPTY_ENVELOPE b" "wire_major ?h = WIRE_MAJOR"
      "accepts_lengths draft_defaults (envelope_len ?h) (body_len ?h)" if "length b = 33" for b
    using that
    by (simp_all add: new_draft_def frame_lengths_ok_def EMPTY_ENVELOPE_def accepts_lengths_iff
        draft_defaults_def)
  have v: "verify_frame_at sample_integrity (?p @ EMPTY_ENVELOPE @ b @ ?s) draft_defaults
      = Inr (?h, EMPTY_ENVELOPE, b, ?hash, ?n)" if "length b = 33" "take 32 b = ?hash" for b
    using that verify_frame_stored_hash [OF ok(1,2) sample_ok(3) ok(3) _ _ _ refl, of b b b ?hash ?z ?z
        sample_integrity "[]"]
    by (simp add: sample_integrity_def)
  have a: "length (replicate 33 1 :: bytes) = 33" "take 32 (replicate 33 1) = ?hash"
    and b: "length (replicate 32 1 @ [2] :: bytes) = 33" "take 32 (replicate 32 1 @ [2]) = ?hash"
    by (simp_all add:)
  have "length ?p = FRAME_PREFIX_LEN" "length ?s = FRAME_SUFFIX_LEN"
    by (simp_all add: prefix_fields(1) suffix_fields(1) new_draft_def FRAME_PREFIX_LEN_def
        FRAME_SUFFIX_LEN_def)
  from body_substitution_needs_collision [OF v [OF a] v [OF b] this]
  have "blake3_hash sample_integrity (replicate 33 1)
       = blake3_hash sample_integrity (replicate 32 1 @ [2])" by simp
  with v [OF a] v [OF b] show ?thesis by (intro exI conjI)
qed

text \<open>The diagnostic switch that skips BLAKE3 cannot leak unverified frames: whatever is
  encoded under it fails verification with \<open>BadBodyHash\<close>, unless the digest of the body happens
  to be all zero.\<close>

lemma diagnostic_frames_fail_verify:
  assumes "diagnostic_skip_body_hash I" and "frame_lengths_ok h env body"
    and "accepts_lengths limits (envelope_len h) (body_len h)"
    and "encode_frame I \<lparr>parts_header = h, parts_envelope = env, parts_body = body\<rparr> = Inr bs"
    and "blake3_hash I body \<noteq> replicate BODY_HASH_LEN 0"
  shows "verify_frame_at I bs limits = Inl BadBodyHash"
proof -
  let ?n = "120 + ucast (envelope_len h) + body_len h"
  note len = frame_lengths_eqs [OF assms(2)]
  have ev: "length (event_id h) = 16" using assms(2) by (simp add: frame_lengths_ok_def)
  have m: "wire_major h = WIRE_MAJOR" and v: "validate_deterministic_cbor_envelope env = Inr ()"
    using assms(4) by (auto simp: encode_frame_def encode_frame_into_def result_simps split: if_splits)
  have "bs = frame_prefix I h env (replicate 4 0) @ env @ body
      @ frame_suffix I ?n (replicate 32 0) (replicate 4 0)"
    using assms(1,4) len(3) encode_frame_into_hash [OF _ _ assms(2) m v, of I "replicate 32 0" "[]"]
    by (simp add: encode_frame_def append_body_hashed_def BODY_HASH_LEN_def)
  then show ?thesis
    using verify_frame_stored_hash [OF assms(2) m v assms(3) _ _ _ refl, of "replicate 32 0"
        "replicate 4 0" "replicate 4 0" I "[]"] assms(5) by (simp add: BODY_HASH_LEN_def)
qed

text \<open>C17: the length check is exact. The limits accept a pair of declared lengths exactly when
  each is within its bound and the frame they add up to, computed without wrap-around, is within
  the bound on frames.\<close>

theorem accepts_lengths_exact:
  "accepts_lengths l e b \<longleftrightarrow> e \<le> max_envelope_len l \<and> b \<le> max_body_len l
     \<and> 120 + unat e + unat b \<le> unat (max_frame_len l)"
  by (rule accepts_lengths_iff)

end
