(* ===== verification/Scan.thy ===== *)
theory Scan
  imports Frame
begin

text \<open>
  Salvage scanning, \<^verbatim>\<open>crates/residiuum-format/src/scan.rs\<close>: the forward scan that resumes one
  byte after a failed candidate, and the reverse scan that starts from suffixes.

  Offsets are natural numbers: they never exceed the length of the scanned slice, so the
  casts between \<^verbatim>\<open>usize\<close> and \<^verbatim>\<open>u64\<close> in the sources are the identity. Both loops are total
  functions; the forward one advances because an accepted frame has at least 120 bytes, the
  reverse one because each round ends left of the magic it found.
\<close>

section \<open>Data\<close>

record byte_range =
  rng_start :: nat
  rng_end :: nat

definition range_new :: "nat \<Rightarrow> nat \<Rightarrow> byte_range" where
  "range_new s e = \<lparr>rng_start = s, rng_end = e\<rparr>"

definition range_len :: "byte_range \<Rightarrow> nat" where
  "range_len r = rng_end r - rng_start r"

definition range_is_empty :: "byte_range \<Rightarrow> bool" where
  "range_is_empty r \<longleftrightarrow> rng_end r \<le> rng_start r"

datatype hole_reason =
    UnclassifiedGarbage
  | CorruptCandidate nat frame_verify_error
  | DamagedCandidate nat frame_verify_error

datatype scan_region =
    VerifiedFrame (region_range: byte_range) decoded_frame
  | Hole (region_range: byte_range) hole_reason

fun is_verified :: "scan_region \<Rightarrow> bool" where
  "is_verified (VerifiedFrame _ _) = True"
| "is_verified (Hole _ _) = False"

record scan_report =
  source_len :: nat
  scan_limits :: safety_limits
  regions :: "scan_region list"

fun verified_of :: "scan_region \<Rightarrow> (nat \<times> decoded_frame) option" where
  "verified_of (VerifiedFrame rg frame) = Some (rng_start rg, frame)"
| "verified_of (Hole _ _) = None"

fun hole_of :: "scan_region \<Rightarrow> (byte_range \<times> hole_reason) option" where
  "hole_of (Hole rg reason) = Some (rg, reason)"
| "hole_of (VerifiedFrame _ _) = None"

definition verified_frames :: "scan_report \<Rightarrow> (nat \<times> decoded_frame) list" where
  "verified_frames r = List.map_filter verified_of (regions r)"

definition verified_count :: "scan_report \<Rightarrow> nat" where
  "verified_count r = length (verified_frames r)"

definition scan_holes :: "scan_report \<Rightarrow> (byte_range \<times> hole_reason) list" where
  "scan_holes r = List.map_filter hole_of (regions r)"

section \<open>Searching for magics\<close>

definition windows :: "nat \<Rightarrow> 'a list \<Rightarrow> 'a list list" where
  "windows k xs = map (\<lambda>i. subslice i (i + k) xs) [0..<length xs + 1 - k]"

fun position :: "('a \<Rightarrow> bool) \<Rightarrow> 'a list \<Rightarrow> nat option" where
  "position P [] = None"
| "position P (x # xs) = (if P x then Some 0 else map_option Suc (position P xs))"

definition rposition :: "('a \<Rightarrow> bool) \<Rightarrow> 'a list \<Rightarrow> nat option" where
  "rposition P xs = map_option (\<lambda>i. length xs - 1 - i) (position P (rev xs))"

definition find_start_magic :: "bytes \<Rightarrow> nat \<Rightarrow> nat option" where
  "find_start_magic haystack from =
     (if length haystack \<le> from \<or> length haystack - from < length START_MAGIC then None
      else map_option (\<lambda>i. from + i)
        (position (\<lambda>w. w = START_MAGIC) (windows (length START_MAGIC) (drop from haystack))))"

definition find_end_magic_rightmost :: "bytes \<Rightarrow> nat \<Rightarrow> nat option" where
  "find_end_magic_rightmost haystack exclusive_end =
     (if exclusive_end < length END_MAGIC \<or> haystack = [] then None
      else let end' = min exclusive_end (length haystack) in
        if end' < length END_MAGIC then None
        else rposition (\<lambda>w. w = END_MAGIC) (windows (length END_MAGIC) (take end' haystack)))"

lemma position_Some_iff:
  "position P xs = Some i \<longleftrightarrow> i < length xs \<and> P (xs ! i) \<and> (\<forall>j < i. \<not> P (xs ! j))"
proof (induction xs arbitrary: i)
  case (Cons x xs)
  then show ?case by (cases i) (auto simp: less_Suc_eq_0_disj)
qed simp

lemma position_None_iff: "position P xs = None \<longleftrightarrow> (\<forall>x \<in> set xs. \<not> P x)"
  by (induction xs) auto

lemma rposition_Some_iff:
  "rposition P xs = Some i \<longleftrightarrow> i < length xs \<and> P (xs ! i) \<and> (\<forall>j. i < j \<and> j < length xs \<longrightarrow> \<not> P (xs ! j))"
  (is "?l \<longleftrightarrow> ?r")
proof
  assume ?l
  then obtain k where "position P (rev xs) = Some k" and i: "i = length xs - 1 - k"
    by (auto simp: rposition_def)
  then have k: "k < length xs" "P (rev xs ! k)" "\<forall>j < k. \<not> P (rev xs ! j)"
    by (auto simp: position_Some_iff)
  have "\<not> P (xs ! j)" if "i < j" "j < length xs" for j
    using k(3) [rule_format, of "length xs - 1 - j"] that i k(1) by (simp add: rev_nth)
  with k i show ?r by (auto simp: rev_nth)
next
  assume r: ?r
  have "\<not> P (rev xs ! j)" if "j < length xs - 1 - i" for j
    using r that by (auto simp: rev_nth dest: spec [of _ "length xs - Suc j"])
  with r have "position P (rev xs) = Some (length xs - 1 - i)"
    by (auto simp: position_Some_iff rev_nth)
  with r show ?l by (auto simp: rposition_def)
qed

lemma rposition_None_iff: "rposition P xs = None \<longleftrightarrow> (\<forall>x \<in> set xs. \<not> P x)"
  by (simp add: rposition_def position_None_iff)

definition magic_at :: "bytes \<Rightarrow> bytes \<Rightarrow> nat \<Rightarrow> bool" where
  "magic_at m bs q \<longleftrightarrow> q + length m \<le> length bs \<and> subslice q (q + length m) bs = m"

lemma length_windows [simp]: "length (windows k xs) = length xs + 1 - k"
  by (simp add: windows_def)

lemma nth_windows: "i < length xs + 1 - k \<Longrightarrow> windows k xs ! i = subslice i (i + k) xs"
  by (simp add: windows_def)

lemma find_start_magic_Some:
  "find_start_magic bs p = Some q \<longleftrightarrow>
     p \<le> q \<and> magic_at START_MAGIC bs q \<and> (\<forall>r. p \<le> r \<and> r < q \<longrightarrow> \<not> magic_at START_MAGIC bs r)"
  (is "?l \<longleftrightarrow> ?r")
proof -
  have w: "windows 8 (drop p bs) ! i = subslice (p + i) (p + i + 8) bs" if "p + i + 8 \<le> length bs" for i
    using that by (simp add: nth_windows subslice_def add.commute)
  show ?thesis
  proof
    assume ?l
    then obtain i where i: "position (\<lambda>w. w = START_MAGIC) (windows 8 (drop p bs)) = Some i"
        "q = p + i" "p + 8 \<le> length bs"
      by (auto simp: find_start_magic_def split: if_splits)
    then have "p + i + 8 \<le> length bs" by (auto simp: position_Some_iff)
    moreover have "\<not> magic_at START_MAGIC bs r" if "p \<le> r" "r < q" for r
      using i that calculation w [of "r - p"]
      by (auto simp: position_Some_iff magic_at_def dest!: spec [of _ "r - p"])
    ultimately show ?r using i w by (auto simp: position_Some_iff magic_at_def)
  next
    assume r: ?r
    then have len: "q + 8 \<le> length bs" "p \<le> q" by (auto simp: magic_at_def)
    have "position (\<lambda>w. w = START_MAGIC) (windows 8 (drop p bs)) = Some (q - p)"
      unfolding position_Some_iff
    proof (intro conjI allI impI)
      show "q - p < length (windows 8 (drop p bs))" using len by simp
      show "windows 8 (drop p bs) ! (q - p) = START_MAGIC"
        using r len w [of "q - p"] by (simp add: magic_at_def)
      show "windows 8 (drop p bs) ! j \<noteq> START_MAGIC" if "j < q - p" for j
        using r len that w [of j] by (auto simp: magic_at_def dest: spec [of _ "p + j"])
    qed
    with len show ?l by (simp add: find_start_magic_def)
  qed
qed

lemma find_start_magic_None:
  "find_start_magic bs p = None \<longleftrightarrow> (\<forall>r \<ge> p. \<not> magic_at START_MAGIC bs r)"
proof
  assume "find_start_magic bs p = None"
  then show "\<forall>r \<ge> p. \<not> magic_at START_MAGIC bs r"
  proof (rule contrapos_pp)
    assume "\<not> (\<forall>r \<ge> p. \<not> magic_at START_MAGIC bs r)"
    then obtain r where r: "p \<le> r \<and> magic_at START_MAGIC bs r" by blast
    define q where "q = (LEAST r. p \<le> r \<and> magic_at START_MAGIC bs r)"
    have "p \<le> q \<and> magic_at START_MAGIC bs q"
      unfolding q_def by (rule LeastI [of _ r]) (rule r)
    moreover have "\<not> (p \<le> r \<and> magic_at START_MAGIC bs r)" if "r < q" for r
      using that unfolding q_def by (rule not_less_Least)
    ultimately have "find_start_magic bs p = Some q" by (auto simp: find_start_magic_Some)
    then show "find_start_magic bs p \<noteq> None" by simp
  qed
next
  assume "\<forall>r \<ge> p. \<not> magic_at START_MAGIC bs r"
  then show "find_start_magic bs p = None"
    using find_start_magic_Some [of bs p] by (cases "find_start_magic bs p") auto
qed

section \<open>Forward scan\<close>

definition classify_failure :: "nat \<Rightarrow> frame_verify_error \<Rightarrow> hole_reason" where
  "classify_failure candidate_offset error =
     (case error of
        BadBodyHash \<Rightarrow> DamagedCandidate candidate_offset error
      | BadEndMagic \<Rightarrow> DamagedCandidate candidate_offset error
      | BadSuffixCrc \<Rightarrow> DamagedCandidate candidate_offset error
      | FrameLenMismatch _ _ \<Rightarrow> DamagedCandidate candidate_offset error
      | Truncated _ _ \<Rightarrow> DamagedCandidate candidate_offset error
      | _ \<Rightarrow> CorruptCandidate candidate_offset error)"

definition try_candidate :: "'h integrity \<Rightarrow> bytes \<Rightarrow> nat \<Rightarrow> safety_limits \<Rightarrow>
    frame_verify_error + decoded_frame \<times> u64" where
  "try_candidate I bs offset limits =
     (let window = drop offset bs in
      and_then (verify_frame_at I window limits) (\<lambda>(header, envelope, body, hash, frame_len).
        Inr (\<lparr>frm_header = header, frm_envelope = envelope, frm_body = body, frm_body_hash = hash,
               frm_len = frame_len\<rparr>, frame_len)))"

definition push_garbage :: "scan_region list \<Rightarrow> nat \<Rightarrow> nat \<Rightarrow> scan_region list" where
  "push_garbage rs start end' =
     (if end' \<le> start then rs
      else if rs \<noteq> [] \<and> (case last rs of Hole rg UnclassifiedGarbage \<Rightarrow> rng_end rg = start | _ \<Rightarrow> False)
      then butlast rs @ [Hole (range_new (rng_start (region_range (last rs))) end') UnclassifiedGarbage]
      else rs @ [Hole (range_new start end') UnclassifiedGarbage])"

lemma try_candidate_ok:
  assumes "try_candidate I bs q limits = Inr (f, n)"
  shows "120 \<le> unat n" and "q + unat n \<le> length bs" and "magic_at START_MAGIC bs q" and "frm_len f = n"
proof -
  from assms obtain h e b hs where v: "verify_frame_at I (drop q bs) limits = Inr (h, e, b, hs, n)"
    and f: "frm_len f = n" by (auto simp: try_candidate_def result_simps)
  note l = verify_frame_len [OF v]
  from l(1,2) show "120 \<le> unat n" "q + unat n \<le> length bs" by simp_all
  with l(3) show "magic_at START_MAGIC bs q" by (simp add: magic_at_def subslice_def)
  from f show "frm_len f = n" .
qed

lemma try_candidate_pos: "try_candidate I bs q limits = Inr (f, n) \<Longrightarrow> 0 < unat n"
  by (drule try_candidate_ok(1)) linarith

lemma find_start_magic_ge: "find_start_magic bs p = Some q \<Longrightarrow> p \<le> q \<and> q < length bs"
  using length_magic(1) by (auto simp: find_start_magic_Some magic_at_def)

function scan_loop :: "'h integrity \<Rightarrow> bytes \<Rightarrow> safety_limits \<Rightarrow> nat \<Rightarrow> scan_region list \<Rightarrow>
    scan_region list" where
  "scan_loop I bs limits p rs =
     (let n = length bs in
      if p + FRAME_PREFIX_LEN \<le> n then
        (case find_start_magic bs p of
           None \<Rightarrow> if p < n then push_garbage rs p n else rs
         | Some q \<Rightarrow>
             let rs = (if p < q then push_garbage rs p q else rs) in
             (case try_candidate I bs q limits of
                Inr (frame, frame_len) \<Rightarrow>
                  scan_loop I bs limits (q + unat frame_len)
                    (rs @ [VerifiedFrame (range_new q (q + unat frame_len)) frame])
              | Inl error \<Rightarrow>
                  scan_loop I bs limits (q + 1)
                    (rs @ [Hole (range_new q (q + 1)) (classify_failure q error)])))
      else if p < n then push_garbage rs p n else rs)"
  by pat_completeness auto
termination
  by (relation "measure (\<lambda>(I, bs, limits, p, rs). length bs - p)")
    (auto dest!: find_start_magic_ge try_candidate_pos)

declare scan_loop.simps [simp del]

definition scan_forward :: "'h integrity \<Rightarrow> bytes \<Rightarrow> safety_limits \<Rightarrow> scan_report" where
  "scan_forward I bs limits =
     \<lparr>source_len = length bs, scan_limits = limits, regions = scan_loop I bs limits 0 []\<rparr>"

section \<open>Reverse scan\<close>

definition try_reverse_candidate :: "'h integrity \<Rightarrow> bytes \<Rightarrow> nat \<Rightarrow> nat \<Rightarrow> safety_limits \<Rightarrow>
    frame_verify_error + decoded_frame \<times> nat \<times> u64" where
  "try_reverse_candidate I bs end_magic_off exclusive_end limits =
     (if exclusive_end < end_magic_off + FRAME_SUFFIX_LEN \<or> length bs < end_magic_off + FRAME_SUFFIX_LEN
      then Inl (Truncated (end_magic_off + FRAME_SUFFIX_LEN) (min exclusive_end (length bs)))
      else let suffix = subslice end_magic_off (end_magic_off + FRAME_SUFFIX_LEN) bs in
      if subslice 0 8 suffix \<noteq> END_MAGIC then Inl BadEndMagic
      else let claimed_frame_len = from_le_bytes (subslice 8 16 suffix) :: u64 in
      if claimed_frame_len < word_of_nat (FRAME_PREFIX_LEN + FRAME_SUFFIX_LEN) then Inl LengthsOutOfLimits
      else if exclusive_end < unat claimed_frame_len
      then Inl (Truncated (unat claimed_frame_len) exclusive_end)
      else let frame_end = end_magic_off + FRAME_SUFFIX_LEN in
      if frame_end < unat claimed_frame_len then Inl (Truncated (unat claimed_frame_len) frame_end)
      else let start = frame_end - unat claimed_frame_len in
      if exclusive_end < start + unat claimed_frame_len
      then Inl (Truncated (start + unat claimed_frame_len) exclusive_end)
      else let window = subslice start (start + unat claimed_frame_len) bs in
      and_then (verify_frame_at I window limits) (\<lambda>(header, envelope, body, hash, frame_len).
        if frame_len \<noteq> claimed_frame_len then Inl (FrameLenMismatch claimed_frame_len frame_len)
        else Inr (\<lparr>frm_header = header, frm_envelope = envelope, frm_body = body, frm_body_hash = hash,
               frm_len = frame_len\<rparr>, start, frame_len)))"

definition garbage :: "nat \<Rightarrow> nat \<Rightarrow> scan_region" where
  "garbage a b = Hole (range_new a b) UnclassifiedGarbage"

lemma try_reverse_candidate_ok:
  assumes "try_reverse_candidate I bs s e limits = Inr (f, start, n)"
  shows "try_candidate I bs start limits = Inr (f, n)" and "start + unat n = s + FRAME_SUFFIX_LEN"
    and "s + FRAME_SUFFIX_LEN \<le> e" and "120 \<le> unat n" and "s + FRAME_SUFFIX_LEN \<le> length bs"
proof -
  from assms obtain h en b hs where
    v: "verify_frame_at I (subslice start (start + unat n) bs) limits = Inr (h, en, b, hs, n)"
    and f: "f = \<lparr>frm_header = h, frm_envelope = en, frm_body = b, frm_body_hash = hs, frm_len = n\<rparr>"
    and len: "start + unat n = s + FRAME_SUFFIX_LEN" "s + FRAME_SUFFIX_LEN \<le> e"
      "s + FRAME_SUFFIX_LEN \<le> length bs"
    by (auto simp: try_reverse_candidate_def Let_def result_simps split: if_splits)
  from verify_frame_prefix [OF v, of "drop (unat n) (drop start bs)"] len
  have "verify_frame_at I (drop start bs) limits = Inr (h, en, b, hs, n)"
    by (simp add: subslice_def del: drop_drop)
  then show "try_candidate I bs start limits = Inr (f, n)" using f by (simp add: try_candidate_def)
  from len show "start + unat n = s + FRAME_SUFFIX_LEN" "s + FRAME_SUFFIX_LEN \<le> e"
    "s + FRAME_SUFFIX_LEN \<le> length bs" by simp_all
  from verify_frame_len(1) [OF v] show "120 \<le> unat n" .
qed

lemma try_reverse_candidate_less:
  "try_reverse_candidate I bs s e limits = Inr (f, start, n) \<Longrightarrow> start < e"
  using try_reverse_candidate_ok(2-4) [of I bs s e limits f start n] by linarith

lemma find_end_magic_Some:
  assumes "find_end_magic_rightmost bs e = Some s"
  shows "magic_at END_MAGIC bs s" and "s + 8 \<le> e"
    and "\<forall>r. s < r \<and> r + 8 \<le> e \<longrightarrow> \<not> magic_at END_MAGIC bs r"
proof -
  let ?t = "take (min e (length bs)) bs"
  from assms have r: "rposition (\<lambda>w. w = END_MAGIC) (windows 8 ?t) = Some s"
    by (auto simp: find_end_magic_rightmost_def Let_def split: if_splits)
  then have s: "s + 8 \<le> min e (length bs)" "windows 8 ?t ! s = END_MAGIC"
    by (auto simp: rposition_Some_iff)
  have w: "windows 8 ?t ! r = subslice r (r + 8) bs" if "r + 8 \<le> min e (length bs)" for r
  proof -
    have "windows 8 ?t ! r = subslice r (r + 8) ?t" using that by (intro nth_windows) (auto simp: min_def)
    moreover have "min 8 (min e (length bs) - r) = 8" using that by auto
    ultimately show ?thesis by (simp add: subslice_def drop_take)
  qed
  from s w show "magic_at END_MAGIC bs s" "s + 8 \<le> e" by (simp_all add: magic_at_def)
  show "\<forall>r. s < r \<and> r + 8 \<le> e \<longrightarrow> \<not> magic_at END_MAGIC bs r"
    using r w by (auto simp: rposition_Some_iff magic_at_def)
qed

function scan_reverse_loop :: "'h integrity \<Rightarrow> bytes \<Rightarrow> safety_limits \<Rightarrow> nat \<Rightarrow> scan_region list \<Rightarrow>
    scan_region list" where
  "scan_reverse_loop I bs limits e rs =
     (if FRAME_SUFFIX_LEN \<le> e then
        (case find_end_magic_rightmost bs e of
           None \<Rightarrow> if 0 < e then rs @ [garbage 0 e] else rs
         | Some s \<Rightarrow>
             (case try_reverse_candidate I bs s e limits of
                Inr (frame, start, frame_len) \<Rightarrow>
                  let frame_end = start + unat frame_len;
                      rs = (if frame_end < e then rs @ [garbage frame_end e] else rs)
                  in scan_reverse_loop I bs limits start
                       (rs @ [VerifiedFrame (range_new start frame_end) frame])
              | Inl error \<Rightarrow>
                  let rs = (if s + length END_MAGIC < e then rs @ [garbage (s + 1) e] else rs)
                  in scan_reverse_loop I bs limits s
                       (rs @ [Hole (range_new s (s + 1)) (classify_failure s error)])))
      else if 0 < e \<and> e < FRAME_SUFFIX_LEN then rs @ [garbage 0 e] else rs)"
  by pat_completeness auto
termination
proof (relation "measure (\<lambda>(I, bs, limits, e, rs). e)", goal_cases)
qed (auto dest!: find_end_magic_Some(2) try_reverse_candidate_less)

declare scan_reverse_loop.simps [simp del]

fun coalesce_step :: "scan_region list \<Rightarrow> scan_region \<Rightarrow> scan_region list" where
  "coalesce_step out region =
     (if out \<noteq> [] \<and> (case (last out, region) of
           (Hole r1 UnclassifiedGarbage, Hole r2 UnclassifiedGarbage) \<Rightarrow> rng_end r1 = rng_start r2
         | _ \<Rightarrow> False)
      then butlast out
        @ [garbage (rng_start (region_range (last out))) (rng_end (region_range region))]
      else out @ [region])"

definition coalesce_adjacent_garbage :: "scan_region list \<Rightarrow> scan_region list" where
  "coalesce_adjacent_garbage rs = (if length rs < 2 then rs else foldl coalesce_step [] rs)"

definition scan_reverse :: "'h integrity \<Rightarrow> bytes \<Rightarrow> safety_limits \<Rightarrow> scan_report" where
  "scan_reverse I bs limits =
     \<lparr>source_len = length bs, scan_limits = limits,
      regions = coalesce_adjacent_garbage (rev (scan_reverse_loop I bs limits (length bs) []))\<rparr>"

section \<open>What the forward scan reports\<close>

fun tiles :: "nat \<Rightarrow> scan_region list \<Rightarrow> nat \<Rightarrow> bool" where
  "tiles a [] b = (a = b)"
| "tiles a (r # rs) b = (rng_start (region_range r) = a \<and> a < rng_end (region_range r)
     \<and> tiles (rng_end (region_range r)) rs b)"

lemma tiles_append: "tiles a (xs @ ys) c \<longleftrightarrow> (\<exists>b. tiles a xs b \<and> tiles b ys c)"
  by (induction xs arbitrary: a) auto

lemma tiles_le: "tiles a rs b \<Longrightarrow> a \<le> b"
  by (induction rs arbitrary: a) force+

lemma tiles_region:
  "tiles a rs b \<Longrightarrow> a \<le> q \<Longrightarrow> q < b \<Longrightarrow>
     \<exists>r \<in> set rs. rng_start (region_range r) \<le> q \<and> q < rng_end (region_range r)"
  by (induction rs arbitrary: a) (auto simp: not_less, meson not_less)

lemma range_new_simps [simp]: "rng_start (range_new a b) = a" "rng_end (range_new a b) = b"
  by (simp_all add: range_new_def)

text \<open>A region is honest: a reported frame is what verification at its start returns, a
  reported candidate failure is what verification at that offset failed with, and no offset
  inside garbage verifies.\<close>

fun honest :: "'h integrity \<Rightarrow> bytes \<Rightarrow> safety_limits \<Rightarrow> scan_region \<Rightarrow> bool" where
  "honest I bs limits (VerifiedFrame rg f) \<longleftrightarrow>
     try_candidate I bs (rng_start rg) limits = Inr (f, frm_len f)
     \<and> rng_end rg = rng_start rg + unat (frm_len f)"
| "honest I bs limits (Hole rg UnclassifiedGarbage) \<longleftrightarrow>
     (\<forall>q. rng_start rg \<le> q \<and> q < rng_end rg \<longrightarrow> (\<exists>e. try_candidate I bs q limits = Inl e))"
| "honest I bs limits (Hole rg (CorruptCandidate off e)) \<longleftrightarrow>
     rg = range_new off (off + 1) \<and> try_candidate I bs off limits = Inl e"
| "honest I bs limits (Hole rg (DamagedCandidate off e)) \<longleftrightarrow>
     rg = range_new off (off + 1) \<and> try_candidate I bs off limits = Inl e"

lemma honest_classify:
  "try_candidate I bs q limits = Inl e \<Longrightarrow>
     honest I bs limits (Hole (range_new q (q + 1)) (classify_failure q e))"
  by (cases e) (simp_all add: classify_failure_def)

definition scan_inv :: "'h integrity \<Rightarrow> bytes \<Rightarrow> safety_limits \<Rightarrow> nat \<Rightarrow> scan_region list \<Rightarrow> bool" where
  "scan_inv I bs limits p rs \<longleftrightarrow> p \<le> length bs \<and> tiles 0 rs p \<and> (\<forall>r \<in> set rs. honest I bs limits r)"

lemma scan_inv_snoc:
  assumes "scan_inv I bs limits p rs" and "honest I bs limits r" and "rng_start (region_range r) = p"
    and "p < rng_end (region_range r)" and "rng_end (region_range r) \<le> length bs"
  shows "scan_inv I bs limits (rng_end (region_range r)) (rs @ [r])"
  using assms by (auto simp: scan_inv_def tiles_append)

lemma scan_inv_push_garbage:
  assumes inv: "scan_inv I bs limits p rs" and e: "e \<le> length bs" "p < e"
    and bad: "\<forall>q. p \<le> q \<and> q < e \<longrightarrow> (\<exists>x. try_candidate I bs q limits = Inl x)"
  shows "scan_inv I bs limits e (push_garbage rs p e)"
proof (cases "rs \<noteq> [] \<and> (case last rs of Hole rg UnclassifiedGarbage \<Rightarrow> rng_end rg = p | _ \<Rightarrow> False)")
  case False
  then have "push_garbage rs p e = rs @ [Hole (range_new p e) UnclassifiedGarbage]"
    using e by (auto simp: push_garbage_def)
  then show ?thesis using scan_inv_snoc [OF inv, of "Hole (range_new p e) UnclassifiedGarbage"] e bad by simp
next
  case True
  then obtain rg where rg: "last rs = Hole rg UnclassifiedGarbage" "rng_end rg = p"
    by (auto split: scan_region.splits hole_reason.splits)
  define us where "us = butlast rs"
  have rs: "rs = us @ [Hole rg UnclassifiedGarbage]"
    using True rg(1) by (metis append_butlast_last_id us_def)
  have new: "push_garbage rs p e = us @ [Hole (range_new (rng_start rg) e) UnclassifiedGarbage]"
    using True e rg by (simp add: push_garbage_def us_def)
  have us: "scan_inv I bs limits (rng_start rg) us" "rng_start rg < p"
    and g: "honest I bs limits (Hole rg UnclassifiedGarbage)"
    using inv rg(2) by (auto simp: scan_inv_def rs tiles_append)
  have "honest I bs limits (Hole (range_new (rng_start rg) e) UnclassifiedGarbage)"
    using g bad rg(2) by (simp, metis not_less)
  from scan_inv_snoc [OF us(1) this] us(2) e show ?thesis by (simp add: new)
qed

lemma no_magic_fails:
  "\<not> magic_at START_MAGIC bs q \<Longrightarrow> \<exists>e. try_candidate I bs q limits = Inl e"
  using try_candidate_ok(3) by (cases "try_candidate I bs q limits") fastforce+

lemma short_tail_fails:
  "length bs < q + FRAME_PREFIX_LEN \<Longrightarrow> \<exists>e. try_candidate I bs q limits = Inl e"
  using try_candidate_ok(1,2) [of I bs q limits]
  by (cases "try_candidate I bs q limits") (fastforce simp: FRAME_PREFIX_LEN_def)+

lemma scan_loop_inv:
  "scan_inv I bs limits p rs \<Longrightarrow> scan_inv I bs limits (length bs) (scan_loop I bs limits p rs)"
proof (induction I bs limits p rs rule: scan_loop.induct)
  case (1 I bs limits p rs)
  have rest: "scan_inv I bs limits (length bs) (if p < length bs then push_garbage rs p (length bs) else rs)"
    if "\<forall>q. p \<le> q \<and> q < length bs \<longrightarrow> (\<exists>x. try_candidate I bs q limits = Inl x)"
    using "1.prems" that scan_inv_push_garbage [of I bs limits p rs "length bs"]
    by (auto simp: scan_inv_def)
  consider (stop) "\<not> p + FRAME_PREFIX_LEN \<le> length bs" | (none) "find_start_magic bs p = None"
    | (some) q where "p + FRAME_PREFIX_LEN \<le> length bs" "find_start_magic bs p = Some q" by fastforce
  then show ?case
  proof cases
    case stop
    then have "\<forall>q. p \<le> q \<and> q < length bs \<longrightarrow> (\<exists>x. try_candidate I bs q limits = Inl x)"
      by (auto intro!: short_tail_fails)
    then show ?thesis using rest stop by (simp add: scan_loop.simps [of I bs limits p] Let_def)
  next
    case none
    then have "\<forall>q. p \<le> q \<and> q < length bs \<longrightarrow> (\<exists>x. try_candidate I bs q limits = Inl x)"
      by (auto simp: find_start_magic_None intro!: no_magic_fails)
    then show ?thesis using rest none by (simp add: scan_loop.simps [of I bs limits p] Let_def)
  next
    case some
    define us where "us = (if p < q then push_garbage rs p q else rs)"
    have q: "p \<le> q" "q < length bs" using find_start_magic_ge [OF some(2)] by simp_all
    have us: "scan_inv I bs limits q us"
      using scan_inv_push_garbage [OF "1.prems", of q] "1.prems" q some(2)
      by (auto simp: us_def find_start_magic_Some intro!: no_magic_fails)
    show ?thesis
    proof (cases "try_candidate I bs q limits")
      case (Inl e)
      have "scan_inv I bs limits (q + 1) (us @ [Hole (range_new q (q + 1)) (classify_failure q e)])"
        using scan_inv_snoc [OF us honest_classify [OF Inl]] q by simp
      with "1.IH"(1) [OF refl some us_def Inl] show ?thesis
        using some Inl by (simp add: scan_loop.simps [of I bs limits p] us_def)
    next
      case (Inr x)
      obtain f n where x: "x = (f, n)" by force
      note ok = try_candidate_ok [OF Inr [unfolded x]]
      have "honest I bs limits (VerifiedFrame (range_new q (q + unat n)) f)"
        using Inr x ok by simp
      from scan_inv_snoc [OF us this] ok
      have "scan_inv I bs limits (q + unat n) (us @ [VerifiedFrame (range_new q (q + unat n)) f])" by simp
      with "1.IH"(2) [OF refl some us_def Inr x [symmetric]] show ?thesis
        using some Inr x by (simp add: scan_loop.simps [of I bs limits p] us_def)
    qed
  qed
qed

lemma scan_forward_inv: "scan_inv I bs limits (length bs) (regions (scan_forward I bs limits))"
  using scan_loop_inv [of I bs limits 0 "[]"] by (simp add: scan_forward_def scan_inv_def)

section \<open>Buffers made of frames\<close>

lemma try_candidate_prefix:
  assumes "try_candidate I (w @ r) 0 limits = Inr (f, n)" and "unat n = length w"
  shows "try_candidate I (u @ w @ r') (length u) limits = Inr (f, n)"
proof -
  from assms(1) obtain h e b hs where v: "verify_frame_at I (w @ r) limits = Inr (h, e, b, hs, n)"
    and f: "f = \<lparr>frm_header = h, frm_envelope = e, frm_body = b, frm_body_hash = hs, frm_len = n\<rparr>"
    by (auto simp: try_candidate_def result_simps)
  from verify_frame_prefix [OF v, of r'] assms(2)
  have "verify_frame_at I (w @ r') limits = Inr (h, e, b, hs, n)" by simp
  then show ?thesis using f by (simp add: try_candidate_def)
qed

lemma decode_frame_try:
  assumes "decode_frame I w limits = Inr f" and "rust_slice w"
  shows "try_candidate I w 0 limits = Inr (f, frm_len f)" and "unat (frm_len f) = length w"
proof -
  from assms(1) obtain h e b hs n where v: "verify_frame_at I w limits = Inr (h, e, b, hs, n)"
    and f: "f = \<lparr>frm_header = h, frm_envelope = e, frm_body = b, frm_body_hash = hs, frm_len = n\<rparr>"
    and n: "len_u64 w = n"
    by (auto simp: decode_frame_def result_simps split: if_splits)
  from v f show "try_candidate I w 0 limits = Inr (f, frm_len f)" by (simp add: try_candidate_def)
  from n f unat_len_u64 [OF assms(2)] show "unat (frm_len f) = length w" by simp
qed

definition decodes :: "'h integrity \<Rightarrow> safety_limits \<Rightarrow> bytes \<Rightarrow> decoded_frame \<Rightarrow> bool" where
  "decodes I limits w f \<longleftrightarrow> decode_frame I w limits = Inr f"

fun frame_regions :: "nat \<Rightarrow> bytes list \<Rightarrow> decoded_frame list \<Rightarrow> scan_region list" where
  "frame_regions p (w # ws) (f # fs) =
     VerifiedFrame (range_new p (p + length w)) f # frame_regions (p + length w) ws fs"
| "frame_regions p _ _ = []"

lemma rust_slice_concat:
  "rust_slice (concat (w # ws)) \<Longrightarrow> rust_slice w \<and> rust_slice (concat ws)"
  by (simp add: rust_slice_def)

lemma scan_loop_frames:
  assumes "list_all2 (decodes I limits) ws fs" and "rust_slice (concat ws)"
  shows "scan_loop I (u @ concat ws) limits (length u) rs = rs @ frame_regions (length u) ws fs"
  using assms
proof (induction ws fs arbitrary: u rs rule: list_all2_induct)
  case Nil
  then show ?case by (simp add: scan_loop.simps [of I _ limits "length u"] FRAME_PREFIX_LEN_def)
next
  case (Cons w ws f fs)
  let ?bs = "u @ w @ concat ws" and ?u = "u @ w"
  have rw: "rust_slice w" "rust_slice (concat ws)" using rust_slice_concat Cons.prems by blast+
  note d = decode_frame_try [OF Cons.hyps(1) [unfolded decodes_def] rw(1)]
  have t: "try_candidate I ?bs (length u) limits = Inr (f, frm_len f)"
    using try_candidate_prefix [of I w "[]" limits f] d by simp
  note ok = try_candidate_ok [OF t]
  have "find_start_magic ?bs (length u) = Some (length u)"
    using ok(3) by (auto simp: find_start_magic_Some)
  moreover have "length u + FRAME_PREFIX_LEN \<le> length ?bs"
    using ok(1,2) by (simp add: FRAME_PREFIX_LEN_def)
  ultimately have "scan_loop I (u @ concat (w # ws)) limits (length u) rs =
      scan_loop I (?u @ concat ws) limits (length ?u)
        (rs @ [VerifiedFrame (range_new (length u) (length ?u)) f])"
    using t d(2) by (simp add: scan_loop.simps [of I ?bs limits "length u"] Let_def)
  also have "\<dots> = rs @ frame_regions (length u) (w # ws) (f # fs)"
    using Cons.IH [OF rw(2), of ?u] by simp
  finally show ?case .
qed

section \<open>What the reverse scan reports\<close>

fun failed_candidate :: "scan_region \<Rightarrow> bool" where
  "failed_candidate (Hole rg r) \<longleftrightarrow> r \<noteq> UnclassifiedGarbage"
| "failed_candidate (VerifiedFrame _ _) \<longleftrightarrow> False"

text \<open>Regions from \<open>a\<close> to \<open>b\<close> in order, where a failed candidate may be followed by the seven
  remaining bytes of its end magic without any region covering them.\<close>

fun rtiles :: "bytes \<Rightarrow> nat \<Rightarrow> scan_region list \<Rightarrow> nat \<Rightarrow> bool" where
  "rtiles bs a [] b = (a = b)"
| "rtiles bs a (r # rs) b = (rng_start (region_range r) = a \<and> a < rng_end (region_range r)
     \<and> (rtiles bs (rng_end (region_range r)) rs b
       \<or> failed_candidate r \<and> magic_at END_MAGIC bs a \<and> rtiles bs (rng_end (region_range r) + 7) rs b))"

lemma rtiles_append: "rtiles bs a (xs @ ys) c \<longleftrightarrow> (\<exists>b. rtiles bs a xs b \<and> rtiles bs b ys c)"
  by (induction xs arbitrary: a) auto

lemma classify_not_garbage [simp]: "classify_failure q e \<noteq> UnclassifiedGarbage"
  by (cases e) (simp_all add: classify_failure_def)

lemma garbage_simps [simp]:
  "region_range (garbage a b) = range_new a b" "\<not> failed_candidate (garbage a b)"
  by (simp_all add: garbage_def)

lemma rtiles_garbage [simp]:
  "rtiles bs a (garbage x y # rs) b \<longleftrightarrow> x = a \<and> a < y \<and> rtiles bs y rs b"
  by auto

definition verified_honest :: "'h integrity \<Rightarrow> bytes \<Rightarrow> safety_limits \<Rightarrow> scan_region list \<Rightarrow> bool" where
  "verified_honest I bs limits rs \<longleftrightarrow> (\<forall>r \<in> set rs. is_verified r \<longrightarrow> honest I bs limits r)"

lemma verified_honest_simps [simp]:
  "verified_honest I bs limits []"
  "verified_honest I bs limits (xs @ ys) \<longleftrightarrow> verified_honest I bs limits xs \<and> verified_honest I bs limits ys"
  "verified_honest I bs limits (garbage a b # xs) \<longleftrightarrow> verified_honest I bs limits xs"
  "verified_honest I bs limits (Hole rg x # xs) \<longleftrightarrow> verified_honest I bs limits xs"
  "verified_honest I bs limits (VerifiedFrame rg f # xs) \<longleftrightarrow>
     honest I bs limits (VerifiedFrame rg f) \<and> verified_honest I bs limits xs"
  by (auto simp: verified_honest_def garbage_def)

lemma scan_reverse_loop_inv:
  "e \<le> length bs \<Longrightarrow> rtiles bs e (rev rs) (length bs) \<Longrightarrow> verified_honest I bs limits rs \<Longrightarrow>
     rtiles bs 0 (rev (scan_reverse_loop I bs limits e rs)) (length bs)
     \<and> verified_honest I bs limits (scan_reverse_loop I bs limits e rs)"
proof (induction I bs limits e rs rule: scan_reverse_loop.induct)
  case (1 I bs limits e rs)
  consider (stop) "\<not> FRAME_SUFFIX_LEN \<le> e" | (none) "find_end_magic_rightmost bs e = None"
    | (some) s where "FRAME_SUFFIX_LEN \<le> e" "find_end_magic_rightmost bs e = Some s" by fastforce
  then show ?case
  proof cases
    case stop
    then show ?thesis using "1.prems" by (auto simp: scan_reverse_loop.simps [of I bs limits e])
  next
    case none
    then show ?thesis using "1.prems" by (auto simp: scan_reverse_loop.simps [of I bs limits e])
  next
    case some
    note s = find_end_magic_Some [OF some(2)]
    show ?thesis
    proof (cases "try_reverse_candidate I bs s e limits")
      case (Inl x)
      let ?us = "if s + length END_MAGIC < e then rs @ [garbage (s + 1) e] else rs"
      let ?r = "Hole (range_new s (s + 1)) (classify_failure s x)"
      have "s + 8 < e \<or> e = s + 1 + 7" using s(2) by auto
      then have "rtiles bs s (rev (?us @ [?r])) (length bs)"
        using s(1,2) "1.prems"(2) by auto
      moreover have "verified_honest I bs limits (?us @ [?r])" using "1.prems"(3) by simp
      ultimately show ?thesis
        using "1.IH"(1) [OF some Inl refl] s(2) "1.prems"(1) some Inl
        by (simp add: scan_reverse_loop.simps [of I bs limits e] Let_def)
    next
      case (Inr y)
      obtain f start n where y: "y = (f, start, n)" by (cases y) auto
      let ?e = "start + unat n"
      let ?us = "if ?e < e then rs @ [garbage ?e e] else rs"
      let ?r = "VerifiedFrame (range_new start ?e) f"
      note ok = try_reverse_candidate_ok [OF Inr [unfolded y]]
      have le: "?e \<le> e" "start < ?e" using ok by simp_all
      then have tl: "rtiles bs start (rev (?us @ [?r])) (length bs)"
        using "1.prems"(2) by auto
      have vh: "verified_honest I bs limits (?us @ [?r])"
        using "1.prems"(3) ok(1) try_candidate_ok(4) [OF ok(1)] by simp
      have "rtiles bs 0 (rev (scan_reverse_loop I bs limits start (?us @ [?r]))) (length bs)
          \<and> verified_honest I bs limits (scan_reverse_loop I bs limits start (?us @ [?r]))"
        by (rule "1.IH"(2) [OF some Inr y [symmetric] refl refl refl _ tl vh])
          (use le "1.prems"(1) in simp)
      moreover have "scan_reverse_loop I bs limits e rs = scan_reverse_loop I bs limits start (?us @ [?r])"
        using some Inr y by (simp add: scan_reverse_loop.simps [of I bs limits e] Let_def)
      ultimately show ?thesis by simp
    qed
  qed
qed

lemma range_cases:
  obtains x y where "r = range_new x y"
  using that [of "rng_start r" "rng_end r"] by (simp add: range_new_def)

lemma coalesce_step_inv:
  assumes "rtiles bs a (out @ r # rs) b" and "verified_honest I bs limits (out @ r # rs)"
  shows "rtiles bs a (coalesce_step out r @ rs) b \<and> verified_honest I bs limits (coalesce_step out r @ rs)"
proof (cases "out \<noteq> [] \<and> (case (last out, r) of
    (Hole r1 UnclassifiedGarbage, Hole r2 UnclassifiedGarbage) \<Rightarrow> rng_end r1 = rng_start r2 | _ \<Rightarrow> False)")
  case False
  then have "coalesce_step out r = out @ [r]" by auto
  with assms show ?thesis by simp
next
  case True
  then obtain r1 r2 where "last out = Hole r1 UnclassifiedGarbage" "r = Hole r2 UnclassifiedGarbage"
      "rng_end r1 = rng_start r2"
    by (auto split: scan_region.splits hole_reason.splits)
  moreover obtain x y where "r1 = range_new x y" by (rule range_cases)
  moreover obtain y' z where "r2 = range_new y' z" by (rule range_cases)
  moreover define us where "us = butlast out"
  ultimately have r: "r = garbage y z" and out: "out = us @ [garbage x y]"
    and step: "coalesce_step out r = us @ [garbage x z]"
    using True append_butlast_last_id [of out] by (auto simp: garbage_def)
  from assms show ?thesis unfolding step by (auto simp: r out rtiles_append)
qed

lemma coalesce_foldl_inv:
  "rtiles bs a (out @ rs) b \<Longrightarrow> verified_honest I bs limits (out @ rs) \<Longrightarrow>
     rtiles bs a (foldl coalesce_step out rs) b \<and> verified_honest I bs limits (foldl coalesce_step out rs)"
proof (induction rs arbitrary: out)
  case (Cons r rs)
  from coalesce_step_inv [OF Cons.prems] show ?case using Cons.IH [of "coalesce_step out r"]
    by (simp del: coalesce_step.simps)
qed simp

lemma verified_honest_rev [simp]: "verified_honest I bs limits (rev rs) = verified_honest I bs limits rs"
  by (simp add: verified_honest_def)

lemma scan_reverse_inv:
  "rtiles bs 0 (regions (scan_reverse I bs limits)) (length bs)
   \<and> verified_honest I bs limits (regions (scan_reverse I bs limits))"
proof -
  let ?rs = "scan_reverse_loop I bs limits (length bs) []"
  have "rtiles bs 0 (rev ?rs) (length bs) \<and> verified_honest I bs limits (rev ?rs)"
    using scan_reverse_loop_inv [of "length bs" bs "[]" I limits] by simp
  then show ?thesis using coalesce_foldl_inv [of bs 0 "[]" "rev ?rs" "length bs" I limits]
    by (simp add: scan_reverse_def coalesce_adjacent_garbage_def)
qed

section \<open>Both scans on intact buffers\<close>

lemma find_end_magic_eq:
  assumes "magic_at END_MAGIC bs s" and "s + 8 \<le> e" and "e \<le> length bs"
    and "\<forall>r. s < r \<and> r + 8 \<le> e \<longrightarrow> \<not> magic_at END_MAGIC bs r"
  shows "find_end_magic_rightmost bs e = Some s"
proof -
  have w: "windows 8 (take e bs) ! r = subslice r (r + 8) bs" if "r + 8 \<le> e" for r
    using that assms(3) by (simp add: nth_windows subslice_def drop_take)
  have "rposition (\<lambda>w. w = END_MAGIC) (windows 8 (take e bs)) = Some s"
    using assms w by (auto simp: rposition_Some_iff magic_at_def)
  then show ?thesis using assms by (auto simp: find_end_magic_rightmost_def Let_def min_def)
qed

lemma verify_frame_suffix_at:
  assumes "verify_frame_at I bs limits = Inr (h, env, body, hash, n)"
  obtains s where "subslice (unat n - FRAME_SUFFIX_LEN) (unat n) bs = frame_suffix I n hash s"
    and "length s = 4" and "length hash = 32"
  using assms
proof (rule verify_frame_sound)
  fix r s rest
  assume *: "bs = frame_image I h env body r s @ rest" "length r = 4" "length s = 4"
      "frame_lengths_ok h env body" "hash = blake3_hash I body"
      "n = 120 + ucast (envelope_len h) + body_len h" "length (blake3_hash I body) = 32"
  have "unat n = 120 + length env + length body" using *(4,6) by (simp add: frame_lengths_eqs(4))
  moreover have "length (frame_prefix I h env r) = 64"
    using *(2,4) by (simp add: prefix_fields(1) frame_lengths_ok_def)
  ultimately have "subslice (unat n - FRAME_SUFFIX_LEN) (unat n) bs = frame_suffix I n hash s"
    using * suffix_fields(1) [of hash s I n] by (simp add: frame_image_def FRAME_SUFFIX_LEN_def)
  then show ?thesis using that * by simp
qed

definition suffix_clean :: "bytes \<Rightarrow> bool" where
  "suffix_clean w \<longleftrightarrow> find_end_magic_rightmost w (length w) = Some (length w - FRAME_SUFFIX_LEN)"

lemma magic_at_shift:
  "q + length m \<le> length w \<Longrightarrow> magic_at m (u @ w @ r) (length u + q) \<longleftrightarrow> magic_at m w q"
  by (simp add: magic_at_def)

lemma suffix_clean_shift:
  assumes "suffix_clean w" and "FRAME_SUFFIX_LEN \<le> length w"
  shows "find_end_magic_rightmost (u @ w @ r) (length u + length w)
    = Some (length u + (length w - FRAME_SUFFIX_LEN))"
proof (rule find_end_magic_eq)
  note c = find_end_magic_Some [OF assms(1) [unfolded suffix_clean_def]]
  let ?s = "length w - FRAME_SUFFIX_LEN"
  show "magic_at END_MAGIC (u @ w @ r) (length u + ?s)" using c(1,2) by (simp add: magic_at_shift)
  show "length u + ?s + 8 \<le> length u + length w" using c(2) by simp
  show "\<forall>q. length u + ?s < q \<and> q + 8 \<le> length u + length w \<longrightarrow> \<not> magic_at END_MAGIC (u @ w @ r) q"
  proof (intro allI impI)
    fix q assume q: "length u + ?s < q \<and> q + 8 \<le> length u + length w"
    then have "?s < q - length u \<and> q - length u + 8 \<le> length w" by linarith
    then have "\<not> magic_at END_MAGIC w (q - length u)" using c(3) by blast
    moreover have "q - length u + length END_MAGIC \<le> length w" using q length_magic(2) by linarith
    ultimately have "\<not> magic_at END_MAGIC (u @ w @ r) (length u + (q - length u))"
      by (simp only: magic_at_shift simp_thms)
    with q show "\<not> magic_at END_MAGIC (u @ w @ r) q" by simp
  qed
qed simp

lemma try_reverse_candidate_frame:
  assumes "try_candidate I w 0 limits = Inr (f, n)" and "unat n = length w"
  shows "try_reverse_candidate I (u @ w @ r) (length u + (length w - FRAME_SUFFIX_LEN))
      (length u + length w) limits = Inr (f, length u, n)"
proof -
  from assms(1) obtain h e b hs where v: "verify_frame_at I w limits = Inr (h, e, b, hs, n)"
    and f: "f = \<lparr>frm_header = h, frm_envelope = e, frm_body = b, frm_body_hash = hs, frm_len = n\<rparr>"
    by (auto simp: try_candidate_def result_simps)
  let ?k = "length u + (length w - FRAME_SUFFIX_LEN)"
  have len: "120 \<le> length w" using verify_frame_len(1) [OF v] assms(2) by simp
  then have k: "?k + FRAME_SUFFIX_LEN = length u + length w" by (simp add: FRAME_SUFFIX_LEN_def)
  obtain s where "subslice (unat n - FRAME_SUFFIX_LEN) (unat n) w = frame_suffix I n hs s"
      "length s = 4" "length hs = 32" using v by (rule verify_frame_suffix_at)
  then have suf: "subslice (length w - FRAME_SUFFIX_LEN) (length w) w = frame_suffix I n hs s"
    and S: "subslice 0 8 (frame_suffix I n hs s) = END_MAGIC"
      "from_le_bytes (subslice 8 16 (frame_suffix I n hs s)) = n"
    using assms(2) by (simp_all add: suffix_fields)
  have "\<not> n < word_of_nat (FRAME_PREFIX_LEN + FRAME_SUFFIX_LEN)"
    using len assms(2) by (simp add: FRAME_PREFIX_LEN_def FRAME_SUFFIX_LEN_def word_less_nat_alt)
  then show ?thesis
    unfolding try_reverse_candidate_def Let_def k using assms(2) v f S by (simp add: suf)
qed

lemma frame_regions_snoc:
  "length ws = length fs \<Longrightarrow> frame_regions p (ws @ [w]) (fs @ [f]) =
     frame_regions p ws fs @ [VerifiedFrame (range_new (p + length (concat ws))
       (p + length (concat ws) + length w)) f]"
  by (induction ws fs arbitrary: p rule: list_induct2) (auto simp: add.assoc)

lemma scan_reverse_loop_frames:
  assumes "list_all2 (decodes I limits) ws fs" and "rust_slice (concat ws)"
    and "\<forall>w \<in> set ws. suffix_clean w"
  shows "scan_reverse_loop I (concat ws @ r) limits (length (concat ws)) rs =
    rs @ rev (frame_regions 0 ws fs)"
  using assms
proof (induction ws arbitrary: fs r rs rule: rev_induct)
  case Nil
  then show ?case by (simp add: scan_reverse_loop.simps [of I _ limits 0] FRAME_SUFFIX_LEN_def)
next
  case (snoc w ws)
  then obtain gs f where fs: "fs = gs @ [f]" "list_all2 (decodes I limits) ws gs" "decodes I limits w f"
    by (auto simp: list_all2_append1 list_all2_Cons1)
  let ?bs = "concat ws @ w @ r" and ?n = "length (concat ws) + length w"
  have rw: "rust_slice w" "rust_slice (concat ws)" using snoc.prems(2) by (auto simp: rust_slice_def)
  note d = decode_frame_try [OF fs(3) [unfolded decodes_def] rw(1)]
  have "120 \<le> length w" using try_candidate_ok(1) [OF d(1)] d(2) by simp
  then have le: "FRAME_SUFFIX_LEN \<le> length w" "FRAME_SUFFIX_LEN \<le> ?n"
    by (simp_all add: FRAME_SUFFIX_LEN_def)
  have "scan_reverse_loop I ?bs limits ?n rs = scan_reverse_loop I ?bs limits (length (concat ws))
      (rs @ [VerifiedFrame (range_new (length (concat ws)) ?n) f])"
    using suffix_clean_shift [OF _ le(1), of "concat ws" r] snoc.prems(3) le(2) d(2)
      try_reverse_candidate_frame [OF d, of "concat ws" r]
    by (simp add: scan_reverse_loop.simps [of I ?bs limits ?n] Let_def)
  also have "\<dots> = rs @ rev (frame_regions 0 (ws @ [w]) fs)"
    using snoc.IH [OF fs(2) rw(2), of "w @ r"] snoc.prems(3) list_all2_lengthD [OF fs(2)]
    by (simp add: fs(1) frame_regions_snoc)
  finally show ?case by simp
qed

lemma coalesce_verified:
  "\<forall>r \<in> set rs. is_verified r \<Longrightarrow> foldl coalesce_step out rs = out @ rs"
proof (induction rs arbitrary: out)
  case (Cons r rs)
  then have "coalesce_step out r = out @ [r]" by (cases r) (auto split: scan_region.splits hole_reason.splits)
  with Cons show ?case by (simp del: coalesce_step.simps)
qed simp

lemma frame_regions_verified: "\<forall>r \<in> set (frame_regions p ws fs). is_verified r"
  by (induction p ws fs rule: frame_regions.induct) auto

lemma scan_reverse_frames:
  assumes "list_all2 (decodes I limits) ws fs" and "rust_slice (concat ws)"
    and "\<forall>w \<in> set ws. suffix_clean w"
  shows "regions (scan_reverse I (concat ws) limits) = frame_regions 0 ws fs"
  using scan_reverse_loop_frames [OF assms, of "[]" "[]"]
    coalesce_verified [OF frame_regions_verified, of "[]" 0 ws fs]
  by (simp add: scan_reverse_def coalesce_adjacent_garbage_def)

lemma sample_decodes:
  "decodes sample_integrity draft_defaults (sample_frame [1, 2, 3])
    \<lparr>frm_header = sample_header, frm_envelope = EMPTY_ENVELOPE, frm_body = [1, 2, 3],
     frm_body_hash = [1, 2, 3] @ replicate 29 0, frm_len = 124\<rparr>"
  and sample_frame_len: "length (sample_frame [1, 2, 3]) = 124"
proof -
  show "length (sample_frame [1, 2, 3]) = 124"
    using length_frame_image [OF documented_hash_len [OF sample_documented] sample_ok(1)]
    by (simp add: sample_frame_def EMPTY_ENVELOPE_def)
  then have "len_u64 (sample_frame [1, 2, 3]) = 124" by (simp add: len_u64_def)
  then show "decodes sample_integrity draft_defaults (sample_frame [1, 2, 3])
      \<lparr>frm_header = sample_header, frm_envelope = EMPTY_ENVELOPE, frm_body = [1, 2, 3],
       frm_body_hash = [1, 2, 3] @ replicate 29 0, frm_len = 124\<rparr>"
    using sample_verifies [of "[]"] by (simp add: decodes_def decode_frame_def)
qed

lemma sample_suffix_clean: "suffix_clean (sample_frame [1, 2, 3])"
  by code_simp

definition parse_frame :: "'h integrity \<Rightarrow> safety_limits \<Rightarrow> bytes \<Rightarrow>
    frame_verify_error + decoded_frame \<times> nat" where
  "parse_frame I limits w = and_then (try_candidate I w 0 limits) (\<lambda>(f, n). Inr (f, unat n))"

interpretation frames: self_delimiting "parse_frame I limits" for I limits
proof unfold_locales
  fix w x n r
  assume "parse_frame I limits w = Inr (x, n)"
  then obtain m where m: "try_candidate I w 0 limits = Inr (x, m)" "n = unat m"
    by (auto simp: parse_frame_def result_simps)
  note ok = try_candidate_ok [OF m(1)]
  show "0 < n \<and> n \<le> length w" using ok(1,2) m(2) by linarith
  have "try_candidate I (take n w @ drop n w) 0 limits = Inr (x, m)" using m(1) by simp
  moreover have "unat m = length (take n w)" using ok(2) by (simp add: m(2))
  ultimately have "try_candidate I ([] @ take n w @ r) (length ([] :: bytes)) limits = Inr (x, m)"
    by (rule try_candidate_prefix)
  then show "parse_frame I limits (take n w @ r) = Inr (x, n)" by (simp add: parse_frame_def m(2))
qed

lemma decodes_parse: "decodes I limits w f \<Longrightarrow> rust_slice w \<Longrightarrow> parse_frame I limits w = Inr (f, length w)"
  using decode_frame_try [of I w limits f] by (simp add: decodes_def parse_frame_def)

section \<open>Properties\<close>

text \<open>C18: the forward scan accounts for every byte. Its regions are non-empty, in order, without
  overlap, and together cover the source from its first to its last byte.\<close>

theorem forward_scan_tiles:
  "tiles 0 (regions (scan_forward I bs limits)) (length bs)"
  using scan_forward_inv by (auto simp: scan_inv_def)


text \<open>C20: the forward scan misses nothing. If verification succeeds at an offset, the scan
  reports exactly that frame there, unless the offset lies strictly inside another frame it
  reports: corruption elsewhere in the source cannot hide a frame.\<close>

theorem forward_scan_complete:
  assumes "try_candidate I bs q limits = Inr (f, n)"
  shows "VerifiedFrame (range_new q (q + unat n)) f \<in> set (regions (scan_forward I bs limits))
    \<or> (\<exists>rg g. VerifiedFrame rg g \<in> set (regions (scan_forward I bs limits))
          \<and> rng_start rg < q \<and> q < rng_end rg)"
proof -
  let ?rs = "regions (scan_forward I bs limits)"
  note ok = try_candidate_ok [OF assms]
  have "tiles 0 ?rs (length bs)" and h: "\<forall>r \<in> set ?rs. honest I bs limits r"
    using scan_forward_inv by (auto simp: scan_inv_def)
  moreover have "q < length bs" using ok by linarith
  ultimately obtain r where r: "r \<in> set ?rs" "rng_start (region_range r) \<le> q"
      "q < rng_end (region_range r)" using tiles_region [of 0 ?rs "length bs" q] by auto
  have hr: "honest I bs limits r" using h r(1) by blast
  show ?thesis
  proof (cases r)
    case (VerifiedFrame rg g)
    show ?thesis
    proof (cases "rng_start rg = q")
      case True
      with hr VerifiedFrame assms have "g = f" "rg = range_new q (q + unat n)"
        by (auto simp: range_new_def)
      with r(1) VerifiedFrame show ?thesis by blast
    next
      case False
      with r VerifiedFrame show ?thesis by force
    qed
  next
    case (Hole rg x)
    with hr r assms show ?thesis by (cases x) (auto simp: le_less_Suc_eq)
  qed
qed

theorem forward_scan_complete_witness:
  "\<exists>f. VerifiedFrame (range_new 2 126) f
      \<in> set (regions (scan_forward sample_integrity ([82, 69] @ sample_frame [1, 2, 3] @ [9]) draft_defaults))
    \<or> (\<exists>rg g. VerifiedFrame rg g
        \<in> set (regions (scan_forward sample_integrity ([82, 69] @ sample_frame [1, 2, 3] @ [9]) draft_defaults))
        \<and> rng_start rg < 2 \<and> 2 < rng_end rg)"
proof -
  have "\<exists>f. try_candidate sample_integrity ([82, 69] @ sample_frame [1, 2, 3] @ [9]) 2 draft_defaults = Inr (f, 124)"
    using sample_verifies [of "[9]"] by (simp add: try_candidate_def)
  then show ?thesis using forward_scan_complete by fastforce
qed

text \<open>C21: on a buffer that is a sequence of frames, each of which decodes, the forward scan
  returns exactly these frames at their offsets and no hole.\<close>

theorem forward_scan_exact:
  assumes "list_all2 (decodes I limits) ws fs" and "rust_slice (concat ws)"
  shows "regions (scan_forward I (concat ws) limits) = frame_regions 0 ws fs"
  using scan_loop_frames [OF assms, of "[]"] by (simp add: scan_forward_def)

theorem forward_scan_exact_witness:
  "\<exists>f. regions (scan_forward sample_integrity (sample_frame [1, 2, 3] @ sample_frame [1, 2, 3]) draft_defaults)
    = [VerifiedFrame (range_new 0 124) f, VerifiedFrame (range_new 124 248) f]"
proof -
  let ?w = "sample_frame [1, 2, 3]"
  obtain f where f: "decodes sample_integrity draft_defaults ?w f" using sample_decodes by blast
  have "rust_slice (concat [?w, ?w])" by (simp add: rust_slice_def sample_frame_len)
  with forward_scan_exact [of sample_integrity draft_defaults "[?w, ?w]" "[f, f]"] f
  show ?thesis by (auto simp: sample_frame_len)
qed

text \<open>C22: the reverse scan never invents frames: every frame it reports is what verification
  returns at its start offset.\<close>

theorem reverse_scan_sound:
  assumes "VerifiedFrame rg f \<in> set (regions (scan_reverse I bs limits))"
  shows "try_candidate I bs (rng_start rg) limits = Inr (f, frm_len f)
    \<and> rng_end rg = rng_start rg + unat (frm_len f)"
  using scan_reverse_inv [of bs I limits] assms by (force simp: verified_honest_def)

theorem reverse_scan_sound_witness:
  "\<exists>f. VerifiedFrame (range_new 0 124) f
      \<in> set (regions (scan_reverse sample_integrity (sample_frame [1, 2, 3]) draft_defaults))
    \<and> try_candidate sample_integrity (sample_frame [1, 2, 3]) 0 draft_defaults = Inr (f, frm_len f)"
proof -
  let ?w = "sample_frame [1, 2, 3]"
  obtain f where f: "decodes sample_integrity draft_defaults ?w f" using sample_decodes by blast
  have "rust_slice (concat [?w])" by (simp add: rust_slice_def sample_frame_len)
  with scan_reverse_frames [of sample_integrity draft_defaults "[?w]" "[f]"] f sample_suffix_clean
  have "VerifiedFrame (range_new 0 124) f \<in> set (regions (scan_reverse sample_integrity ?w draft_defaults))"
    by (simp add: sample_frame_len)
  from this reverse_scan_sound [OF this] show ?thesis by auto
qed

text \<open>The reverse scan accounts for every byte up to a gap: its regions are non-empty, in
  order and without overlap, and cover the source, except that the last seven bytes of an end
  magic may be left out right after the one-byte hole of a failed candidate.\<close>

lemma reverse_scan_tiles:
  "rtiles bs 0 (regions (scan_reverse I bs limits)) (length bs)"
  using scan_reverse_inv by blast

text \<open>C23: the reverse scan agrees with the forward scan on a buffer that is a sequence of
  frames, each of which decodes and whose rightmost end magic is the one its suffix starts
  with.\<close>

theorem reverse_scan_agrees:
  assumes "list_all2 (decodes I limits) ws fs" and "rust_slice (concat ws)"
    and "\<forall>w \<in> set ws. suffix_clean w"
  shows "scan_reverse I (concat ws) limits = scan_forward I (concat ws) limits"
  using scan_reverse_frames [OF assms] scan_loop_frames [OF assms(1,2), of "[]" "[]"]
  by (simp add: scan_reverse_def scan_forward_def)

theorem reverse_scan_agrees_witness:
  "scan_reverse sample_integrity (sample_frame [1, 2, 3] @ sample_frame [1, 2, 3]) draft_defaults
    = scan_forward sample_integrity (sample_frame [1, 2, 3] @ sample_frame [1, 2, 3]) draft_defaults"
proof -
  let ?w = "sample_frame [1, 2, 3]"
  obtain f where f: "decodes sample_integrity draft_defaults ?w f" using sample_decodes by blast
  have "rust_slice (concat [?w, ?w])" by (simp add: rust_slice_def sample_frame_len)
  with reverse_scan_agrees [of sample_integrity draft_defaults "[?w, ?w]" "[f, f]"] f sample_suffix_clean
  show ?thesis by simp
qed

text \<open>C24: the gap of the reverse scan is real. A source that ends in an end magic its window
  cannot complete is reported as garbage up to the magic and a one-byte hole; the seven bytes
  after it belong to no region.\<close>

theorem reverse_scan_leaves_gap:
  "regions (scan_reverse I (replicate 48 0 @ END_MAGIC) limits) =
     [garbage 0 48, Hole (range_new 48 49) (DamagedCandidate 48 (Truncated 104 56))]"
proof -
  let ?bs = "replicate 48 0 @ END_MAGIC"
  have "find_end_magic_rightmost ?bs 56 = Some 48"
    by (rule find_end_magic_eq) (auto simp: magic_at_def)
  then have "scan_reverse_loop I ?bs limits 56 [] =
      [Hole (range_new 48 49) (DamagedCandidate 48 (Truncated 104 56)), garbage 0 48]"
    by (simp add: scan_reverse_loop.simps [of I ?bs limits 56] try_reverse_candidate_def
        scan_reverse_loop.simps [of I ?bs limits 48] FRAME_SUFFIX_LEN_def classify_failure_def)
  then show ?thesis
    by (simp add: scan_reverse_def coalesce_adjacent_garbage_def garbage_def)
qed

text \<open>A buffer is a sequence of decodable frames in at most one way: two sequences with the
  same bytes have the same frames at the same boundaries.\<close>

lemma frame_sequences_unique:
  assumes "list_all2 (decodes I limits) us fs" and "list_all2 (decodes I limits) vs gs"
    and "rust_slice (concat us)" and "concat us = concat vs"
  shows "us = vs \<and> fs = gs"
proof -
  have slice: "rust_slice w" if "rust_slice (concat ws)" "w \<in> set ws" for ws and w :: bytes
    using that by (auto simp: rust_slice_def in_set_conv_decomp)
  have "\<forall>w \<in> set ws. \<exists>x. parse_frame I limits w = Inr (x, length w)"
    if "list_all2 (decodes I limits) ws xs" "rust_slice (concat ws)" for ws xs
    using that slice [OF that(2)] by (fastforce simp: list_all2_conv_all_nth in_set_conv_nth
        dest: decodes_parse)
  then have "us = vs" using assms by (intro frames.concat_unique [of us I limits vs]) auto
  moreover have "fs = gs"
    using assms(1,2) \<open>us = vs\<close> by (auto simp: list_all2_conv_all_nth decodes_def list_eq_iff_nth_eq)
  ultimately show ?thesis by blast
qed

end
