(* ===== verification/Segment.thy ===== *)
theory Segment
  imports Scan
begin

text \<open>
  Active and sealed segments, \<^verbatim>\<open>crates/residiuum-format/src/segment.rs\<close>.

  An operation with \<^verbatim>\<open>&mut self\<close> takes the segment and returns the new one beside its result;
  where it fails the segment is unchanged, because the encoder checks everything before it
  writes its first byte. Vector capacities are not modelled.
\<close>

section \<open>Data\<close>

definition DESCRIPTOR_BODY_LEN :: nat where "DESCRIPTOR_BODY_LEN = 16 + 16 + 8 + 4 + 8 + 8"
definition SUMMARY_BODY_LEN :: nat where "SUMMARY_BODY_LEN = 16 + 16 + 8 + 8"

record segment_id =
  sid_store_id :: bytes
  sid_segment_id :: bytes

datatype segment_error =
    FrameError frame_verify_error
  | AlreadySealed
  | MissingDescriptor
  | ReservedKind u8
  | InvalidEnvelope
  | CheckpointMismatch

record active_segment_checkpoint =
  cp_base_offset :: u64
  cp_retained_len :: nat
  cp_writer_sequence :: u64
  cp_frame_count :: u64
  cp_sealed :: bool

record active_segment =
  seg_ids :: segment_id
  seg_limits :: safety_limits
  seg_bytes :: bytes
  seg_base_offset :: u64
  seg_writer_sequence :: u64
  seg_frame_count :: u64
  seg_sealed :: bool
  seg_created_ns :: u64

record sealed_segment =
  sealed_ids :: segment_id
  sealed_limits :: safety_limits
  sealed_bytes :: bytes
  sealed_frame_count :: u64
  sealed_created_ns :: u64

section \<open>Bodies\<close>

definition encode_descriptor_body :: "segment_id \<Rightarrow> u64 \<Rightarrow> safety_limits \<Rightarrow> bytes" where
  "encode_descriptor_body ids created_ns limits =
     sid_store_id ids @ sid_segment_id ids @ to_le_bytes created_ns
     @ to_le_bytes (max_envelope_len limits) @ to_le_bytes (max_body_len limits)
     @ to_le_bytes (max_frame_len limits)"

definition decode_descriptor_body :: "bytes \<Rightarrow> (segment_id \<times> u64 \<times> safety_limits) option" where
  "decode_descriptor_body body =
     (if length body \<noteq> DESCRIPTOR_BODY_LEN then None
      else Some (\<lparr>sid_store_id = subslice 0 16 body, sid_segment_id = subslice 16 32 body\<rparr>,
        from_le_bytes (subslice 32 40 body),
        \<lparr>max_envelope_len = from_le_bytes (subslice 40 44 body),
         max_body_len = from_le_bytes (subslice 44 52 body),
         max_frame_len = from_le_bytes (subslice 52 60 body)\<rparr>))"

definition encode_summary_body :: "segment_id \<Rightarrow> u64 \<Rightarrow> u64 \<Rightarrow> bytes" where
  "encode_summary_body ids sealed_byte_len frame_count =
     sid_store_id ids @ sid_segment_id ids @ to_le_bytes sealed_byte_len @ to_le_bytes frame_count"

definition decode_summary_body :: "bytes \<Rightarrow> (segment_id \<times> u64 \<times> u64) option" where
  "decode_summary_body body =
     (if length body \<noteq> SUMMARY_BODY_LEN then None
      else Some (\<lparr>sid_store_id = subslice 0 16 body, sid_segment_id = subslice 16 32 body\<rparr>,
        from_le_bytes (subslice 32 40 body), from_le_bytes (subslice 40 48 body)))"

definition STORE_DESCRIPTOR_BODY_LEN :: nat where "STORE_DESCRIPTOR_BODY_LEN = 16 + 8 + 4 + 4"
definition STORE_DESCRIPTOR_FORMAT_TAG :: u32 where "STORE_DESCRIPTOR_FORMAT_TAG = 1"

definition encode_store_descriptor_body :: "bytes \<Rightarrow> u64 \<Rightarrow> bytes" where
  "encode_store_descriptor_body store_id created_ns =
     store_id @ to_le_bytes created_ns @ to_le_bytes STORE_DESCRIPTOR_FORMAT_TAG @ to_le_bytes (0 :: u32)"

definition decode_store_descriptor_body :: "bytes \<Rightarrow> (bytes \<times> u64 \<times> u32) option" where
  "decode_store_descriptor_body body =
     (if length body \<noteq> STORE_DESCRIPTOR_BODY_LEN then None
      else let store_id = subslice 0 16 body;
               created_ns = from_le_bytes (subslice 16 24 body);
               format_tag = from_le_bytes (subslice 24 28 body);
               reserved = from_le_bytes (subslice 28 32 body) :: u32
           in if reserved \<noteq> 0 then None else Some (store_id, created_ns, format_tag))"

definition encode_store_descriptor_frame ::
    "'h integrity \<Rightarrow> bytes \<Rightarrow> u64 \<Rightarrow> frame_verify_error + bytes" where
  "encode_store_descriptor_frame I store_id created_ns =
     (let body = encode_store_descriptor_body store_id created_ns;
          header = new_draft StoreDescriptor (len_u32 EMPTY_ENVELOPE) (len_u64 body) store_id
      in encode_frame I \<lparr>parts_header = header, parts_envelope = EMPTY_ENVELOPE, parts_body = body\<rparr>)"

section \<open>Active segment\<close>

definition seg_len :: "active_segment \<Rightarrow> u64" where
  "seg_len s = saturating_add (seg_base_offset s) (len_u64 (seg_bytes s))"

definition seg_is_empty :: "active_segment \<Rightarrow> bool" where
  "seg_is_empty s \<longleftrightarrow> seg_len s = 0"

definition append_raw :: "'h integrity \<Rightarrow> active_segment \<Rightarrow> frame_kind \<Rightarrow> bytes \<Rightarrow> bytes \<Rightarrow> bytes \<Rightarrow>
    segment_error + u64 \<times> active_segment" where
  "append_raw I self kind envelope body ev =
     (let header = \<lparr>wire_major = WIRE_MAJOR, wire_minor = WIRE_MINOR, hdr_kind = kind_as_u8 kind,
            hdr_flags = FrameFlags 0, envelope_len = len_u32 envelope, body_len = len_u64 body,
            logical_len = len_u64 body, writer_sequence = seg_writer_sequence self, event_id = ev\<rparr>
      in if \<not> accepts_lengths (seg_limits self) (envelope_len header) (body_len header)
      then Inl (FrameError LengthsOutOfLimits)
      else let offset = saturating_add (seg_base_offset self) (len_u64 (seg_bytes self)) in
        and_then (map_err FrameError (encode_frame_into I (seg_bytes self) header envelope body)) (\<lambda>out.
          Inr (offset, self\<lparr>seg_bytes := out,
            seg_writer_sequence := saturating_add (seg_writer_sequence self) 1,
            seg_frame_count := saturating_add (seg_frame_count self) 1\<rparr>)))"

definition create_with_descriptor_envelope ::
    "'h integrity \<Rightarrow> segment_id \<Rightarrow> safety_limits \<Rightarrow> u64 \<Rightarrow> bytes \<Rightarrow> segment_error + active_segment" where
  "create_with_descriptor_envelope I ids limits created_ns envelope =
     and_then (map_err (\<lambda>_. InvalidEnvelope) (validate_deterministic_cbor_envelope envelope)) (\<lambda>_.
       let seg = \<lparr>seg_ids = ids, seg_limits = limits, seg_bytes = [], seg_base_offset = 0,
             seg_writer_sequence = 0, seg_frame_count = 0, seg_sealed = False,
             seg_created_ns = created_ns\<rparr>;
           body = encode_descriptor_body ids created_ns limits;
           ev = copy_at 0 (sid_segment_id ids) (replicate 16 0)
       in and_then (append_raw I seg SegmentDescriptor envelope body ev) (\<lambda>(_, seg'). Inr seg'))"

definition segment_create ::
    "'h integrity \<Rightarrow> segment_id \<Rightarrow> safety_limits \<Rightarrow> u64 \<Rightarrow> segment_error + active_segment" where
  "segment_create I ids limits created_ns =
     create_with_descriptor_envelope I ids limits created_ns EMPTY_ENVELOPE"

definition resume_unsealed ::
    "segment_id \<Rightarrow> safety_limits \<Rightarrow> bytes \<Rightarrow> u64 \<Rightarrow> u64 \<Rightarrow> u64 \<Rightarrow> segment_error + active_segment" where
  "resume_unsealed ids limits bs frame_count writer_seq created_ns =
     (if bs = [] then Inl MissingDescriptor
      else if frame_count = 0 then Inl MissingDescriptor
      else Inr \<lparr>seg_ids = ids, seg_limits = limits, seg_bytes = bs, seg_base_offset = 0,
        seg_writer_sequence = writer_seq, seg_frame_count = frame_count, seg_sealed = False,
        seg_created_ns = created_ns\<rparr>)"

definition checkpoint :: "active_segment \<Rightarrow> active_segment_checkpoint" where
  "checkpoint self = \<lparr>cp_base_offset = seg_base_offset self, cp_retained_len = length (seg_bytes self),
     cp_writer_sequence = seg_writer_sequence self, cp_frame_count = seg_frame_count self,
     cp_sealed = seg_sealed self\<rparr>"

definition restore_checkpoint ::
    "active_segment \<Rightarrow> active_segment_checkpoint \<Rightarrow> segment_error + active_segment" where
  "restore_checkpoint self cp =
     (if seg_base_offset self \<noteq> cp_base_offset cp then Inl CheckpointMismatch
      else if length (seg_bytes self) < cp_retained_len cp then Inl CheckpointMismatch
      else Inr (self\<lparr>seg_bytes := take (cp_retained_len cp) (seg_bytes self),
        seg_writer_sequence := cp_writer_sequence cp, seg_frame_count := cp_frame_count cp,
        seg_sealed := cp_sealed cp\<rparr>))"

definition append_preencoded_frame ::
    "active_segment \<Rightarrow> bytes \<Rightarrow> segment_error + u64 \<times> active_segment" where
  "append_preencoded_frame self frame =
     (if seg_sealed self then Inl AlreadySealed
      else if frame = [] then Inl MissingDescriptor
      else Inr (saturating_add (seg_base_offset self) (len_u64 (seg_bytes self)),
        self\<lparr>seg_bytes := seg_bytes self @ frame,
          seg_writer_sequence := saturating_add (seg_writer_sequence self) 1,
          seg_frame_count := saturating_add (seg_frame_count self) 1\<rparr>))"

definition take_unsealed_prefix :: "active_segment \<Rightarrow> bytes option \<times> active_segment" where
  "take_unsealed_prefix self =
     (if seg_sealed self \<or> seg_base_offset self \<noteq> 0 then (None, self)
      else (Some (seg_bytes self), self\<lparr>seg_bytes := []\<rparr>))"

definition discard_through :: "active_segment \<Rightarrow> u64 \<Rightarrow> active_segment" where
  "discard_through self absolute_end =
     (if absolute_end \<le> seg_base_offset self then self
      else let logical = seg_len self; end' = min absolute_end logical;
               drop_n = unat (end' - seg_base_offset self)
      in if drop_n = 0 then self
      else self\<lparr>seg_bytes := (if length (seg_bytes self) \<le> drop_n then [] else drop drop_n (seg_bytes self)),
        seg_base_offset := end'\<rparr>)"

definition segment_append :: "'h integrity \<Rightarrow> active_segment \<Rightarrow> frame_kind \<Rightarrow> bytes \<Rightarrow> bytes \<Rightarrow> bytes \<Rightarrow>
    segment_error + u64 \<times> active_segment" where
  "segment_append I self kind envelope body ev =
     (if seg_sealed self then Inl AlreadySealed
      else case kind of
        SegmentDescriptor \<Rightarrow> Inl (ReservedKind (kind_as_u8 kind))
      | SegmentSummary \<Rightarrow> Inl (ReservedKind (kind_as_u8 kind))
      | _ \<Rightarrow> append_raw I self kind envelope body ev)"

definition append_parts ::
    "'h integrity \<Rightarrow> active_segment \<Rightarrow> frame_parts \<Rightarrow> segment_error + u64 \<times> active_segment" where
  "append_parts I self parts =
     (if seg_sealed self then Inl AlreadySealed
      else if hdr_kind (parts_header parts) = kind_as_u8 SegmentDescriptor
        \<or> hdr_kind (parts_header parts) = kind_as_u8 SegmentSummary
      then Inl (ReservedKind (hdr_kind (parts_header parts)))
      else let header = (parts_header parts)\<lparr>writer_sequence := seg_writer_sequence self\<rparr>;
               offset = saturating_add (seg_base_offset self) (len_u64 (seg_bytes self))
      in and_then (map_err FrameError
           (encode_frame_into I (seg_bytes self) header (parts_envelope parts) (parts_body parts))) (\<lambda>out.
        Inr (offset, self\<lparr>seg_bytes := out,
          seg_writer_sequence := saturating_add (seg_writer_sequence self) 1,
          seg_frame_count := saturating_add (seg_frame_count self) 1\<rparr>)))"

definition segment_seal :: "'h integrity \<Rightarrow> active_segment \<Rightarrow> segment_error + sealed_segment" where
  "segment_seal I self =
     (if seg_sealed self then Inl AlreadySealed
      else if seg_frame_count self = 0 then Inl MissingDescriptor
      else if seg_base_offset self \<noteq> 0 then Inl MissingDescriptor
      else let frames_after = seg_frame_count self + 1;
               ev = copy_at 0 (sid_segment_id (seg_ids self)) (replicate 16 0);
               ev = ev[15 := ev ! 15 XOR 0xff];
               b_len = word_of_nat SUMMARY_BODY_LEN;
               env_len = len_u32 EMPTY_ENVELOPE
      in and_then (ok_or (checked_frame_len env_len b_len) (FrameError LengthsOutOfLimits))
           (\<lambda>summary_frame_len.
        let sealed_len = len_u64 (seg_bytes self) + summary_frame_len;
            body = encode_summary_body (seg_ids self) sealed_len frames_after
        in and_then (append_raw I self SegmentSummary EMPTY_ENVELOPE body ev) (\<lambda>(_, seg).
          Inr \<lparr>sealed_ids = seg_ids seg, sealed_limits = seg_limits seg, sealed_bytes = seg_bytes seg,
            sealed_frame_count = seg_frame_count seg, sealed_created_ns = seg_created_ns seg\<rparr>)))"

section \<open>Body layouts\<close>

definition ids_ok :: "segment_id \<Rightarrow> bool" where
  "ids_ok ids \<longleftrightarrow> length (sid_store_id ids) = 16 \<and> length (sid_segment_id ids) = 16"

lemma length_bodies:
  "ids_ok ids \<Longrightarrow> length (encode_descriptor_body ids c l) = 60"
  "ids_ok ids \<Longrightarrow> length (encode_summary_body ids n k) = 48"
  "length st = 16 \<Longrightarrow> length (encode_store_descriptor_body st c) = 32"
  by (simp_all add: ids_ok_def encode_descriptor_body_def encode_summary_body_def
      encode_store_descriptor_body_def)

lemma decode_descriptor_encode:
  "ids_ok ids \<Longrightarrow> decode_descriptor_body (encode_descriptor_body ids c l) = Some (ids, c, l)"
  by (simp add: decode_descriptor_body_def length_bodies DESCRIPTOR_BODY_LEN_def)
    (simp add: encode_descriptor_body_def ids_ok_def)

lemma decode_summary_encode:
  "ids_ok ids \<Longrightarrow> decode_summary_body (encode_summary_body ids n k) = Some (ids, n, k)"
  by (simp add: decode_summary_body_def length_bodies SUMMARY_BODY_LEN_def)
    (simp add: encode_summary_body_def ids_ok_def)

lemma decode_store_descriptor_encode:
  "length st = 16 \<Longrightarrow> decode_store_descriptor_body (encode_store_descriptor_body st c)
     = Some (st, c, STORE_DESCRIPTOR_FORMAT_TAG)"
  by (simp add: decode_store_descriptor_body_def length_bodies STORE_DESCRIPTOR_BODY_LEN_def)
    (simp add: encode_store_descriptor_body_def)

lemma descriptor_layout:
  "decode_descriptor_body body = Some (ids, c, l) \<longleftrightarrow> ids_ok ids \<and> body = encode_descriptor_body ids c l"
proof
  assume a: "decode_descriptor_body body = Some (ids, c, l)"
  then have len: "length body = 60" by (auto simp: decode_descriptor_body_def DESCRIPTOR_BODY_LEN_def split: if_splits)
  then have "body = subslice 0 16 body @ subslice 16 32 body @ subslice 32 40 body @ subslice 40 44 body
      @ subslice 44 52 body @ subslice 52 60 body" by (simp add: subslice_join)
  with a len show "ids_ok ids \<and> body = encode_descriptor_body ids c l"
    by (auto simp: decode_descriptor_body_def encode_descriptor_body_def ids_ok_def to_from_le_bytes
        split: if_splits)
qed (auto simp: decode_descriptor_encode)

lemma summary_layout:
  "decode_summary_body body = Some (ids, n, k) \<longleftrightarrow> ids_ok ids \<and> body = encode_summary_body ids n k"
proof
  assume a: "decode_summary_body body = Some (ids, n, k)"
  then have len: "length body = 48" by (auto simp: decode_summary_body_def SUMMARY_BODY_LEN_def split: if_splits)
  then have "body = subslice 0 16 body @ subslice 16 32 body @ subslice 32 40 body @ subslice 40 48 body"
    by (simp add: subslice_join)
  with a len show "ids_ok ids \<and> body = encode_summary_body ids n k"
    by (auto simp: decode_summary_body_def encode_summary_body_def ids_ok_def to_from_le_bytes
        split: if_splits)
qed (auto simp: decode_summary_encode)

interpretation desc: canonical_codec "\<lambda>(ids, c, l). Inr (encode_descriptor_body ids c l) :: unit + bytes"
  "\<lambda>bs. ok_or (decode_descriptor_body bs) ()" "\<lambda>(ids, c, l). ids_ok ids"
  by unfold_locales (auto simp: descriptor_layout result_simps)

interpretation summ: canonical_codec "\<lambda>(ids, n, k). Inr (encode_summary_body ids n k) :: unit + bytes"
  "\<lambda>bs. ok_or (decode_summary_body bs) ()" "\<lambda>(ids, n, k). ids_ok ids"
  by unfold_locales (auto simp: summary_layout result_simps)

section \<open>The image of a segment\<close>

text \<open>A segment holds the frames \<open>ws\<close>, which decode to \<open>fs\<close>: its retained bytes are what
  follows the discarded prefix, its counters count the frames, and the frames carry
  consecutive writer sequences.\<close>

definition seg_image :: "'h integrity \<Rightarrow> active_segment \<Rightarrow> bytes list \<Rightarrow> decoded_frame list \<Rightarrow> bool" where
  "seg_image I s ws fs \<longleftrightarrow> list_all2 (decodes I (seg_limits s)) ws fs
     \<and> unat (seg_base_offset s) \<le> length (concat ws)
     \<and> seg_bytes s = drop (unat (seg_base_offset s)) (concat ws)
     \<and> rust_slice (concat ws)
     \<and> seg_frame_count s = word_of_nat (length ws) \<and> seg_writer_sequence s = word_of_nat (length ws)
     \<and> map (\<lambda>f. unat (writer_sequence (frm_header f))) fs = [0..<length ws]"

definition seg_fits :: "active_segment \<Rightarrow> bool" where
  "seg_fits s \<longleftrightarrow> unat (seg_base_offset s) + length (seg_bytes s) < 2 ^ 63"

lemma decodes_len: "decodes I limits w f \<Longrightarrow> rust_slice w \<Longrightarrow> 120 \<le> length w"
  using decode_frame_try [of I w limits f] try_candidate_ok(1) [of I w 0 limits f "frm_len f"]
  by (simp add: decodes_def)

lemma frames_len: "list_all2 (decodes I limits) ws fs \<Longrightarrow> rust_slice (concat ws) \<Longrightarrow>
    120 * length ws \<le> length (concat ws)"
proof (induction ws fs rule: list_all2_induct)
  case (Cons w ws f fs)
  then show ?case using rust_slice_concat [of w ws] decodes_len [of I limits w f] by simp
qed simp

lemma saturating_Suc:
  "n < 2 ^ 63 \<Longrightarrow> saturating_add (word_of_nat n) 1 = (word_of_nat (Suc n) :: u64)"
  by (simp add: saturating_add_def unat_of_nat)

lemma seg_len_image:
  assumes "seg_image I s ws fs"
  shows "saturating_add (seg_base_offset s) (len_u64 (seg_bytes s)) = word_of_nat (length (concat ws))"
    and "unat (seg_len s) = length (concat ws)"
proof -
  from assms have b: "unat (seg_base_offset s) + length (seg_bytes s) = length (concat ws)"
    and r: "length (concat ws) < 2 ^ 63" by (auto simp: seg_image_def rust_slice_def)
  then have "unat (len_u64 (seg_bytes s)) = length (seg_bytes s)"
    by (intro unat_len_u64) (simp add: rust_slice_def)
  with b r have u: "unat (saturating_add (seg_base_offset s) (len_u64 (seg_bytes s))) = length (concat ws)"
    by (simp add: unat_saturating_add)
  then show "saturating_add (seg_base_offset s) (len_u64 (seg_bytes s)) = word_of_nat (length (concat ws))"
    by (simp flip: u)
  from u show "unat (seg_len s) = length (concat ws)" by (simp add: seg_len_def)
qed

lemma append_raw_frame:
  assumes I: "blake3_documented I" "\<not> diagnostic_skip_body_hash I"
    and op: "length env < 2 ^ 32" "rust_slice body" "length ev = 16"
    and ok: "append_raw I s kind env body ev = Inr (off, t)"
  obtains w h where "t = s\<lparr>seg_bytes := seg_bytes s @ w,
        seg_writer_sequence := saturating_add (seg_writer_sequence s) 1,
        seg_frame_count := saturating_add (seg_frame_count s) 1\<rparr>"
    and "off = saturating_add (seg_base_offset s) (len_u64 (seg_bytes s))"
    and "h = \<lparr>wire_major = WIRE_MAJOR, wire_minor = WIRE_MINOR, hdr_kind = kind_as_u8 kind,
            hdr_flags = FrameFlags 0, envelope_len = len_u32 env, body_len = len_u64 body,
            logical_len = len_u64 body, writer_sequence = seg_writer_sequence s, event_id = ev\<rparr>"
    and "length w = 120 + length env + length body"
    and "decodes I (seg_limits s) w \<lparr>frm_header = h, frm_envelope = env, frm_body = body,
           frm_body_hash = blake3_hash I body, frm_len = len_u64 w\<rparr>"
proof -
  define h where "h = \<lparr>wire_major = WIRE_MAJOR, wire_minor = WIRE_MINOR, hdr_kind = kind_as_u8 kind,
            hdr_flags = FrameFlags 0, envelope_len = len_u32 env, body_len = len_u64 body,
            logical_len = len_u64 body, writer_sequence = seg_writer_sequence s, event_id = ev\<rparr>"
  from ok obtain out where l: "accepts_lengths (seg_limits s) (envelope_len h) (body_len h)"
    and e: "encode_frame_into I (seg_bytes s) h env body = Inr out"
    and t: "t = s\<lparr>seg_bytes := out, seg_writer_sequence := saturating_add (seg_writer_sequence s) 1,
        seg_frame_count := saturating_add (seg_frame_count s) 1\<rparr>"
      "off = saturating_add (seg_base_offset s) (len_u64 (seg_bytes s))"
    unfolding append_raw_def h_def by (auto simp: result_simps Let_def split: if_splits)
  have v: "validate_deterministic_cbor_envelope env = Inr ()"
    using e by (auto simp: encode_frame_into_def result_simps split: if_splits)
  have "unat (envelope_len h) = length env" "unat (body_len h) = length body"
    using op by (simp_all add: h_def unat_len_u32 unat_len_u64)
  moreover have "120 + unat (envelope_len h) + unat (body_len h) < 2 ^ 64"
    using l unsigned_less [of "max_frame_len (seg_limits s)", where 'a = nat]
    by (simp add: accepts_lengths_iff)
  ultimately have ok': "frame_lengths_ok h env body"
    using op(3) by (simp add: frame_lengths_ok_def h_def)
  have m: "wire_major h = WIRE_MAJOR" by (simp add: h_def)
  define w where "w = frame_image I h env body (replicate 4 0) (replicate 4 0)"
  note len = length_frame_image [OF documented_hash_len [OF I(1)] ok', of "replicate 4 0" "replicate 4 0"]
  have "out = seg_bytes s @ w"
    using encode_frame_into_ok [OF I ok' m v, of "seg_bytes s"] e by (simp add: w_def)
  moreover have lw: "length w = 120 + length env + length body" using len by (simp add: w_def)
  moreover have "len_u64 w = 120 + ucast (envelope_len h) + body_len h"
    using lw frame_lengths_eqs(4) [OF ok'] by (intro len_u64_unat) simp
  then have "decodes I (seg_limits s) w \<lparr>frm_header = h, frm_envelope = env, frm_body = body,
           frm_body_hash = blake3_hash I body, frm_len = len_u64 w\<rparr>"
    using verify_frame_image [OF documented_hash_len [OF I(1)] ok' m v l, of "replicate 4 0" "replicate 4 0" "[]"]
    by (simp add: decodes_def decode_frame_def w_def)
  ultimately show ?thesis using that t h_def by blast
qed

lemma append_raw_succeeds:
  assumes I: "blake3_documented I" "\<not> diagnostic_skip_body_hash I"
    and op: "length env < 2 ^ 32" "rust_slice body" "length ev = 16"
    and v: "validate_deterministic_cbor_envelope env = Inr ()"
    and l: "accepts_lengths (seg_limits s) (len_u32 env) (len_u64 body)"
  shows "\<exists>w. append_raw I s kind env body ev =
    Inr (saturating_add (seg_base_offset s) (len_u64 (seg_bytes s)), s\<lparr>seg_bytes := seg_bytes s @ w,
      seg_writer_sequence := saturating_add (seg_writer_sequence s) 1,
      seg_frame_count := saturating_add (seg_frame_count s) 1\<rparr>)
    \<and> length w = 120 + length env + length body"
proof -
  define h where "h = \<lparr>wire_major = WIRE_MAJOR, wire_minor = WIRE_MINOR, hdr_kind = kind_as_u8 kind,
            hdr_flags = FrameFlags 0, envelope_len = len_u32 env, body_len = len_u64 body,
            logical_len = len_u64 body, writer_sequence = seg_writer_sequence s, event_id = ev\<rparr>"
  have "120 + unat (len_u32 env) + unat (len_u64 body) < 2 ^ 64"
    using l unsigned_less [of "max_frame_len (seg_limits s)", where 'a = nat]
    by (simp add: accepts_lengths_iff)
  then have ok: "frame_lengths_ok h env body"
    using op by (simp add: frame_lengths_ok_def h_def unat_len_u32 unat_len_u64)
  have "encode_frame_into I (seg_bytes s) h env body
      = Inr (seg_bytes s @ frame_image I h env body (replicate 4 0) (replicate 4 0))"
    using encode_frame_into_ok [OF I ok _ v] by (simp add: h_def)
  then have "append_raw I s kind env body ev = Inr (saturating_add (seg_base_offset s) (len_u64 (seg_bytes s)),
      s\<lparr>seg_bytes := seg_bytes s @ frame_image I h env body (replicate 4 0) (replicate 4 0),
      seg_writer_sequence := saturating_add (seg_writer_sequence s) 1,
      seg_frame_count := saturating_add (seg_frame_count s) 1\<rparr>)"
    using l unfolding append_raw_def h_def by (simp add: Let_def)
  moreover have "length (frame_image I h env body (replicate 4 0) (replicate 4 0)) = 120 + length env + length body"
    using length_frame_image [OF documented_hash_len [OF I(1)] ok] by simp
  ultimately show ?thesis by blast
qed

lemma seg_image_snoc:
  assumes im: "seg_image I s ws fs" and fits: "length (concat ws) + length w < 2 ^ 63"
    and dec: "decodes I (seg_limits s) w f" and seq: "writer_sequence (frm_header f) = seg_writer_sequence s"
    and t: "t = s\<lparr>seg_bytes := seg_bytes s @ w,
        seg_writer_sequence := saturating_add (seg_writer_sequence s) 1,
        seg_frame_count := saturating_add (seg_frame_count s) 1\<rparr>"
  shows "seg_image I t (ws @ [w]) (fs @ [f])"
proof -
  have "length ws \<le> length (concat ws)"
    using im frames_len [of I "seg_limits s" ws fs] by (simp add: seg_image_def)
  then have n: "length ws < 2 ^ 63" using fits by simp
  moreover have "length fs = length ws" using im by (auto simp: seg_image_def dest: list_all2_lengthD)
  ultimately show ?thesis using assms
    by (auto simp: seg_image_def saturating_Suc list_all2_appendI rust_slice_def unat_of_nat)
qed

lemma append_body_hashed_fst: "fst (append_body_hashed I out body) = out @ body"
  using hash_chunks_spec [of I body 0 "hasher_new I" out]
  by (auto simp: append_body_hashed_def split: prod.splits)

lemma encode_frame_into_extends:
  "encode_frame_into I out h env body = Inr out' \<Longrightarrow> \<exists>w. out' = out @ w"
  by (auto simp: encode_frame_into_def Let_def result_simps case_prod_unfold append_body_hashed_fst
      split: if_splits)

lemma append_raw_extends:
  "append_raw I s kind env body ev = Inr (off, t) \<Longrightarrow>
     (\<exists>w. seg_bytes t = seg_bytes s @ w) \<and> seg_base_offset t = seg_base_offset s"
  by (auto simp: append_raw_def Let_def result_simps split: if_splits dest!: encode_frame_into_extends)

section \<open>Histories of a segment\<close>

datatype seg_op =
    SegAppend frame_kind bytes bytes bytes
  | SegDiscard u64

definition seg_step :: "'h integrity \<Rightarrow> active_segment \<Rightarrow> seg_op \<Rightarrow> segment_error + active_segment" where
  "seg_step I s op =
     (case op of
        SegAppend kind env body ev \<Rightarrow> and_then (segment_append I s kind env body ev) (\<lambda>(off, t). Inr t)
      | SegDiscard n \<Rightarrow> Inr (discard_through s n))"

fun seg_op_ok :: "seg_op \<Rightarrow> bool" where
  "seg_op_ok (SegAppend kind env body ev) \<longleftrightarrow> length env < 2 ^ 32 \<and> rust_slice body \<and> length ev = 16"
| "seg_op_ok (SegDiscard n) \<longleftrightarrow> True"

type_synonym content = "u8 \<times> bytes \<times> bytes \<times> bytes"

definition frame_content :: "decoded_frame \<Rightarrow> content" where
  "frame_content f = (hdr_kind (frm_header f), frm_envelope f, frm_body f, event_id (frm_header f))"

fun op_content :: "seg_op \<Rightarrow> content option" where
  "op_content (SegAppend kind env body ev) = Some (kind_as_u8 kind, env, body, ev)"
| "op_content (SegDiscard n) = None"

lemma discard_image:
  assumes "seg_image I s ws fs"
  shows "seg_image I (discard_through s n) ws fs"
proof (cases "discard_through s n = s")
  case False
  let ?b = "seg_base_offset s" and ?e = "min n (seg_len s)"
  note len = seg_len_image(2) [OF assms]
  from assms have b: "unat ?b \<le> length (concat ws)" by (simp add: seg_image_def)
  from False have n: "?b < n" by (auto simp: discard_through_def split: if_splits)
  then have be: "?b \<le> ?e" "unat ?e \<le> length (concat ws)"
    using b len by (auto simp: word_le_nat_alt word_less_nat_alt min_def)
  then have d: "unat (?e - ?b) = unat ?e - unat ?b" by (simp add: unat_sub)
  have "discard_through s n = s\<lparr>seg_bytes := drop (unat ?e - unat ?b) (seg_bytes s), seg_base_offset := ?e\<rparr>"
    using False n d by (auto simp: discard_through_def Let_def)
  moreover have "drop (unat ?e - unat ?b) (seg_bytes s) = drop (unat ?e) (concat ws)"
    using assms be(1) by (simp add: seg_image_def word_le_nat_alt)
  ultimately show ?thesis using assms be(2) by (simp add: seg_image_def)
qed (simp add: assms)

lemma append_image:
  assumes I: "blake3_documented I" "\<not> diagnostic_skip_body_hash I" and im: "seg_image I s ws fs"
    and op: "length env < 2 ^ 32" "rust_slice body" "length ev = 16"
    and ok: "append_raw I s kind env body ev = Inr (off, t)" and fits: "seg_fits t"
  obtains w f where "seg_image I t (ws @ [w]) (fs @ [f])" and "off = word_of_nat (length (concat ws))"
    and "frame_content f = (kind_as_u8 kind, env, body, ev)" and "seg_bytes t = seg_bytes s @ w"
    and "length w = 120 + length env + length body"
    and "seg_frame_count t = word_of_nat (Suc (length ws))" and "seg_base_offset t = seg_base_offset s"
    and "seg_sealed t = seg_sealed s" and "seg_ids t = seg_ids s" and "seg_limits t = seg_limits s"
  using I op ok
proof (rule append_raw_frame)
  fix w h
  assume t: "t = s\<lparr>seg_bytes := seg_bytes s @ w,
        seg_writer_sequence := saturating_add (seg_writer_sequence s) 1,
        seg_frame_count := saturating_add (seg_frame_count s) 1\<rparr>"
    and off: "off = saturating_add (seg_base_offset s) (len_u64 (seg_bytes s))"
    and h: "h = \<lparr>wire_major = WIRE_MAJOR, wire_minor = WIRE_MINOR, hdr_kind = kind_as_u8 kind,
            hdr_flags = FrameFlags 0, envelope_len = len_u32 env, body_len = len_u64 body,
            logical_len = len_u64 body, writer_sequence = seg_writer_sequence s, event_id = ev\<rparr>"
    and w: "length w = 120 + length env + length body"
    and dec: "decodes I (seg_limits s) w \<lparr>frm_header = h, frm_envelope = env, frm_body = body,
           frm_body_hash = blake3_hash I body, frm_len = len_u64 w\<rparr>" (is "decodes _ _ _ ?f")
  have "length (concat ws) + length w < 2 ^ 63"
    using fits im t by (auto simp: seg_fits_def seg_image_def)
  from seg_image_snoc [OF im this dec _ t] have im': "seg_image I t (ws @ [w]) (fs @ [?f])" by (simp add: h)
  then have "seg_frame_count t = word_of_nat (Suc (length ws))" by (simp add: seg_image_def)
  with im' show ?thesis
    using that [OF im' _ _ _ w] seg_len_image(1) [OF im] off t by (simp add: h frame_content_def)
qed

lemma seg_append_cases:
  "segment_append I s kind env body ev = Inr (off, t) \<Longrightarrow>
     append_raw I s kind env body ev = Inr (off, t) \<and> \<not> seg_sealed s
     \<and> kind \<noteq> SegmentDescriptor \<and> kind \<noteq> SegmentSummary"
  by (cases kind) (auto simp: segment_append_def split: if_splits)

lemma discard_fits: "seg_fits (discard_through s n) = seg_fits s"
proof (cases "discard_through s n = s")
  case False
  let ?b = "seg_base_offset s" and ?e = "min n (seg_len s)"
  from False have n: "?b < n" by (auto simp: discard_through_def split: if_splits)
  have "unat (len_u64 (seg_bytes s)) \<le> length (seg_bytes s)" by (simp add: len_u64_def unat_of_nat)
  then have "unat (seg_len s) \<le> unat ?b + length (seg_bytes s)" "?b \<le> seg_len s"
    using unsigned_less [of ?b, where 'a = nat]
    by (simp_all add: seg_len_def unat_saturating_add word_le_nat_alt)
  then have be: "?b \<le> ?e" "unat ?e \<le> unat ?b + length (seg_bytes s)"
    using n by (auto simp: word_le_nat_alt word_less_nat_alt min_def)
  then have d: "unat (?e - ?b) = unat ?e - unat ?b" by (simp add: unat_sub)
  have "discard_through s n = s\<lparr>seg_bytes := drop (unat ?e - unat ?b) (seg_bytes s), seg_base_offset := ?e\<rparr>"
    using False n d by (auto simp: discard_through_def Let_def)
  then show ?thesis using be by (simp add: seg_fits_def word_le_nat_alt add.commute)
qed simp

lemma seg_step_image:
  assumes I: "blake3_documented I" "\<not> diagnostic_skip_body_hash I" and im: "seg_image I s ws fs"
    and op: "seg_op_ok op" and step: "seg_step I s op = Inr t" and fits: "seg_fits t"
  shows "\<exists>us gs. seg_image I t (ws @ us) (fs @ gs)
    \<and> map frame_content gs = List.map_filter op_content [op] \<and> seg_ids t = seg_ids s
    \<and> seg_limits t = seg_limits s \<and> seg_sealed t = seg_sealed s"
proof (cases op)
  case (SegAppend kind env body ev)
  with step obtain off where "segment_append I s kind env body ev = Inr (off, t)"
    by (auto simp: seg_step_def result_simps)
  then have ok: "append_raw I s kind env body ev = Inr (off, t)" by (simp add: seg_append_cases)
  have o: "length env < 2 ^ 32" "rust_slice body" "length ev = 16" using op SegAppend by simp_all
  from I im o ok fits obtain w f where "seg_image I t (ws @ [w]) (fs @ [f])"
      "frame_content f = (kind_as_u8 kind, env, body, ev)"
      "seg_sealed t = seg_sealed s" "seg_ids t = seg_ids s" "seg_limits t = seg_limits s"
    by (rule append_image)
  then show ?thesis using SegAppend
    by (intro exI [of _ "[w]"] exI [of _ "[f]"]) simp
next
  case (SegDiscard n)
  then have t: "t = discard_through s n" using step by (simp add: seg_step_def)
  then have "seg_ids t = seg_ids s \<and> seg_limits t = seg_limits s \<and> seg_sealed t = seg_sealed s"
    by (simp add: discard_through_def Let_def)
  then show ?thesis using discard_image [OF im, of n] t SegDiscard
    by (intro exI [of _ "[]"]) simp
qed

lemma seg_step_fits:
  assumes "seg_step I s op = Inr t" and "seg_fits t"
  shows "seg_fits s"
  using assms discard_fits
  by (cases op) (auto simp: seg_step_def result_simps seg_fits_def
      dest!: seg_append_cases append_raw_extends)

lemma seal_fits: "segment_seal I s = Inr z \<Longrightarrow> rust_slice (sealed_bytes z) \<Longrightarrow> seg_fits s"
  by (auto simp: segment_seal_def Let_def result_simps seg_fits_def rust_slice_def split: if_splits
      dest!: append_raw_extends)

lemma seg_run_image:
  assumes I: "blake3_documented I" "\<not> diagnostic_skip_body_hash I"
  shows "run_steps (seg_step I) s ops = Inr t \<Longrightarrow> list_all seg_op_ok ops \<Longrightarrow> seg_fits t \<Longrightarrow>
    seg_fits s \<and> (seg_image I s ws fs \<longrightarrow> (\<exists>us gs. seg_image I t (ws @ us) (fs @ gs)
      \<and> map frame_content gs = List.map_filter op_content ops \<and> seg_ids t = seg_ids s
      \<and> seg_limits t = seg_limits s \<and> seg_sealed t = seg_sealed s))"
proof (induction ops arbitrary: s ws fs)
  case Nil
  then show ?case by (auto intro!: exI [of _ "[]"])
next
  case (Cons op ops)
  then obtain r where r: "seg_step I s op = Inr r" "run_steps (seg_step I) r ops = Inr t"
    by (auto simp: result_simps)
  have op: "seg_op_ok op" and ops: "list_all seg_op_ok ops" using Cons.prems(2) by simp_all
  have fr: "seg_fits r" using Cons.IH [OF r(2) ops Cons.prems(3)] by blast
  show ?case
  proof (intro conjI impI)
    show "seg_fits s" using seg_step_fits [OF r(1) fr] .
    assume "seg_image I s ws fs"
    from seg_step_image [OF I this op r(1) fr] obtain us gs where 1: "seg_image I r (ws @ us) (fs @ gs)"
        "map frame_content gs = List.map_filter op_content [op]"
        "seg_ids r = seg_ids s" "seg_limits r = seg_limits s" "seg_sealed r = seg_sealed s" by blast
    from Cons.IH [OF r(2) ops Cons.prems(3), of "ws @ us" "fs @ gs"] 1(1)
    obtain vs hs where 2: "seg_image I t (ws @ us @ vs) (fs @ gs @ hs)"
        "map frame_content hs = List.map_filter op_content ops"
        "seg_ids t = seg_ids r" "seg_limits t = seg_limits r" "seg_sealed t = seg_sealed r" by auto
    show "\<exists>us gs. seg_image I t (ws @ us) (fs @ gs)
      \<and> map frame_content gs = List.map_filter op_content (op # ops) \<and> seg_ids t = seg_ids s
      \<and> seg_limits t = seg_limits s \<and> seg_sealed t = seg_sealed s"
      using 1 2 by (intro exI [of _ "us @ vs"] exI [of _ "gs @ hs"])
        (auto split: option.splits)
  qed
qed

lemma length_event_of [simp]:
  "ids_ok ids \<Longrightarrow> length (copy_at 0 (sid_segment_id ids) (replicate 16 0)) = 16"
  by (simp add: ids_ok_def copy_at_0)

lemma create_image:
  assumes I: "blake3_documented I" "\<not> diagnostic_skip_body_hash I" and ids: "ids_ok ids"
    and env: "length env < 2 ^ 32" and ok: "create_with_descriptor_envelope I ids limits c env = Inr s"
  shows "\<exists>w f. seg_image I s [w] [f] \<and> frame_content f = (kind_as_u8 SegmentDescriptor, env,
      encode_descriptor_body ids c limits, copy_at 0 (sid_segment_id ids) (replicate 16 0))
    \<and> seg_ids s = ids \<and> seg_limits s = limits \<and> \<not> seg_sealed s"
proof -
  define s0 where "s0 = \<lparr>seg_ids = ids, seg_limits = limits, seg_bytes = [], seg_base_offset = 0,
             seg_writer_sequence = 0, seg_frame_count = 0, seg_sealed = False, seg_created_ns = c\<rparr>"
  let ?b = "encode_descriptor_body ids c limits" and ?ev = "copy_at 0 (sid_segment_id ids) (replicate 16 0)"
  from ok obtain off where a: "append_raw I s0 SegmentDescriptor env ?b ?ev = Inr (off, s)"
    by (auto simp: create_with_descriptor_envelope_def Let_def result_simps s0_def)
  have im: "seg_image I s0 [] []" by (simp add: seg_image_def s0_def rust_slice_def)
  have o: "length env < 2 ^ 32" "rust_slice ?b" "length ?ev = 16"
    using env ids by (simp_all add: rust_slice_def length_bodies)
  have fits: "seg_fits s"
    using I o a by (rule append_raw_frame) (use o ids in \<open>simp add: seg_fits_def s0_def length_bodies\<close>)
  from I im o a fits show ?thesis
    by (rule append_image) (auto simp: s0_def)
qed

lemma seal_image:
  assumes I: "blake3_documented I" "\<not> diagnostic_skip_body_hash I" and im: "seg_image I s ws fs"
    and ids: "ids_ok (seg_ids s)" and ok: "segment_seal I s = Inr z" and fits: "rust_slice (sealed_bytes z)"
  obtains w f where "sealed_bytes z = concat (ws @ [w])"
    and "list_all2 (decodes I (seg_limits s)) (ws @ [w]) (fs @ [f])"
    and "unat (sealed_frame_count z) = length (ws @ [w])" and "hdr_kind (frm_header f) = kind_as_u8 SegmentSummary"
    and "frm_body f = encode_summary_body (seg_ids s) (len_u64 (sealed_bytes z)) (sealed_frame_count z)"
    and "unat (writer_sequence (frm_header f)) = length ws" and "sealed_ids z = seg_ids s"
    and "sealed_limits z = seg_limits s"
proof -
  define ev where "ev = copy_at 0 (sid_segment_id (seg_ids s)) (replicate 16 (0 :: byte))"
  define ev' where "ev' = ev[15 := ev ! 15 XOR 0xff]"
  define body where "body = encode_summary_body (seg_ids s) (len_u64 (seg_bytes s) + 169)
    (seg_frame_count s + 1)"
  have "checked_frame_len (len_u32 EMPTY_ENVELOPE) (word_of_nat SUMMARY_BODY_LEN) = Some 169"
    by (simp add: checked_frame_len_iff len_u32_def EMPTY_ENVELOPE_def SUMMARY_BODY_LEN_def)
  with ok obtain off t where a: "append_raw I s SegmentSummary EMPTY_ENVELOPE body ev' = Inr (off, t)"
    and b: "seg_base_offset s = 0" and z: "z = \<lparr>sealed_ids = seg_ids t, sealed_limits = seg_limits t,
        sealed_bytes = seg_bytes t, sealed_frame_count = seg_frame_count t,
        sealed_created_ns = seg_created_ns t\<rparr>"
    by (auto simp: segment_seal_def Let_def result_simps body_def ev_def ev'_def split: if_splits)
  have o: "length EMPTY_ENVELOPE < 2 ^ 32" "rust_slice body" "length ev' = 16"
    using ids by (simp_all add: rust_slice_def length_bodies body_def ev'_def ev_def EMPTY_ENVELOPE_def)
  have "seg_base_offset t = 0" using I o a by (rule append_raw_frame) (use b in simp)
  then have "seg_fits t" using fits z by (simp add: seg_fits_def rust_slice_def)
  from I im o a this show ?thesis
  proof (rule append_image)
    fix w f
    assume t: "seg_image I t (ws @ [w]) (fs @ [f])" "off = word_of_nat (length (concat ws))"
      "frame_content f = (kind_as_u8 SegmentSummary, EMPTY_ENVELOPE, body, ev')"
      "seg_bytes t = seg_bytes s @ w" "length w = 120 + length EMPTY_ENVELOPE + length body"
      "seg_frame_count t = word_of_nat (Suc (length ws))" "seg_ids t = seg_ids s"
      "seg_limits t = seg_limits s"
    have n: "Suc (length ws) < 2 ^ 63"
      using t(1) frames_len [of I "seg_limits t" "ws @ [w]" "fs @ [f]"]
      by (auto simp: seg_image_def rust_slice_def)
    have lb: "length w = 169" using t(5) ids by (simp add: EMPTY_ENVELOPE_def body_def length_bodies)
    have "len_u64 (seg_bytes t) = len_u64 (seg_bytes s) + 169"
      using t(4) lb by (simp add: len_u64_def)
    moreover have "seg_frame_count t = seg_frame_count s + 1"
      using t(6) im by (simp add: seg_image_def)
    moreover have "list_all2 (decodes I (seg_limits s)) (ws @ [w]) (fs @ [f])"
        "sealed_bytes z = concat (ws @ [w])"
      using t(1,8) z b \<open>seg_base_offset t = 0\<close> by (simp_all add: seg_image_def)
    moreover have "unat (sealed_frame_count z) = length (ws @ [w])"
      using z t(6) n by (simp add: unat_of_nat del: of_nat_Suc)
    moreover have "unat (writer_sequence (frm_header f)) = length ws"
      using t(1) im by (auto simp: seg_image_def dest: list_all2_lengthD)
    ultimately show ?thesis
      using that t(3,7,8) z by (simp add: body_def frame_content_def)
  qed
qed

section \<open>Properties\<close>

text \<open>C25: a sealed segment is exactly its history. After creating a segment, any accepted
  sequence of appends and discards, and a successful seal, the forward scan of the sealed bytes
  reports no hole and one frame for the descriptor, each appended content in order, and the
  summary; the descriptor body decodes to the identifiers, creation time and limits, and the
  summary body to the identifiers, the length of the sealed bytes and the number of frames.\<close>

theorem sealed_segment_is_history:
  assumes I: "blake3_documented I" "\<not> diagnostic_skip_body_hash I" and ids: "ids_ok ids"
    and env: "length env < 2 ^ 32" and create: "create_with_descriptor_envelope I ids limits c env = Inr s"
    and ops: "list_all seg_op_ok ops" "run_steps (seg_step I) s ops = Inr t"
    and seal: "segment_seal I t = Inr z" and fits: "rust_slice (sealed_bytes z)"
  shows "\<exists>ws d gs e. regions (scan_forward I (sealed_bytes z) limits) = frame_regions 0 ws (d # gs @ [e])
    \<and> sealed_bytes z = concat ws \<and> length ws = length gs + 2
    \<and> unat (sealed_frame_count z) = length ws
    \<and> decode_descriptor_body (frm_body d) = Some (ids, c, limits)
    \<and> map frame_content gs = List.map_filter op_content ops
    \<and> decode_summary_body (frm_body e) = Some (ids, len_u64 (sealed_bytes z), sealed_frame_count z)"
proof -
  from create_image [OF I ids env create] obtain w d where s: "seg_image I s [w] [d]"
      "frame_content d = (kind_as_u8 SegmentDescriptor, env, encode_descriptor_body ids c limits,
        copy_at 0 (sid_segment_id ids) (replicate 16 0))" "seg_ids s = ids" "seg_limits s = limits" by blast
  from seg_run_image [OF I ops(2,1) seal_fits [OF seal fits], of "[w]" "[d]"] s(1)
  obtain us gs where t: "seg_image I t ([w] @ us) ([d] @ gs)"
      "map frame_content gs = List.map_filter op_content ops" "seg_ids t = seg_ids s"
      "seg_limits t = seg_limits s" by blast
  have "ids_ok (seg_ids t)" using ids s(3) t(3) by simp
  from I t(1) this seal fits show ?thesis
  proof (rule seal_image)
    fix x e
    assume z: "sealed_bytes z = concat (([w] @ us) @ [x])"
      "list_all2 (decodes I (seg_limits t)) (([w] @ us) @ [x]) (([d] @ gs) @ [e])"
      "unat (sealed_frame_count z) = length (([w] @ us) @ [x])"
      "frm_body e = encode_summary_body (seg_ids t) (len_u64 (sealed_bytes z)) (sealed_frame_count z)"
    let ?ws = "w # us @ [x]"
    have z1: "sealed_bytes z = concat ?ws" using z(1) by simp
    have all: "list_all2 (decodes I limits) ?ws (d # gs @ [e])" using z(2) t(4) s(4) by simp
    have "regions (scan_forward I (sealed_bytes z) limits) = frame_regions 0 ?ws (d # gs @ [e])"
      using scan_loop_frames [OF all, of "[]" "[]"] fits unfolding z1 by (simp add: scan_forward_def)
    moreover have "length ?ws = length gs + 2" using list_all2_lengthD [OF all] by simp
    moreover have "decode_descriptor_body (frm_body d) = Some (ids, c, limits)"
      using s(2) decode_descriptor_encode [OF ids] by (simp add: frame_content_def)
    moreover have "decode_summary_body (frm_body e) = Some (ids, len_u64 (sealed_bytes z), sealed_frame_count z)"
      unfolding z(4) t(3) s(3) by (rule decode_summary_encode [OF ids])
    moreover have "unat (sealed_frame_count z) = length ?ws" using z(3) by simp
    ultimately show ?thesis using z1 t(2) by blast
  qed
qed

definition sample_ids :: segment_id where
  "sample_ids = \<lparr>sid_store_id = replicate 16 1, sid_segment_id = replicate 16 2\<rparr>"

definition sample_limits :: safety_limits where
  "sample_limits = \<lparr>max_envelope_len = 100, max_body_len = 200, max_frame_len = 400\<rparr>"

definition sample_ops :: "seg_op list" where
  "sample_ops = [SegAppend ItemEvent EMPTY_ENVELOPE [1, 2, 3] (replicate 16 7), SegDiscard 0]"

lemma sample_history:
  "\<exists>s t z. create_with_descriptor_envelope sample_integrity sample_ids sample_limits 5 EMPTY_ENVELOPE = Inr s
     \<and> run_steps (seg_step sample_integrity) s sample_ops = Inr t
     \<and> segment_seal sample_integrity t = Inr z \<and> length (sealed_bytes z) < 1000"
proof -
  note ok = append_raw_succeeds [OF sample_documented sample_no_skip]
  have env: "length EMPTY_ENVELOPE < 2 ^ 32" by (simp add: EMPTY_ENVELOPE_def)
  have le: "length EMPTY_ENVELOPE = 1" "len_u32 EMPTY_ENVELOPE = 1"
    by (simp_all add: EMPTY_ENVELOPE_def len_u32_def)
  have ids: "ids_ok sample_ids" by (simp add: ids_ok_def sample_ids_def)
  have acc: "accepts_lengths sample_limits (len_u32 EMPTY_ENVELOPE) (len_u64 b)" if "length b \<le> 60" for b :: bytes
  proof -
    have "unat (len_u64 b) = length b" using that by (intro unat_len_u64) (simp add: rust_slice_def)
    with that show ?thesis
      by (simp add: accepts_lengths_iff sample_limits_def le word_le_nat_alt)
  qed
  let ?s0 = "\<lparr>seg_ids = sample_ids, seg_limits = sample_limits, seg_bytes = [], seg_base_offset = 0,
     seg_writer_sequence = 0, seg_frame_count = 0, seg_sealed = False, seg_created_ns = 5\<rparr>"
  obtain s where s: "create_with_descriptor_envelope sample_integrity sample_ids sample_limits 5 EMPTY_ENVELOPE = Inr s"
      "seg_limits s = sample_limits" "seg_ids s = sample_ids" "seg_base_offset s = 0" "\<not> seg_sealed s"
      "length (seg_bytes s) = 181" "seg_frame_count s = 1"
    using ok [OF env _ _ sample_ok(3), of "encode_descriptor_body sample_ids 5 sample_limits"
        "copy_at 0 (sid_segment_id sample_ids) (replicate 16 0)" ?s0 SegmentDescriptor] ids
    by (auto simp: create_with_descriptor_envelope_def sample_ok(3) rust_slice_def acc length_bodies
        le(1) saturating_add_def)
  obtain t where t: "run_steps (seg_step sample_integrity) s sample_ops = Inr t"
      "seg_limits t = sample_limits" "seg_ids t = sample_ids" "seg_base_offset t = 0" "\<not> seg_sealed t"
      "length (seg_bytes t) = 305" "seg_frame_count t = 2"
    using ok [OF env _ _ sample_ok(3), of "[1, 2, 3]" "replicate 16 7" s ItemEvent] s
    by (auto simp: sample_ops_def seg_step_def segment_append_def discard_through_def rust_slice_def acc
        le(1) saturating_add_def)
  let ?ev = "copy_at 0 (sid_segment_id sample_ids) (replicate 16 0)"
  obtain off u w where u: "append_raw sample_integrity t SegmentSummary EMPTY_ENVELOPE
      (encode_summary_body sample_ids (len_u64 (seg_bytes t) + 169) 3)
      (?ev[15 := ?ev ! 15 XOR 0xff]) = Inr (off, u)" "seg_bytes u = seg_bytes t @ w" "length w = 169"
    using ok [OF env _ _ sample_ok(3), of "encode_summary_body sample_ids (len_u64 (seg_bytes t) + 169) 3"
        "?ev[15 := ?ev ! 15 XOR 0xff]" t SegmentSummary] ids t
    by (auto simp: rust_slice_def acc length_bodies le(1))
  have "\<exists>z. segment_seal sample_integrity t = Inr z \<and> length (sealed_bytes z) < 1000"
    using u t by (simp add: segment_seal_def Let_def le SUMMARY_BODY_LEN_def checked_frame_len_def
        checked_add_def)
  with s(1) t(1) show ?thesis by blast
qed

theorem sealed_segment_is_history_witness:
  "\<exists>(z :: sealed_segment) ws d gs e. regions (scan_forward sample_integrity (sealed_bytes z) sample_limits)
      = frame_regions 0 ws (d # gs @ [e]) \<and> unat (sealed_frame_count z) = 3
    \<and> map frame_content gs = [(3, EMPTY_ENVELOPE, [1, 2, 3], replicate 16 7)]"
proof -
  obtain s t z where h: "create_with_descriptor_envelope sample_integrity sample_ids sample_limits 5 EMPTY_ENVELOPE = Inr s"
      "run_steps (seg_step sample_integrity) s sample_ops = Inr t"
      "segment_seal sample_integrity t = Inr z" "length (sealed_bytes z) < 1000"
    using sample_history by blast
  have o: "ids_ok sample_ids" "length EMPTY_ENVELOPE < 2 ^ 32" "list_all seg_op_ok sample_ops"
      "rust_slice (sealed_bytes z)"
    using h(4) by (simp_all add: ids_ok_def sample_ids_def EMPTY_ENVELOPE_def sample_ops_def rust_slice_def)
  have "List.map_filter op_content sample_ops = [(3, EMPTY_ENVELOPE, [1, 2, 3], replicate 16 7)]"
    by (simp add: sample_ops_def)
  note eq = this
  from sealed_segment_is_history [OF sample_documented sample_no_skip o(1,2) h(1) o(3) h(2,3) o(4)]
  obtain ws d gs e where r: "regions (scan_forward sample_integrity (sealed_bytes z) sample_limits)
        = frame_regions 0 ws (d # gs @ [e])" "length ws = length gs + 2"
      "unat (sealed_frame_count z) = length ws"
      "map frame_content gs = List.map_filter op_content sample_ops" by blast
  have "length gs = 1" using arg_cong [OF r(4) [unfolded eq], of length] by simp
  then have "unat (sealed_frame_count z) = 3" using r(2,3) by simp
  with r(1,4) eq show ?thesis by (intro exI conjI) simp_all
qed

text \<open>Appending within the limits always succeeds. An unsealed segment accepts any content
  frame whose envelope is valid and whose lengths its limits accept; it returns the absolute
  offset of the new frame and keeps everything it held.\<close>

lemma append_within_limits_succeeds:
  assumes "blake3_documented I" and "\<not> diagnostic_skip_body_hash I" and "\<not> seg_sealed s"
    and "kind \<noteq> SegmentDescriptor" and "kind \<noteq> SegmentSummary"
    and "length env < 2 ^ 32" and "rust_slice body" and "length ev = 16"
    and "validate_deterministic_cbor_envelope env = Inr ()"
    and "accepts_lengths (seg_limits s) (len_u32 env) (len_u64 body)"
  shows "\<exists>t w. segment_append I s kind env body ev = Inr (seg_len s, t) \<and> seg_bytes t = seg_bytes s @ w
    \<and> length w = 120 + length env + length body"
proof -
  have "segment_append I s kind env body ev = append_raw I s kind env body ev"
    using assms(3-5) by (cases kind) (simp_all add: segment_append_def)
  with append_raw_succeeds [OF assms(1,2,6-10), of kind] show ?thesis
    by (auto simp: seg_len_def)
qed

text \<open>C26: a checkpoint rolls back exactly. After any accepted sequence of appends, restoring the
  checkpoint taken before them gives back the very segment it was taken from.\<close>

theorem checkpoint_rollback:
  assumes "run_steps (\<lambda>u (kind, env, body, ev). and_then (segment_append I u kind env body ev)
      (\<lambda>(off, t). Inr t)) s apps = Inr t"
  shows "restore_checkpoint t (checkpoint s) = Inr s"
proof -
  have "\<exists>w a b. t = s\<lparr>seg_bytes := seg_bytes s @ w, seg_writer_sequence := a, seg_frame_count := b\<rparr>"
    using assms
  proof (induction apps arbitrary: s)
    case Nil
    then show ?case
      by (intro exI [of _ "[]"] exI [of _ "seg_writer_sequence s"] exI [of _ "seg_frame_count s"]) simp
  next
    case (Cons x apps)
    then obtain kind env body ev off u where "segment_append I s kind env body ev = Inr (off, u)"
        and u: "run_steps (\<lambda>u (kind, env, body, ev). and_then (segment_append I u kind env body ev)
          (\<lambda>(off, t). Inr t)) u apps = Inr t" by (cases x) (auto simp: result_simps)
    then have "append_raw I s kind env body ev = Inr (off, u)" by (simp add: seg_append_cases)
    then obtain w a b where "u = s\<lparr>seg_bytes := seg_bytes s @ w, seg_writer_sequence := a, seg_frame_count := b\<rparr>"
      by (auto simp: append_raw_def Let_def result_simps split: if_splits dest!: encode_frame_into_extends)
    with Cons.IH [OF u] show ?case by (auto simp: append.assoc)
  qed
  then show ?thesis by (auto simp: restore_checkpoint_def checkpoint_def)
qed

theorem checkpoint_rollback_witness:
  "\<exists>(s :: active_segment) t. run_steps (\<lambda>u (kind, env, body, ev).
      and_then (segment_append sample_integrity u kind env body ev) (\<lambda>(off, t). Inr t)) s
      [(ItemEvent, EMPTY_ENVELOPE, [1, 2, 3], replicate 16 7)] = Inr t
    \<and> t \<noteq> s \<and> restore_checkpoint t (checkpoint s) = Inr s"
proof -
  define s where "s = \<lparr>seg_ids = sample_ids, seg_limits = draft_defaults, seg_bytes = [], seg_base_offset = 0,
     seg_writer_sequence = 0, seg_frame_count = 0, seg_sealed = False, seg_created_ns = 5\<rparr>"
  have l: "accepts_lengths (seg_limits s) (len_u32 EMPTY_ENVELOPE) (len_u64 [1, 2, 3 :: byte])"
    by (simp add: s_def accepts_lengths_iff draft_defaults_def len_u32_def len_u64_def EMPTY_ENVELOPE_def)
  have o: "length EMPTY_ENVELOPE < 2 ^ 32" "rust_slice [1, 2, 3 :: byte]" "length (replicate 16 (7 :: byte)) = 16"
    by (simp_all add: EMPTY_ENVELOPE_def rust_slice_def)
  obtain off t w where t: "append_raw sample_integrity s ItemEvent EMPTY_ENVELOPE [1, 2, 3] (replicate 16 7) = Inr (off, t)"
      "seg_bytes t = seg_bytes s @ w" "length w = 124"
    using append_raw_succeeds [OF sample_documented sample_no_skip o sample_ok(3) l, of ItemEvent]
    by (auto simp: EMPTY_ENVELOPE_def)
  have r: "run_steps (\<lambda>u (kind, env, body, ev).
      and_then (segment_append sample_integrity u kind env body ev) (\<lambda>(off, t). Inr t)) s
      [(ItemEvent, EMPTY_ENVELOPE, [1, 2, 3], replicate 16 7)] = Inr t"
    using t(1) by (simp add: segment_append_def s_def)
  moreover have "t \<noteq> s" using t(2,3) by auto
  ultimately show ?thesis using checkpoint_rollback [OF r] by blast
qed

text \<open>Releasing a durable prefix changes no address. Discarding through any absolute offset
  keeps the logical length, moves the base to that offset clamped to what the segment holds, and
  keeps exactly the bytes from the new base on.\<close>

lemma discard_keeps_suffix:
  assumes "seg_fits s"
  shows "seg_len (discard_through s n) = seg_len s
    \<and> seg_base_offset (discard_through s n) = max (seg_base_offset s) (min n (seg_len s))
    \<and> seg_bytes (discard_through s n)
      = drop (unat (max (seg_base_offset s) (min n (seg_len s))) - unat (seg_base_offset s)) (seg_bytes s)"
proof -
  let ?b = "seg_base_offset s" and ?t = "discard_through s n"
  have "unat (len_u64 (seg_bytes s)) = length (seg_bytes s)"
    using assms by (intro unat_len_u64) (simp add: seg_fits_def rust_slice_def)
  then have len: "unat (seg_len s) = unat ?b + length (seg_bytes s)"
    using assms by (simp add: seg_len_def unat_saturating_add seg_fits_def)
  then have le: "?b \<le> seg_len s" by (simp add: word_le_nat_alt)
  define e where "e = max ?b (min n (seg_len s))"
  have e: "?b \<le> e" "e \<le> seg_len s" using le by (auto simp: e_def)
  have d: "unat (e - ?b) = unat e - unat ?b" using e(1) by (simp add: unat_sub word_le_nat_alt)
  have t: "seg_base_offset ?t = e \<and> seg_bytes ?t = drop (unat e - unat ?b) (seg_bytes s)"
  proof (cases "n \<le> ?b")
    case True
    then have "e = ?b" by (auto simp: e_def min_def)
    then show ?thesis using True by (simp add: discard_through_def)
  next
    case False
    then have m: "min n (seg_len s) = e" using le by (auto simp: e_def max_def min_def)
    have "unat e = unat ?b \<Longrightarrow> e = ?b" by (simp add: word_unat_eq_iff)
    then show ?thesis using False d e(1) by (auto simp: discard_through_def m Let_def word_le_nat_alt)
  qed
  then have "seg_base_offset ?t = max ?b (min n (seg_len s))"
      "seg_bytes ?t = drop (unat (max ?b (min n (seg_len s))) - unat ?b) (seg_bytes s)"
    by (simp_all add: e_def)
  moreover have el: "unat ?b \<le> unat e" "unat e \<le> unat ?b + length (seg_bytes s)"
    using e len by (simp_all add: word_le_nat_alt)
  then have "unat (len_u64 (seg_bytes ?t)) = length (seg_bytes s) - (unat e - unat ?b)"
    using t assms by (subst unat_len_u64) (simp_all add: seg_fits_def rust_slice_def)
  then have "unat (seg_len ?t) = unat (seg_len s)"
    using t el len assms by (simp add: seg_len_def [of ?t] unat_saturating_add seg_fits_def)
  then have "seg_len ?t = seg_len s" by (simp add: word_unat_eq_iff)
  ultimately show ?thesis by simp
qed

text \<open>C27: appending prepared parts does not consult the limits. An unsealed segment accepts
  well-formed parts of a content kind that its own limits exclude, and the frame it wrote is then
  refused by every reader under those limits.\<close>

theorem append_parts_skips_limits:
  assumes I: "blake3_documented I" "\<not> diagnostic_skip_body_hash I" and "\<not> seg_sealed s"
    and k: "hdr_kind (parts_header p) \<noteq> kind_as_u8 SegmentDescriptor"
      "hdr_kind (parts_header p) \<noteq> kind_as_u8 SegmentSummary"
    and h: "frame_lengths_ok (parts_header p) (parts_envelope p) (parts_body p)"
      "wire_major (parts_header p) = WIRE_MAJOR"
    and v: "validate_deterministic_cbor_envelope (parts_envelope p) = Inr ()"
    and l: "\<not> accepts_lengths (seg_limits s) (envelope_len (parts_header p)) (body_len (parts_header p))"
  shows "\<exists>t. append_parts I s p = Inr (seg_len s, t) \<and>
    verify_frame_at I (drop (length (seg_bytes s)) (seg_bytes t)) (seg_limits s) = Inl LengthsOutOfLimits"
proof -
  define h' where "h' = (parts_header p)\<lparr>writer_sequence := seg_writer_sequence s\<rparr>"
  have h': "frame_lengths_ok h' (parts_envelope p) (parts_body p)" "wire_major h' = WIRE_MAJOR"
      "\<not> accepts_lengths (seg_limits s) (envelope_len h') (body_len h')"
    using h l by (simp_all add: h'_def frame_lengths_ok_def)
  define w where "w = frame_image I h' (parts_envelope p) (parts_body p) (replicate 4 0) (replicate 4 0)"
  have e: "encode_frame_into I (seg_bytes s) h' (parts_envelope p) (parts_body p) = Inr (seg_bytes s @ w)"
    using encode_frame_into_ok [OF I h'(1,2) v] by (simp add: w_def)
  have "length (event_id h') = 16" using h'(1) by (simp add: frame_lengths_ok_def)
  then have "verify_frame_at I w (seg_limits s) = Inl LengthsOutOfLimits"
    using h'(2,3) prefix_fields [of h' "replicate 4 0" I "parts_envelope p"]
    by (simp add: w_def frame_image_def verify_frame_at_def FRAME_PREFIX_LEN_def Let_def)
  with e assms(3) k show ?thesis
    by (simp add: append_parts_def seg_len_def flip: h'_def)
qed

theorem append_parts_skips_limits_witness:
  "\<exists>(s :: active_segment) p t. append_parts sample_integrity s p = Inr (seg_len s, t) \<and>
    verify_frame_at sample_integrity (drop (length (seg_bytes s)) (seg_bytes t)) (seg_limits s) = Inl LengthsOutOfLimits"
proof -
  let ?s = "\<lparr>seg_ids = sample_ids, seg_limits = draft_defaults\<lparr>max_body_len := 2\<rparr>, seg_bytes = [],
     seg_base_offset = 0, seg_writer_sequence = 0, seg_frame_count = 0, seg_sealed = False, seg_created_ns = 5\<rparr>"
  let ?p = "\<lparr>parts_header = sample_header, parts_envelope = EMPTY_ENVELOPE, parts_body = [1, 2, 3]\<rparr>"
  have "\<not> accepts_lengths (seg_limits ?s) (envelope_len (parts_header ?p)) (body_len (parts_header ?p))"
    by (simp add: sample_header_def new_draft_def accepts_lengths_iff)
  moreover have "hdr_kind (parts_header ?p) \<noteq> kind_as_u8 SegmentDescriptor"
      "hdr_kind (parts_header ?p) \<noteq> kind_as_u8 SegmentSummary"
    by (simp_all add: sample_header_def new_draft_def)
  ultimately show ?thesis
    using append_parts_skips_limits [OF sample_documented sample_no_skip, of ?s ?p] sample_ok by force
qed

end
