(* ===== verification/Ordered_Map.thy ===== *)
theory Ordered_Map
  imports Prelude
begin

text \<open>
  The ordered map of the standard library (\<^verbatim>\<open>std::collections::BTreeMap\<close>) as the sources use it:
  lookup, insertion, removal, the entry interface, and iteration in ascending key order. A
  value is the list of its entries in iteration order; \<open>bt_ok\<close> is its invariant. The
  interface \<open>ordered_map\<close> states the laws clients rely on, and carries the grouping lemma that
  event analysis and chunk reassembly share.
\<close>

type_synonym ('k, 'v) btree_map = "('k \<times> 'v) list"

definition bt_ok :: "('k::linorder, 'v) btree_map \<Rightarrow> bool" where
  "bt_ok m \<longleftrightarrow> sorted_wrt (<) (map fst m)"

definition bt_get :: "('k, 'v) btree_map \<Rightarrow> 'k \<Rightarrow> 'v option" where
  "bt_get m k = map_of m k"

fun bt_insert :: "'k::linorder \<Rightarrow> 'v \<Rightarrow> ('k, 'v) btree_map \<Rightarrow> ('k, 'v) btree_map" where
  "bt_insert k v [] = [(k, v)]"
| "bt_insert k v ((a, b) # m) =
     (if k < a then (k, v) # (a, b) # m else if k = a then (a, v) # m else (a, b) # bt_insert k v m)"

definition bt_remove :: "'k \<Rightarrow> ('k, 'v) btree_map \<Rightarrow> ('k, 'v) btree_map" where
  "bt_remove k m = filter (\<lambda>(a, b). a \<noteq> k) m"

text \<open>\<^verbatim>\<open>*m.entry(k).or_insert(d) = f(..)\<close>: modify the value at a key, starting from a default.\<close>

definition bt_upsert :: "'k::linorder \<Rightarrow> 'v \<Rightarrow> ('v \<Rightarrow> 'v) \<Rightarrow> ('k, 'v) btree_map \<Rightarrow> ('k, 'v) btree_map" where
  "bt_upsert k d f m = bt_insert k (f (case bt_get m k of None \<Rightarrow> d | Some v \<Rightarrow> v)) m"

lemma set_bt_insert: "set (map fst (bt_insert k v m)) = insert k (set (map fst m))"
  by (induction k v m rule: bt_insert.induct) auto

lemma bt_ok_Nil [simp]: "bt_ok []"
  by (simp add: bt_ok_def)

lemma bt_ok_Cons: "bt_ok ((a, b) # m) \<longleftrightarrow> (\<forall>k \<in> set (map fst m). a < k) \<and> bt_ok m"
  by (auto simp: bt_ok_def)

lemma bt_ok_insert: "bt_ok m \<Longrightarrow> bt_ok (bt_insert k v m)"
proof (induction k v m rule: bt_insert.induct)
  case (2 k v a b m)
  then show ?case using set_bt_insert [of k v m] by (auto simp: bt_ok_Cons simp del: set_map)
qed (simp add: bt_ok_def)

lemma bt_ok_remove: "bt_ok m \<Longrightarrow> bt_ok (bt_remove k m)"
  by (induction m) (auto simp: bt_remove_def bt_ok_Cons)

lemma bt_get_insert: "bt_ok m \<Longrightarrow> bt_get (bt_insert k v m) = (bt_get m)(k \<mapsto> v)"
  by (induction k v m rule: bt_insert.induct) (auto simp: bt_get_def bt_ok_Cons fun_eq_iff)

lemma bt_get_remove: "bt_get (bt_remove k m) = (bt_get m)(k := None)"
  by (induction m) (auto simp: bt_get_def bt_remove_def fun_eq_iff)

lemma bt_get_set: "bt_ok m \<Longrightarrow> (k, v) \<in> set m \<longleftrightarrow> bt_get m k = Some v"
proof (induction m)
  case (Cons x m)
  obtain a b where x: "x = (a, b)" by (cases x)
  have "a \<notin> fst ` set m" using Cons.prems by (auto simp: x bt_ok_Cons)
  with Cons show ?case by (auto simp: x bt_get_def bt_ok_Cons rev_image_eqI)
qed (simp add: bt_get_def)

lemma in_bt_insert: "bt_ok m \<Longrightarrow> (a, b) \<in> set (bt_insert k v m) \<longleftrightarrow> (if a = k then b = v else (a, b) \<in> set m)"
  using bt_get_set [of m a b] bt_get_set [OF bt_ok_insert, of m a b k v] by (auto simp: bt_get_insert)

section \<open>The interface\<close>

locale ordered_map =
  fixes empty :: 'm
    and get :: "'m \<Rightarrow> 'k::linorder \<Rightarrow> 'v option"
    and ins :: "'k \<Rightarrow> 'v \<Rightarrow> 'm \<Rightarrow> 'm"
    and rem :: "'k \<Rightarrow> 'm \<Rightarrow> 'm"
    and ups :: "'k \<Rightarrow> 'v \<Rightarrow> ('v \<Rightarrow> 'v) \<Rightarrow> 'm \<Rightarrow> 'm"
    and iter :: "'m \<Rightarrow> ('k \<times> 'v) list"
    and ok :: "'m \<Rightarrow> bool"
  assumes ok_empty: "ok empty" and ok_ins: "ok m \<Longrightarrow> ok (ins k v m)" and ok_rem: "ok m \<Longrightarrow> ok (rem k m)"
    and ok_ups: "ok m \<Longrightarrow> ok (ups k d f m)"
    and get_empty: "get empty k = None"
    and get_ins: "ok m \<Longrightarrow> get (ins k v m) = (get m)(k \<mapsto> v)"
    and get_rem: "ok m \<Longrightarrow> get (rem k m) = (get m)(k := None)"
    and get_ups: "ok m \<Longrightarrow> get (ups k d f m) = (get m)(k \<mapsto> f (case get m k of None \<Rightarrow> d | Some v \<Rightarrow> v))"
    and iter_sorted: "ok m \<Longrightarrow> sorted_wrt (<) (map fst (iter m))"
    and iter_get: "ok m \<Longrightarrow> (k, v) \<in> set (iter m) \<longleftrightarrow> get m k = Some v"
begin

lemma keys_iter: "ok m \<Longrightarrow> set (map fst (iter m)) = dom (get m)"
  using iter_get [of m] by force

lemma iter_eq:
  assumes "ok m"
  shows "iter m = map (\<lambda>k. (k, the (get m k))) (sorted_list_of_set (dom (get m)))"
proof -
  have "sorted (map fst (iter m))" "distinct (map fst (iter m))"
    using iter_sorted [OF assms] by (simp_all add: strict_sorted_iff)
  then have "sorted_list_of_set (dom (get m)) = map fst (iter m)"
    using keys_iter [OF assms] sorted_list_of_set.idem_if_sorted_distinct by metis
  moreover have "map (\<lambda>k. (k, the (get m k))) (map fst (iter m)) = iter m"
    using iter_get [OF assms] by (auto intro!: map_idI)
  ultimately show ?thesis by simp
qed

lemma iter_ext: "ok m \<Longrightarrow> ok n \<Longrightarrow> get m = get n \<Longrightarrow> iter m = iter n"
  by (simp add: iter_eq)

lemma ok_fold: "(\<And>x m. ok m \<Longrightarrow> ok (f x m)) \<Longrightarrow> ok m \<Longrightarrow> ok (fold f xs m)"
  by (induction xs arbitrary: m) auto

end

text \<open>Collecting values under their keys, in encounter order.\<close>

locale ordered_multimap = ordered_map empty get ins rem ups iter ok
  for empty :: 'm and get :: "'m \<Rightarrow> 'k::linorder \<Rightarrow> 'a list option" and ins rem ups iter and ok :: "'m \<Rightarrow> bool"
begin

lemma get_group:
  assumes "ok m"
  shows "get (fold (\<lambda>x. ups (key x) [] (\<lambda>g. g @ [x])) xs m) k =
    (if get m k = None \<and> filter (\<lambda>x. key x = k) xs = [] then None
     else Some ((case get m k of None \<Rightarrow> [] | Some g \<Rightarrow> g) @ filter (\<lambda>x. key x = k) xs))"
  using assms
proof (induction xs arbitrary: m)
  case (Cons x xs)
  have "ok (ups (key x) [] (\<lambda>g. g @ [x]) m)" using Cons.prems by (rule ok_ups)
  from Cons.IH [OF this] show ?case
    using Cons.prems by (auto simp: get_ups split: option.splits)
qed (auto split: option.splits)

lemma ok_group: "ok m \<Longrightarrow> ok (fold (\<lambda>x. ups (key x) [] (\<lambda>g. g @ [x])) xs m)"
  by (rule ok_fold) (rule ok_ups)

lemma iter_group:
  "iter (fold (\<lambda>x. ups (key x) [] (\<lambda>g. g @ [x])) xs empty) =
    map (\<lambda>k. (k, filter (\<lambda>x. key x = k) xs)) (sorted_list_of_set (key ` set xs))" (is "iter ?m = _")
proof -
  have g: "get ?m k = (if k \<in> key ` set xs then Some (filter (\<lambda>x. key x = k) xs) else None)" for k
    by (subst get_group [OF ok_empty]) (auto simp: get_empty filter_empty_conv)
  have "dom (get ?m) = key ` set xs" by (auto simp: g dom_def)
  then show ?thesis
    by (subst iter_eq [OF ok_group [OF ok_empty]]) (auto simp: g)
qed

end

interpretation bt: ordered_map "[]" bt_get bt_insert bt_remove bt_upsert "\<lambda>m. m" bt_ok
  by unfold_locales
    (auto simp: bt_ok_insert bt_ok_remove bt_get_insert bt_get_remove bt_upsert_def bt_get_set, auto simp: bt_get_def bt_ok_def)

interpretation btm: ordered_multimap "[]" bt_get bt_insert bt_remove bt_upsert "\<lambda>m. m" bt_ok
  by unfold_locales

end
