(* ===== verification/Events.thy ===== *)
theory Events
  imports Ordered_Map Scan
begin

text \<open>
  Analysis of event identifiers over verified frames (\<^verbatim>\<open>residiuum-format/src/events.rs\<close>): frames that
  share an identifier are replicas when envelope and body agree and a conflict otherwise. The
  grouping map is the ordered map of \<open>Ordered_Map\<close>; \<^verbatim>\<open>sort_by_key\<close> is the stable \<open>sort_key\<close>.
\<close>

datatype event_id_outcome =
    EvUnique nat decoded_frame
  | EvReplicas "nat list" decoded_frame
  | EvConflicting "(nat \<times> decoded_frame) list"

fun outcome_event_id :: "event_id_outcome \<Rightarrow> bytes" where
  "outcome_event_id (EvUnique _ frame) = event_id (frm_header frame)"
| "outcome_event_id (EvReplicas _ frame) = event_id (frm_header frame)"
| "outcome_event_id (EvConflicting occurrences) = event_id (frm_header (snd (occurrences ! 0)))"

fun is_conflicting :: "event_id_outcome \<Rightarrow> bool" where
  "is_conflicting (EvConflicting _) = True"
| "is_conflicting _ = False"

definition content_key :: "decoded_frame \<Rightarrow> bytes \<times> bytes" where
  "content_key frame = (frm_envelope frame, frm_body frame)"

text \<open>The body of the loop over the groups.\<close>

definition group_outcome :: "(nat \<times> decoded_frame) list \<Rightarrow> event_id_outcome" where
  "group_outcome group0 =
     (let group = sort_key fst group0 in
      if length group = 1 then EvUnique (fst (last group)) (snd (last group))
      else let first_key = content_key (snd (group ! 0));
               all_same = list_all (\<lambda>(_, f). content_key f = first_key) group
      in if all_same then EvReplicas (map fst group) (snd (group ! 0))
      else EvConflicting group)"

definition group_by_event_id :: "(nat \<times> decoded_frame) list \<Rightarrow> event_id_outcome list" where
  "group_by_event_id frames =
     (let by_id = fold (\<lambda>x. bt_upsert (event_id (frm_header (snd x))) [] (\<lambda>g. g @ [x])) frames []
      in map (\<lambda>(_, group). group_outcome group) by_id)"

section \<open>Lemmas\<close>

abbreviation ev_key :: "nat \<times> decoded_frame \<Rightarrow> bytes" where
  "ev_key x \<equiv> event_id (frm_header (snd x))"

definition occurrences :: "bytes \<Rightarrow> (nat \<times> decoded_frame) list \<Rightarrow> (nat \<times> decoded_frame) list" where
  "occurrences i frames = filter (\<lambda>x. ev_key x = i) frames"

fun outcome_offsets :: "event_id_outcome \<Rightarrow> nat list" where
  "outcome_offsets (EvUnique off _) = [off]"
| "outcome_offsets (EvReplicas offs _) = offs"
| "outcome_offsets (EvConflicting occ) = map fst occ"

lemma group_by_event_id_eq:
  "group_by_event_id fs = map (\<lambda>i. group_outcome (occurrences i fs)) (sorted_list_of_set (ev_key ` set fs))"
  by (simp add: group_by_event_id_def btm.iter_group [of ev_key fs] occurrences_def o_def)

lemma sort_key_empty: "sort_key f xs = [] \<longleftrightarrow> xs = []"
  by (metis length_0_conv length_sort)

lemma map_fst_sort: "map fst (sort_key fst xs) = sort (map fst xs)"
  by (rule properties_for_sort [symmetric]) simp_all

lemma length1_last: "length xs = 1 \<Longrightarrow> xs = [last xs]"
  by (cases xs) auto

lemma group_outcome_spec:
  assumes g: "g \<noteq> []" and k: "\<forall>x \<in> set g. ev_key x = i"
  shows "outcome_event_id (group_outcome g) = i" (is ?id)
    and "outcome_offsets (group_outcome g) = sort (map fst g)" (is ?off)
    and "is_conflicting (group_outcome g)
      \<longleftrightarrow> (\<exists>x \<in> set g. \<exists>y \<in> set g. content_key (snd x) \<noteq> content_key (snd y))" (is ?conf)
proof -
  define s where "s = sort_key fst g"
  have s: "s \<noteq> []" "set s = set g" "map fst s = sort (map fst g)" "length s = length g"
    using g sort_key_empty [of fst g] map_fst_sort [of g] by (simp_all add: s_def)
  then have hd: "s ! 0 \<in> set g" by (metis length_greater_0_conv nth_mem)
  have "last s \<in> set g" using s by (metis last_in_set)
  show ?id using hd \<open>last s \<in> set g\<close> k by (simp add: group_outcome_def Let_def flip: s_def)
  have "length s = 1 \<Longrightarrow> map fst s = [fst (last s)]" using length1_last [of s] by (cases s) auto
  then show ?off by (auto simp: group_outcome_def Let_def s(3) simp flip: s_def)
  have one: "length s = 1 \<Longrightarrow> set s = {last s}" using length1_last [of s] by (metis empty_set list.simps(15))
  have "is_conflicting (group_outcome g)
      \<longleftrightarrow> length s \<noteq> 1 \<and> (\<exists>x \<in> set s. content_key (snd x) \<noteq> content_key (snd (s ! 0)))"
    by (simp add: group_outcome_def Let_def list_all_iff case_prod_unfold flip: s_def)
  also have "\<dots> \<longleftrightarrow> (\<exists>x \<in> set s. \<exists>y \<in> set s. content_key (snd x) \<noteq> content_key (snd y))"
    using one hd s(2) by (metis singletonD)
  finally show ?conf by (simp only: s(2))
qed

lemma filter_key: "distinct (map f xs) \<Longrightarrow> k \<in> set xs \<Longrightarrow> filter (\<lambda>x. f k = f x) xs = [k]"
  by (induction xs) (auto simp: filter_empty_conv image_iff)

lemma sort_key_perm:
  assumes "mset xs = mset ys" and "distinct (map f xs)"
  shows "sort_key f xs = sort_key f ys"
proof (rule properties_for_sort_key)
  fix k assume "k \<in> set (sort_key f ys)"
  then have k: "k \<in> set xs" "k \<in> set (sort_key f ys)" using assms(1) by (auto dest: mset_eq_setD)
  have "distinct (map f (sort_key f ys))"
    using assms by (metis mset_eq_imp_distinct_iff mset_map mset_sort)
  with assms(2) k show "filter (\<lambda>x. f k = f x) (sort_key f ys) = filter (\<lambda>x. f k = f x) xs"
    by (simp add: filter_key)
qed (simp_all add: assms(1))

section \<open>Properties\<close>

text \<open>C28: the groups are exact. There is one outcome per event identifier, in ascending order of
  identifiers; each lists every offset at which the identifier was verified; and it is a conflict
  exactly when two of those frames differ in envelope or body.\<close>

theorem event_groups_exact:
  "map outcome_event_id (group_by_event_id fs) = sorted_list_of_set (ev_key ` set fs)
   \<and> (\<forall>r \<in> set (group_by_event_id fs).
       outcome_offsets r = sort (map fst (occurrences (outcome_event_id r) fs))
       \<and> (is_conflicting r \<longleftrightarrow> (\<exists>x \<in> set (occurrences (outcome_event_id r) fs).
            \<exists>y \<in> set (occurrences (outcome_event_id r) fs). content_key (snd x) \<noteq> content_key (snd y))))"
proof -
  have o: "outcome_event_id (group_outcome (occurrences i fs)) = i
      \<and> outcome_offsets (group_outcome (occurrences i fs)) = sort (map fst (occurrences i fs))
      \<and> (is_conflicting (group_outcome (occurrences i fs)) \<longleftrightarrow> (\<exists>x \<in> set (occurrences i fs).
            \<exists>y \<in> set (occurrences i fs). content_key (snd x) \<noteq> content_key (snd y)))"
    if "i \<in> ev_key ` set fs" for i
  proof -
    have "occurrences i fs \<noteq> []" "\<forall>x \<in> set (occurrences i fs). ev_key x = i"
      using that by (auto simp: occurrences_def filter_empty_conv)
    from group_outcome_spec [OF this] show ?thesis by blast
  qed
  then show ?thesis by (auto simp: group_by_event_id_eq o_def intro!: map_idI)
qed

text \<open>Encounter order picks no winner. Whatever the order in which the verified frames of an
  image are presented, the analysis is the same.\<close>

lemma event_groups_order_irrelevant:
  assumes "mset fs = mset gs" and "distinct (map fst fs)"
  shows "group_by_event_id fs = group_by_event_id gs"
proof -
  have s: "set fs = set gs" using assms(1) by (rule mset_eq_setD)
  have "group_outcome (occurrences i fs) = group_outcome (occurrences i gs)" for i
  proof -
    have "sort_key fst (occurrences i fs) = sort_key fst (occurrences i gs)"
      using assms by (intro sort_key_perm) (auto simp: occurrences_def distinct_map_filter)
    then show ?thesis by (simp add: group_outcome_def)
  qed
  then show ?thesis by (simp add: group_by_event_id_eq s)
qed

text \<open>Two frames for one identifier, to exercise the analysis.\<close>

definition sample_event :: "byte \<Rightarrow> bytes \<Rightarrow> decoded_frame" where
  "sample_event i body = \<lparr>frm_header = new_draft ItemEvent 1 (len_u64 body) (replicate 16 i),
     frm_envelope = EMPTY_ENVELOPE, frm_body = body, frm_body_hash = [], frm_len = 0\<rparr>"

theorem event_groups_exact_witness:
  "\<exists>r. group_by_event_id [(9, sample_event 1 [5]), (0, sample_event 1 [6])] = [r]
    \<and> outcome_offsets r = [0, 9] \<and> is_conflicting r"
proof -
  let ?fs = "[(9, sample_event 1 [5]), (0, sample_event 1 [6])]"
  have k: "ev_key ` set ?fs = {replicate 16 1}"
    by (simp add: sample_event_def new_draft_def)
  have e: "map outcome_event_id (group_by_event_id ?fs) = [replicate 16 1]"
    using event_groups_exact [of ?fs] unfolding k by simp
  then obtain r where r: "group_by_event_id ?fs = [r]" "outcome_event_id r = replicate 16 1" by auto
  have occ: "occurrences (replicate 16 1) ?fs = ?fs"
    by (simp add: occurrences_def sample_event_def new_draft_def)
  have "outcome_offsets r = sort (map fst ?fs)
      \<and> (is_conflicting r \<longleftrightarrow> (\<exists>x \<in> set ?fs. \<exists>y \<in> set ?fs. content_key (snd x) \<noteq> content_key (snd y)))"
    using event_groups_exact [of ?fs] r occ by simp
  then show ?thesis using r(1) by (simp add: content_key_def sample_event_def)
qed

end
