(* ===== verification/Chunks.thy ===== *)
theory Chunks
  imports Ordered_Map Scan
begin

text \<open>
  Payload chunks and their reassembly (\<^verbatim>\<open>residiuum-format/src/chunks.rs\<close>): the fixed chunk body layout,
  and the state of an item given the verified pieces at hand. Loops that return early are
  recursive functions with the returned state in the left summand.
\<close>

record chunk_piece =
  item_id :: bytes
  chunk_index :: u32
  chunk_total :: u32
  chunk_logical_len :: u64
  chunk_body :: bytes

definition CHUNK_BODY_HEADER_LEN :: nat where "CHUNK_BODY_HEADER_LEN = 16 + 4 + 4 + 8"

definition encode_chunk_body :: "chunk_piece \<Rightarrow> bytes" where
  "encode_chunk_body piece = item_id piece @ to_le_bytes (chunk_index piece) @ to_le_bytes (chunk_total piece)
     @ to_le_bytes (chunk_logical_len piece) @ chunk_body piece"

definition decode_chunk_body :: "bytes \<Rightarrow> chunk_piece option" where
  "decode_chunk_body body =
     (if length body < CHUNK_BODY_HEADER_LEN then None
      else Some \<lparr>item_id = subslice 0 16 body, chunk_index = from_le_bytes (subslice 16 20 body),
        chunk_total = from_le_bytes (subslice 20 24 body),
        chunk_logical_len = from_le_bytes (subslice 24 32 body), chunk_body = drop 32 body\<rparr>)"

record logical_extent =
  ext_index :: u32
  ext_range :: byte_range
  ext_present :: bool

datatype reassembly_state =
    ReComplete bytes bytes
  | RePartial "logical_extent list" "u32 list"
  | ReUnavailable
  | ReConflicting u32 "bytes list"

section \<open>Reassembly\<close>

text \<open>Grouping by index, refusing an index outside the manifest.\<close>

fun group_pieces :: "'h integrity \<Rightarrow> u32 \<Rightarrow> chunk_piece list \<Rightarrow> (u32, chunk_piece list) btree_map \<Rightarrow>
    reassembly_state + (u32, chunk_piece list) btree_map" where
  "group_pieces I total_n [] by_index = Inr by_index"
| "group_pieces I total_n (p # ps) by_index =
     (if total_n \<le> chunk_index p then Inl (ReConflicting (chunk_index p) [body_hash I (chunk_body p)])
      else group_pieces I total_n ps (bt_upsert (chunk_index p) [] (\<lambda>g. g @ [p]) by_index))"

text \<open>Conflicting content at one index.\<close>

fun check_groups :: "'h integrity \<Rightarrow> (u32, chunk_piece list) btree_map \<Rightarrow> reassembly_state + unit" where
  "check_groups I [] = Inr ()"
| "check_groups I ((index, grp) # rest) =
     (let first = body_hash I (chunk_body (grp ! 0)) in
      if list_ex (\<lambda>p. body_hash I (chunk_body p) \<noteq> first) grp
      then Inl (ReConflicting index (remdups_adj (sort (map (\<lambda>p. body_hash I (chunk_body p)) grp))))
      else check_groups I rest)"

record build_state =
  bs_extents :: "logical_extent list"
  bs_missing :: "u32 list"
  bs_cursor :: u64
  bs_body :: bytes
  bs_all_present :: bool

definition build_slot :: "(u32, chunk_piece list) btree_map \<Rightarrow> u32 \<Rightarrow> build_state \<Rightarrow> build_state" where
  "build_slot by_index i st =
     (case bt_get by_index i of
        Some grp \<Rightarrow>
          let p = grp ! 0; start = bs_cursor st; end' = saturating_add (bs_cursor st) (chunk_logical_len p)
          in st\<lparr>bs_extents := bs_extents st
                  @ [\<lparr>ext_index = i, ext_range = range_new (unat start) (unat end'), ext_present = True\<rparr>],
                bs_body := bs_body st @ chunk_body p, bs_cursor := end'\<rparr>
      | None \<Rightarrow>
          st\<lparr>bs_all_present := False, bs_missing := bs_missing st @ [i],
             bs_extents := bs_extents st @ [\<lparr>ext_index = i,
               ext_range = range_new (unat (bs_cursor st)) (unat (bs_cursor st)), ext_present = False\<rparr>]\<rparr>)"

definition build_extents :: "(u32, chunk_piece list) btree_map \<Rightarrow> u32 \<Rightarrow> build_state" where
  "build_extents by_index total_n =
     fold (build_slot by_index) (map word_of_nat [0..<unat total_n])
       \<lparr>bs_extents = [], bs_missing = [], bs_cursor = 0, bs_body = [], bs_all_present = True\<rparr>"

definition reassemble_chunks :: "'h integrity \<Rightarrow> chunk_piece list \<Rightarrow> bytes option \<Rightarrow> reassembly_state" where
  "reassemble_chunks I pieces expected_content_hash =
     (if pieces = [] then ReUnavailable
      else let total_n = chunk_total (pieces ! 0);
               mismatch = (\<lambda>p. chunk_total p \<noteq> total_n \<or> item_id p \<noteq> item_id (pieces ! 0))
      in if total_n = 0 then ReUnavailable
      else if list_ex mismatch pieces
      then ReConflicting (case find mismatch pieces of Some p \<Rightarrow> chunk_index p | None \<Rightarrow> 0)
             (map (\<lambda>p. body_hash I (chunk_body p)) pieces)
      else case and_then (group_pieces I total_n pieces []) (\<lambda>by_index.
             and_then (check_groups I by_index) (\<lambda>_. Inr by_index)) of
        Inl state \<Rightarrow> state
      | Inr by_index \<Rightarrow>
          let st = build_extents by_index total_n in
          if \<not> bs_all_present st then RePartial (bs_extents st) (bs_missing st)
          else let content_hash = body_hash I (bs_body st) in
            (case expected_content_hash of
               Some expected \<Rightarrow>
                 if expected \<noteq> content_hash then ReConflicting 0 [content_hash, expected]
                 else ReComplete (bs_body st) content_hash
             | None \<Rightarrow> ReComplete (bs_body st) content_hash))"

section \<open>Lemmas\<close>

lemma decode_encode_chunk:
  "length (item_id p) = 16 \<Longrightarrow> decode_chunk_body (encode_chunk_body p) = Some p"
  by (simp add: decode_chunk_body_def encode_chunk_body_def CHUNK_BODY_HEADER_LEN_def)

lemma decode_chunk_layout:
  "decode_chunk_body b = Some p \<longleftrightarrow> length (item_id p) = 16 \<and> b = encode_chunk_body p"
proof
  assume a: "decode_chunk_body b = Some p"
  then have len: "32 \<le> length b" by (auto simp: decode_chunk_body_def CHUNK_BODY_HEADER_LEN_def split: if_splits)
  moreover have "drop 32 b = subslice 32 (length b) b" by (simp add: subslice_def)
  ultimately have "b = subslice 0 16 b @ subslice 16 20 b @ subslice 20 24 b @ subslice 24 32 b @ drop 32 b"
    by (simp add: subslice_join)
  with a len show "length (item_id p) = 16 \<and> b = encode_chunk_body p"
    by (auto simp: decode_chunk_body_def encode_chunk_body_def to_from_le_bytes split: if_splits)
qed (auto simp: decode_encode_chunk)

interpretation chunk: canonical_codec "\<lambda>p. Inr (encode_chunk_body p) :: unit + bytes"
  "\<lambda>bs. ok_or (decode_chunk_body bs) ()" "\<lambda>p. length (item_id p) = 16"
  by unfold_locales (auto simp: decode_chunk_layout result_simps)

lemma group_pieces_ok:
  "group_pieces I total_n ps m = Inr m' \<longleftrightarrow> (\<forall>p \<in> set ps. chunk_index p < total_n)
     \<and> m' = fold (\<lambda>p. bt_upsert (chunk_index p) [] (\<lambda>g. g @ [p])) ps m"
  by (induction ps arbitrary: m) (auto simp: not_le)

lemma check_groups_ok:
  "check_groups I m = Inr () \<longleftrightarrow>
     (\<forall>(i, g) \<in> set m. \<forall>p \<in> set g. body_hash I (chunk_body p) = body_hash I (chunk_body (g ! 0)))"
  by (induction I m rule: check_groups.induct) (auto simp: Let_def list_ex_iff)

lemma group_pieces_Inl: "group_pieces I n ps m = Inl s \<Longrightarrow> \<exists>i hs. s = ReConflicting i hs"
  by (induction ps arbitrary: m) (auto split: if_splits)

lemma check_groups_Inl: "check_groups I m = Inl s \<Longrightarrow> \<exists>i hs. s = ReConflicting i hs"
  by (induction I m rule: check_groups.induct) (auto simp: Let_def split: if_splits)

definition group_at :: "chunk_piece list \<Rightarrow> u32 \<Rightarrow> chunk_piece list" where
  "group_at ps i = filter (\<lambda>p. chunk_index p = i) ps"

lemma get_grouped:
  "bt_get (fold (\<lambda>p. bt_upsert (chunk_index p) [] (\<lambda>g. g @ [p])) ps []) i
    = (if group_at ps i = [] then None else Some (group_at ps i))"
  by (subst btm.get_group) (auto simp: group_at_def bt_get_def)

lemma build_slots:
  assumes "\<And>i. bt_get m i = (if group_at ps i = [] then None else Some (group_at ps i))"
  shows "bs_body (fold (build_slot m) xs st) = bs_body st
      @ concat (map (\<lambda>i. if group_at ps i = [] then [] else chunk_body (group_at ps i ! 0)) xs)"
    and "bs_missing (fold (build_slot m) xs st) = bs_missing st @ filter (\<lambda>i. group_at ps i = []) xs"
    and "bs_all_present (fold (build_slot m) xs st) \<longleftrightarrow> bs_all_present st \<and> (\<forall>i \<in> set xs. group_at ps i \<noteq> [])"
    and "map (\<lambda>e. (ext_index e, ext_present e)) (bs_extents (fold (build_slot m) xs st))
      = map (\<lambda>e. (ext_index e, ext_present e)) (bs_extents st) @ map (\<lambda>i. (i, group_at ps i \<noteq> [])) xs"
  by (induction xs arbitrary: st) (auto simp: build_slot_def assms Let_def)

lemma reassemble_Inr:
  assumes ps: "ps \<noteq> []" and n: "n \<noteq> 0" and un: "\<forall>p \<in> set ps. chunk_total p = n \<and> item_id p = i \<and> chunk_index p < n"
    and same: "\<forall>p \<in> set ps. \<forall>q \<in> set ps. chunk_index p = chunk_index q \<longrightarrow>
      body_hash I (chunk_body p) = body_hash I (chunk_body q)"
    and x: "xs = map word_of_nat [0..<unat n]"
    and b: "b = concat (map (\<lambda>i. if group_at ps i = [] then [] else chunk_body (group_at ps i ! 0)) xs)"
  shows "\<exists>exts. map (\<lambda>e. (ext_index e, ext_present e)) exts = map (\<lambda>i. (i, group_at ps i \<noteq> [])) xs \<and>
    reassemble_chunks I ps e =
      (if \<exists>i \<in> set xs. group_at ps i = [] then RePartial exts (filter (\<lambda>i. group_at ps i = []) xs)
       else if e \<noteq> None \<and> e \<noteq> Some (body_hash I b) then ReConflicting 0 [body_hash I b, the e]
       else ReComplete b (body_hash I b))"
proof -
  define m where "m = fold (\<lambda>p. bt_upsert (chunk_index p) [] (\<lambda>g. g @ [p])) ps []"
  have get: "bt_get m i = (if group_at ps i = [] then None else Some (group_at ps i))" for i
    unfolding m_def by (rule get_grouped)
  have ok: "bt_ok m" unfolding m_def by (rule btm.ok_group) simp
  have "(j, g) \<in> set m \<Longrightarrow> g = group_at ps j \<and> g \<noteq> []" for j g
    using bt_get_set [OF ok, of j g] get [of j] by (auto split: if_splits)
  moreover have "g \<noteq> [] \<Longrightarrow> g = group_at ps j \<Longrightarrow> p \<in> set g \<Longrightarrow> p \<in> set ps \<and> g ! 0 \<in> set ps
      \<and> chunk_index p = chunk_index (g ! 0)" for g j p
    using nth_mem [of 0 g] by (auto simp: group_at_def)
  ultimately have c: "check_groups I m = Inr ()" using same unfolding check_groups_ok by blast
  have hd: "ps ! 0 \<in> set ps" using ps by simp
  have "\<not> list_ex (\<lambda>p. chunk_total p \<noteq> chunk_total (ps ! 0) \<or> item_id p \<noteq> item_id (ps ! 0)) ps"
    using un hd by (auto simp: list_ex_iff)
  moreover have "group_pieces I n ps [] = Inr m" using un by (simp add: group_pieces_ok m_def)
  ultimately have "reassemble_chunks I ps e = (let st = build_extents m n in
      if \<not> bs_all_present st then RePartial (bs_extents st) (bs_missing st)
          else let content_hash = body_hash I (bs_body st) in
            (case e of
               Some expected \<Rightarrow>
                 if expected \<noteq> content_hash then ReConflicting 0 [content_hash, expected]
                 else ReComplete (bs_body st) content_hash
             | None \<Rightarrow> ReComplete (bs_body st) content_hash))"
    using ps n un hd c by (simp add: reassemble_chunks_def)
  then show ?thesis
    using build_slots [of m ps xs, OF get] unfolding build_extents_def x [symmetric] b
    by (intro exI [of _ "bs_extents (build_extents m n)"]) (auto simp: build_extents_def Let_def simp flip: x split: option.splits)
qed

lemma reassemble_complete_guards:
  assumes "reassemble_chunks I ps e = ReComplete b h"
  obtains n i where "ps \<noteq> []" and "n \<noteq> 0"
    and "\<forall>p \<in> set ps. chunk_total p = n \<and> item_id p = i \<and> chunk_index p < n"
    and "\<forall>p \<in> set ps. \<forall>q \<in> set ps. chunk_index p = chunk_index q \<longrightarrow>
      body_hash I (chunk_body p) = body_hash I (chunk_body q)"
proof -
  let ?n = "chunk_total (ps ! 0)" and ?i = "item_id (ps ! 0)"
  define m where "m = fold (\<lambda>p. bt_upsert (chunk_index p) [] (\<lambda>g. g @ [p])) ps []"
  from assms have g: "ps \<noteq> []" "?n \<noteq> 0" "\<not> list_ex (\<lambda>p. chunk_total p \<noteq> ?n \<or> item_id p \<noteq> ?i) ps"
    by (auto simp: reassemble_chunks_def Let_def split: if_splits)
  let ?r = "and_then (group_pieces I ?n ps []) (\<lambda>m. and_then (check_groups I m) (\<lambda>_. Inr m))"
  obtain m' where "?r = Inr m'"
  proof (cases ?r)
    case (Inl s)
    then have "reassemble_chunks I ps e = s" using g by (simp add: reassemble_chunks_def)
    moreover obtain j hs where "s = ReConflicting j hs"
      using Inl by (auto simp: and_then_def split: sum.splits dest!: group_pieces_Inl check_groups_Inl)
    ultimately show ?thesis using assms by simp
  qed
  then have m: "\<forall>p \<in> set ps. chunk_index p < ?n" "check_groups I m = Inr ()"
    by (auto simp: result_simps group_pieces_ok m_def)
  have ok: "bt_ok m" unfolding m_def by (rule btm.ok_group) simp
  have h: "body_hash I (chunk_body p) = body_hash I (chunk_body (group_at ps (chunk_index p) ! 0))"
    if "p \<in> set ps" for p
  proof -
    have "p \<in> set (group_at ps (chunk_index p))" using that by (simp add: group_at_def)
    moreover from this have "(chunk_index p, group_at ps (chunk_index p)) \<in> set m"
      unfolding bt_get_set [OF ok] unfolding m_def by (subst get_grouped) auto
    ultimately show ?thesis using m(2) by (auto simp: check_groups_ok)
  qed
  have "\<forall>p \<in> set ps. chunk_total p = ?n \<and> item_id p = ?i \<and> chunk_index p < ?n"
    using g(3) m(1) by (auto simp: list_ex_iff)
  with g(1,2) show ?thesis by (rule that) (metis h)
qed

text \<open>The pieces an object is split into.\<close>

definition chunk_of :: "bytes \<Rightarrow> bytes list \<Rightarrow> nat \<Rightarrow> chunk_piece" where
  "chunk_of i cs k = \<lparr>item_id = i, chunk_index = word_of_nat k, chunk_total = word_of_nat (length cs),
     chunk_logical_len = len_u64 (cs ! k), chunk_body = cs ! k\<rparr>"

section \<open>Properties\<close>

text \<open>C29: a complete object is made of the pieces at hand. When reassembly reports an item as
  complete, every index of the manifest is filled by one of the given pieces, the body is their
  concatenation in index order, nothing is synthesised, and the digest is that of the body and
  the one that was asked for.\<close>

theorem reassembly_sound:
  assumes "reassemble_chunks I ps e = ReComplete b h"
  shows "\<exists>n i qs. set qs \<subseteq> set ps \<and> (\<forall>p \<in> set ps. chunk_total p = n \<and> item_id p = i)
    \<and> map chunk_index qs = map word_of_nat [0..<unat n] \<and> b = concat (map chunk_body qs)
    \<and> h = body_hash I b \<and> (e = None \<or> e = Some h)"
proof -
  from assms obtain n i where g: "ps \<noteq> []" "n \<noteq> 0"
      "\<forall>p \<in> set ps. chunk_total p = n \<and> item_id p = i \<and> chunk_index p < n"
      "\<forall>p \<in> set ps. \<forall>q \<in> set ps. chunk_index p = chunk_index q \<longrightarrow>
        body_hash I (chunk_body p) = body_hash I (chunk_body q)" by (rule reassemble_complete_guards)
  define xs where "xs = map (word_of_nat :: nat \<Rightarrow> u32) [0..<unat n]"
  define qs where "qs = map (\<lambda>i. group_at ps i ! 0) xs"
  have r: "\<forall>i \<in> set xs. group_at ps i \<noteq> []" "e = None \<or> e = Some h" "h = body_hash I b"
      "b = concat (map (\<lambda>i. if group_at ps i = [] then [] else chunk_body (group_at ps i ! 0)) xs)"
    using reassemble_Inr [OF g xs_def refl, of e] assms by (auto split: if_splits)
  have q: "group_at ps i ! 0 \<in> set ps \<and> chunk_index (group_at ps i ! 0) = i" if "i \<in> set xs" for i
    using r(1) that nth_mem [of 0 "group_at ps i"] by (auto simp: group_at_def)
  have "set qs \<subseteq> set ps" "map chunk_index qs = xs" using q by (auto simp: qs_def intro!: map_idI)
  moreover have "b = concat (map chunk_body qs)"
    using r(1,4) by (auto simp: qs_def intro!: arg_cong [of _ _ concat])
  ultimately show ?thesis using g(3) r(2,3) unfolding xs_def by blast
qed

theorem reassembly_sound_witness:
  "\<exists>(n :: u32) i qs. set qs \<subseteq> set [chunk_of (replicate 16 1) [[5], [6]] 1, chunk_of (replicate 16 1) [[5], [6]] 0]
    \<and> map chunk_index qs = map word_of_nat [0..<unat n] \<and> [5, 6] = concat (map chunk_body qs)"
proof -
  let ?ps = "[chunk_of (replicate 16 1) [[5], [6]] 1, chunk_of (replicate 16 1) [[5], [6]] 0]"
  have "reassemble_chunks sample_integrity ?ps None = ReComplete [5, 6] (body_hash sample_integrity [5, 6])"
    by code_simp
  from reassembly_sound [OF this] show ?thesis by blast
qed

lemma group_at_honest:
  assumes "length cs < 2 ^ 32" and "set ps \<subseteq> chunk_of i cs ` {..<length cs}" and "k < length cs"
  shows "set (group_at ps (word_of_nat k)) = (if chunk_of i cs k \<in> set ps then {chunk_of i cs k} else {})"
proof -
  have "chunk_index p = word_of_nat k \<longleftrightarrow> p = chunk_of i cs k" if p: "p \<in> set ps" for p
  proof -
    obtain l where l: "l < length cs" "p = chunk_of i cs l" using assms(2) p by blast
    then have "chunk_index p = word_of_nat k \<longleftrightarrow> l = k"
      using assms(1,3) by (auto simp: chunk_of_def word_unat_eq_iff unat_of_nat)
    then show ?thesis using l by (auto simp: chunk_of_def)
  qed
  then show ?thesis by (auto simp: group_at_def)
qed

lemma honest_guards:
  assumes "length cs < 2 ^ 32" and "set ps \<subseteq> chunk_of i cs ` {..<length cs}"
  shows "\<forall>p \<in> set ps. chunk_total p = word_of_nat (length cs) \<and> item_id p = i
      \<and> chunk_index p < word_of_nat (length cs)"
    and "\<forall>p \<in> set ps. \<forall>q \<in> set ps. chunk_index p = chunk_index q \<longrightarrow>
      body_hash I (chunk_body p) = body_hash I (chunk_body q)"
proof -
  have k: "chunk_index (chunk_of i cs k) < word_of_nat (length cs)" if "k < length cs" for k
    using that assms(1) by (simp add: chunk_of_def word_less_nat_alt unat_of_nat)
  show "\<forall>p \<in> set ps. chunk_total p = word_of_nat (length cs) \<and> item_id p = i
      \<and> chunk_index p < word_of_nat (length cs)"
  proof
    fix p assume "p \<in> set ps"
    then obtain k where "k < length cs" "p = chunk_of i cs k" using assms(2) by blast
    with k show "chunk_total p = word_of_nat (length cs) \<and> item_id p = i \<and> chunk_index p < word_of_nat (length cs)"
      by (simp add: chunk_of_def)
  qed
  have "p = q" if pq: "p \<in> set ps" "q \<in> set ps" "chunk_index p = chunk_index q" for p q
  proof -
    obtain k l where "k < length cs" "p = chunk_of i cs k" "l < length cs" "q = chunk_of i cs l"
      using assms(2) pq(1,2) by blast
    with pq(3) assms(1) show ?thesis by (simp add: chunk_of_def word_unat_eq_iff unat_of_nat)
  qed
  then show "\<forall>p \<in> set ps. \<forall>q \<in> set ps. chunk_index p = chunk_index q \<longrightarrow>
      body_hash I (chunk_body p) = body_hash I (chunk_body q)" by blast
qed

text \<open>C30: reassembly inverts splitting, whatever survives. From pieces of one split object, in any
  order and with any duplicates, reassembly returns the object when every piece is there, and
  otherwise reports exactly the missing indices with the extents of the others.\<close>

theorem reassembly_exact:
  assumes cs: "cs \<noteq> []" "length cs < 2 ^ 32" and ps: "ps \<noteq> []" "set ps \<subseteq> chunk_of i cs ` {..<length cs}"
    and e: "e = None \<or> e = Some (body_hash I (concat cs))"
  shows "if set ps = chunk_of i cs ` {..<length cs}
    then reassemble_chunks I ps e = ReComplete (concat cs) (body_hash I (concat cs))
    else \<exists>exts. reassemble_chunks I ps e
        = RePartial exts (map word_of_nat (filter (\<lambda>k. chunk_of i cs k \<notin> set ps) [0..<length cs]))
      \<and> map (\<lambda>x. (ext_index x, ext_present x)) exts
        = map (\<lambda>k. (word_of_nat k, chunk_of i cs k \<in> set ps)) [0..<length cs]"
proof -
  let ?n = "word_of_nat (length cs) :: u32"
  define xs where "xs = map (word_of_nat :: nat \<Rightarrow> u32) [0..<unat ?n]"
  have n: "unat ?n = length cs" "?n \<noteq> 0" using cs by (auto simp: unat_of_nat word_unat_eq_iff)
  have xs: "xs = map word_of_nat [0..<length cs]" by (simp add: xs_def n)
  note g = group_at_honest [OF cs(2) ps(2)]
  have ne: "group_at ps (word_of_nat k) = [] \<longleftrightarrow> chunk_of i cs k \<notin> set ps" if "k < length cs" for k
    using g [OF that] by (metis insert_not_empty set_empty)
  have hd: "group_at ps (word_of_nat k) ! 0 = chunk_of i cs k" if "k < length cs" "chunk_of i cs k \<in> set ps" for k
    using g [OF that(1)] that ne [OF that(1)] nth_mem [of 0 "group_at ps (word_of_nat k)"] by auto
  have all: "(\<exists>j \<in> set xs. group_at ps j = []) \<longleftrightarrow> set ps \<noteq> chunk_of i cs ` {..<length cs}"
    using ne ps(2) by (auto simp: xs)
  have miss: "filter (\<lambda>j. group_at ps j = []) xs
      = map word_of_nat (filter (\<lambda>k. chunk_of i cs k \<notin> set ps) [0..<length cs])"
    using ne by (auto simp: xs filter_map o_def intro!: arg_cong [of _ _ "map word_of_nat"] filter_cong)
  have pres: "map (\<lambda>j. (j, group_at ps j \<noteq> [])) xs = map (\<lambda>k. (word_of_nat k, chunk_of i cs k \<in> set ps)) [0..<length cs]"
    using ne by (auto simp: xs)
  have body: "concat (map (\<lambda>j. if group_at ps j = [] then [] else chunk_body (group_at ps j ! 0)) xs) = concat cs"
    if "set ps = chunk_of i cs ` {..<length cs}"
  proof -
    have "map (\<lambda>j. if group_at ps j = [] then [] else chunk_body (group_at ps j ! 0)) xs = map ((!) cs) [0..<length cs]"
      using ne hd that by (auto simp: xs chunk_of_def)
    then show ?thesis by (simp add: map_nth)
  qed
  show ?thesis
    using reassemble_Inr [OF ps(1) n(2) honest_guards [OF cs(2) ps(2)] xs_def refl, of I e]
    unfolding all miss pres using body e by (auto split: if_splits)
qed

theorem reassembly_exact_witness:
  "reassemble_chunks sample_integrity (map (chunk_of (replicate 16 1) [[5], [6], []]) [2, 0, 2, 1]) None
      = ReComplete [5, 6] (body_hash sample_integrity [5, 6])
   \<and> (\<exists>exts. reassemble_chunks sample_integrity (map (chunk_of (replicate 16 1) [[5], [6], []]) [2, 0]) None
      = RePartial exts [1])"
proof
  let ?cs = "[[5], [6], []] :: bytes list"
  have r: "{..<length ?cs} = {0, 1, 2}" by auto
  have "set (map (chunk_of (replicate 16 1) ?cs) [2, 0, 2, 1]) = chunk_of (replicate 16 1) ?cs ` {..<length ?cs}"
    unfolding r by auto
  then show "reassemble_chunks sample_integrity (map (chunk_of (replicate 16 1) ?cs) [2, 0, 2, 1]) None
      = ReComplete [5, 6] (body_hash sample_integrity [5, 6])"
    using reassembly_exact [of ?cs "map (chunk_of (replicate 16 1) ?cs) [2, 0, 2, 1]" "replicate 16 1" None sample_integrity]
    by simp
  have c: "chunk_of (replicate 16 1) ?cs 1 \<notin> set (map (chunk_of (replicate 16 1) ?cs) [2, 0])"
    by (simp add: chunk_of_def)
  then have "set (map (chunk_of (replicate 16 1) ?cs) [2, 0]) \<noteq> chunk_of (replicate 16 1) ?cs ` {..<length ?cs}"
    unfolding r by blast
  moreover have "filter (\<lambda>k. chunk_of (replicate 16 1) ?cs k \<notin> set (map (chunk_of (replicate 16 1) ?cs) [2, 0])) [0..<length ?cs] = [1]"
    using c by (simp add: upt_rec numeral_2_eq_2)
  moreover have "set (map (chunk_of (replicate 16 1) ?cs) [2, 0]) \<subseteq> chunk_of (replicate 16 1) ?cs ` {..<length ?cs}"
    unfolding r by auto
  ultimately show "\<exists>exts. reassemble_chunks sample_integrity (map (chunk_of (replicate 16 1) ?cs) [2, 0]) None
      = RePartial exts [1]"
    using reassembly_exact [of ?cs "map (chunk_of (replicate 16 1) ?cs) [2, 0]" "replicate 16 1" None sample_integrity]
    by auto
qed

end
