(* ===== verification/Ownership.thy ===== *)
theory Ownership
  imports Cbor_Determinism
begin

text \<open>
  Which heap a frame belongs to. The envelope key registry (\<^verbatim>\<open>envelope_keys.rs\<close>), subjects of
  version 2 (\<^verbatim>\<open>subject_v2.rs\<close>), ownership claims in envelopes and their agreement (\<^verbatim>\<open>ownership.rs\<close>), and the
  admission decision for one heap (\<^verbatim>\<open>admit.rs\<close>), all of \<^verbatim>\<open>residiuum-format/src\<close>. An array
  \<^verbatim>\<open>[u8; 16]\<close> is a byte list; that parsed ones have length 16 is proved.
\<close>

section \<open>Envelope keys\<close>

definition ENV_HEAP_ID :: u64 where "ENV_HEAP_ID = 31"
definition ENV_COLLECTION_ID :: u64 where "ENV_COLLECTION_ID = 32"
definition ENV_STREAM_ID :: u64 where "ENV_STREAM_ID = 33"
definition ENV_OWNERSHIP_PROFILE :: u64 where "ENV_OWNERSHIP_PROFILE = 34"
definition ENV_SOURCE_HEAP_ID :: u64 where "ENV_SOURCE_HEAP_ID = 35"
definition ENV_SOURCE_OBJECT_ID :: u64 where "ENV_SOURCE_OBJECT_ID = 36"
definition ENV_ATOMIC_ID :: u64 where "ENV_ATOMIC_ID = 37"
definition ENV_ATOMIC_ORDINAL :: u64 where "ENV_ATOMIC_ORDINAL = 38"
definition ENV_ATOMIC_CONTENT_ROOT :: u64 where "ENV_ATOMIC_CONTENT_ROOT = 39"
definition ENV_ATOMIC_COMMIT_POSITION :: u64 where "ENV_ATOMIC_COMMIT_POSITION = 40"
definition ENV_OPERATION_ID :: u64 where "ENV_OPERATION_ID = 41"
definition ENV_OPERATION_CONTENT_HASH :: u64 where "ENV_OPERATION_CONTENT_HASH = 42"

lemmas env_key_defs = ENV_HEAP_ID_def ENV_COLLECTION_ID_def ENV_STREAM_ID_def ENV_OWNERSHIP_PROFILE_def
  ENV_SOURCE_HEAP_ID_def ENV_SOURCE_OBJECT_ID_def ENV_ATOMIC_ID_def ENV_ATOMIC_ORDINAL_def
  ENV_ATOMIC_CONTENT_ROOT_def ENV_ATOMIC_COMMIT_POSITION_def ENV_OPERATION_ID_def
  ENV_OPERATION_CONTENT_HASH_def

definition is_atomic_extension_key :: "u64 \<Rightarrow> bool" where
  "is_atomic_extension_key key \<longleftrightarrow> ENV_ATOMIC_ID \<le> key \<and> key \<le> ENV_ATOMIC_COMMIT_POSITION"

definition is_ownership_key :: "u64 \<Rightarrow> bool" where
  "is_ownership_key key \<longleftrightarrow> ENV_HEAP_ID \<le> key \<and> key \<le> ENV_SOURCE_OBJECT_ID"

section \<open>Subjects\<close>

datatype subject_object_kind = SkHeapMetadata | SkCollection | SkStream

datatype subject_v2_error =
    SubjInvalidLength | SubjWrongVersion | SubjInvalidObjectKind | SubjKeyTooLong | SubjNonZeroMetadataObjectId

fun subject_kind_u8 :: "subject_object_kind \<Rightarrow> u8" where
  "subject_kind_u8 SkHeapMetadata = 0"
| "subject_kind_u8 SkCollection = 1"
| "subject_kind_u8 SkStream = 2"

definition subject_kind_from_u8 :: "u8 \<Rightarrow> subject_v2_error + subject_object_kind" where
  "subject_kind_from_u8 v =
     (if v = 0 then Inr SkHeapMetadata else if v = 1 then Inr SkCollection
      else if v = 2 then Inr SkStream else Inl SubjInvalidObjectKind)"

record subject_v2 =
  subj_heap_id :: bytes
  subj_object_kind :: subject_object_kind
  subj_object_id :: bytes
  subj_key :: bytes

definition SUBJECT_HEADER_LEN :: nat where "SUBJECT_HEADER_LEN = 36"

definition encode_subject_v2 ::
    "bytes \<Rightarrow> subject_object_kind \<Rightarrow> bytes \<Rightarrow> bytes \<Rightarrow> subject_v2_error + bytes" where
  "encode_subject_v2 heap_id object_kind object_id key =
     (if 2048 < length key then Inl SubjKeyTooLong
      else if object_kind = SkHeapMetadata \<and> object_id \<noteq> replicate 16 0 then Inl SubjNonZeroMetadataObjectId
      else Inr ([0x02] @ heap_id @ [subject_kind_u8 object_kind] @ object_id
        @ to_be_bytes (word_of_nat (length key) :: u16) @ key))"

definition decode_subject_v2 :: "bytes \<Rightarrow> subject_v2_error + subject_v2" where
  "decode_subject_v2 bs =
     (if length bs < SUBJECT_HEADER_LEN then Inl SubjInvalidLength
      else if bs ! 0 \<noteq> 0x02 then Inl SubjWrongVersion
      else and_then (subject_kind_from_u8 (bs ! 17)) (\<lambda>object_kind.
        let heap_id = subslice 1 17 bs; object_id = subslice 18 34 bs;
            key_len = unat (from_be_bytes [bs ! 34, bs ! 35] :: u16)
        in if length bs \<noteq> SUBJECT_HEADER_LEN + key_len then Inl SubjInvalidLength
        else if 2048 < key_len then Inl SubjKeyTooLong
        else if object_kind = SkHeapMetadata \<and> object_id \<noteq> replicate 16 0
        then Inl SubjNonZeroMetadataObjectId
        else Inr \<lparr>subj_heap_id = heap_id, subj_object_kind = object_kind, subj_object_id = object_id,
          subj_key = drop SUBJECT_HEADER_LEN bs\<rparr>))"

section \<open>Ownership claims\<close>

definition OWNERSHIP_PROFILE_V1 :: u64 where "OWNERSHIP_PROFILE_V1 = 1"

datatype ownership_evidence =
    OwnKnown (own_heap: bytes) (own_profile: u64) (own_collection: "bytes option") (own_stream: "bytes option")
  | OwnUnknown

datatype ownership_error =
    OwnEnvelope cbor_envelope_error | OwnConflict | OwnUnknownKey u64 | OwnBadProfile | OwnBadLength

definition expect_b16 :: "cbor_value \<Rightarrow> ownership_error + bytes" where
  "expect_b16 v = (case v of Bytes b \<Rightarrow> if length b = 16 then Inr b else Inl OwnBadLength | _ \<Rightarrow> Inl OwnBadLength)"

record own_fields =
  of_heap :: "bytes option"
  of_profile :: "u64 option"
  of_collection :: "bytes option"
  of_stream :: "bytes option"

definition own_entry :: "own_fields \<Rightarrow> u64 \<Rightarrow> cbor_value \<Rightarrow> ownership_error + own_fields" where
  "own_entry st k v =
     (if 1 \<le> k \<and> k \<le> 30 then Inr st
      else if k = ENV_HEAP_ID then and_then (expect_b16 v) (\<lambda>b. Inr (st\<lparr>of_heap := Some b\<rparr>))
      else if k = ENV_COLLECTION_ID then and_then (expect_b16 v) (\<lambda>b. Inr (st\<lparr>of_collection := Some b\<rparr>))
      else if k = ENV_STREAM_ID then and_then (expect_b16 v) (\<lambda>b. Inr (st\<lparr>of_stream := Some b\<rparr>))
      else if k = ENV_OWNERSHIP_PROFILE then
        (case v of Uint u \<Rightarrow> Inr (st\<lparr>of_profile := Some u\<rparr>) | _ \<Rightarrow> Inl OwnBadLength)
      else if k = ENV_SOURCE_HEAP_ID \<or> k = ENV_SOURCE_OBJECT_ID then Inr st
      else if is_atomic_extension_key k then Inr st
      else if k = ENV_OPERATION_ID \<or> k = ENV_OPERATION_CONTENT_HASH then Inr st
      else Inl (OwnUnknownKey k))"

fun own_entries :: "own_fields \<Rightarrow> (u64 \<times> cbor_value) list \<Rightarrow> ownership_error + own_fields" where
  "own_entries st [] = Inr st"
| "own_entries st ((k, v) # es) = and_then (own_entry st k v) (\<lambda>st. own_entries st es)"

definition parse_ownership_envelope :: "bytes \<Rightarrow> ownership_error + ownership_evidence" where
  "parse_ownership_envelope bs =
     (if bs = EMPTY_ENVELOPE then Inr OwnUnknown
      else and_then (map_err OwnEnvelope (decode_deterministic_uint_map bs)) (\<lambda>es.
        and_then (own_entries \<lparr>of_heap = None, of_profile = None, of_collection = None, of_stream = None\<rparr> es)
          (\<lambda>st. case (of_heap st, of_profile st) of
             (Some heap_id, Some profile) \<Rightarrow>
               if profile \<noteq> OWNERSHIP_PROFILE_V1 then Inl OwnBadProfile
               else Inr (OwnKnown heap_id profile (of_collection st) (of_stream st))
           | _ \<Rightarrow> Inr OwnUnknown)))"

definition encode_heap_binding_envelope :: "bytes \<Rightarrow> cbor_envelope_error + bytes" where
  "encode_heap_binding_envelope heap_id = encode_deterministic_uint_map
     [(ENV_HEAP_ID, Bytes heap_id), (ENV_OWNERSHIP_PROFILE, Uint OWNERSHIP_PROFILE_V1)]"

definition encode_collection_binding_envelope :: "bytes \<Rightarrow> bytes \<Rightarrow> cbor_envelope_error + bytes" where
  "encode_collection_binding_envelope heap_id collection_id = encode_deterministic_uint_map
     [(ENV_HEAP_ID, Bytes heap_id), (ENV_COLLECTION_ID, Bytes collection_id),
      (ENV_OWNERSHIP_PROFILE, Uint OWNERSHIP_PROFILE_V1)]"

definition encode_stream_binding_envelope :: "bytes \<Rightarrow> bytes \<Rightarrow> cbor_envelope_error + bytes" where
  "encode_stream_binding_envelope heap_id stream_id = encode_deterministic_uint_map
     [(ENV_HEAP_ID, Bytes heap_id), (ENV_STREAM_ID, Bytes stream_id),
      (ENV_OWNERSHIP_PROFILE, Uint OWNERSHIP_PROFILE_V1)]"

definition option_or :: "'a option \<Rightarrow> 'a option \<Rightarrow> 'a option" where
  "option_or a b = (case a of Some x \<Rightarrow> Some x | None \<Rightarrow> b)"

fun agree_ownership :: "ownership_evidence \<Rightarrow> ownership_evidence \<Rightarrow> ownership_error + ownership_evidence" where
  "agree_ownership (OwnKnown h1 p1 c1 s1) (OwnKnown h2 p2 c2 s2) =
     (if h1 \<noteq> h2 then Inl OwnConflict
      else if c1 \<noteq> None \<and> c2 \<noteq> None \<and> c1 \<noteq> c2 then Inl OwnConflict
      else if s1 \<noteq> None \<and> s2 \<noteq> None \<and> s1 \<noteq> s2 then Inl OwnConflict
      else Inr (OwnKnown h1 (max p1 p2) (option_or c1 c2) (option_or s1 s2)))"
| "agree_ownership (OwnKnown h1 p1 c1 s1) OwnUnknown = Inr (OwnKnown h1 p1 c1 s1)"
| "agree_ownership OwnUnknown (OwnKnown h2 p2 c2 s2) = Inr (OwnKnown h2 p2 c2 s2)"
| "agree_ownership OwnUnknown OwnUnknown = Inr OwnUnknown"

section \<open>Admission\<close>

datatype admit_decision =
    Admit ownership_evidence
  | RejectUnknown
  | RejectConflict
  | RejectWrongHeap bytes
  | RejectSubjectMismatch
  | RejectMalformed

datatype admit_error = AdmOwnership ownership_error | AdmSubject subject_v2_error

definition reject_of :: "ownership_error \<Rightarrow> admit_decision" where
  "reject_of e = (case e of OwnConflict \<Rightarrow> RejectConflict | _ \<Rightarrow> RejectMalformed)"

definition admit_subject :: "bytes \<Rightarrow> ownership_evidence \<Rightarrow> bytes \<Rightarrow> admit_decision + unit" where
  "admit_subject bound_heap agreed subj =
     (case decode_subject_v2 subj of
        Inl _ \<Rightarrow> Inl RejectMalformed
      | Inr sv2 \<Rightarrow>
          if subj_heap_id sv2 \<noteq> bound_heap then Inl (RejectWrongHeap (subj_heap_id sv2))
          else (case agreed of
            OwnUnknown \<Rightarrow> Inr ()
          | OwnKnown heap_id _ collection_id stream_id \<Rightarrow>
              if heap_id \<noteq> subj_heap_id sv2 then Inl RejectSubjectMismatch
              else (case subj_object_kind sv2 of
                SkHeapMetadata \<Rightarrow>
                  if collection_id \<noteq> None \<or> stream_id \<noteq> None then Inl RejectSubjectMismatch else Inr ()
              | SkCollection \<Rightarrow>
                  if collection_id \<noteq> Some (subj_object_id sv2) then Inl RejectSubjectMismatch else Inr ()
              | SkStream \<Rightarrow>
                  if stream_id \<noteq> Some (subj_object_id sv2) then Inl RejectSubjectMismatch else Inr ())))"

definition admit_frame_to_heap :: "bytes \<Rightarrow> bytes \<Rightarrow> bytes \<Rightarrow> bytes option \<Rightarrow> admit_decision" where
  "admit_frame_to_heap bound_heap segment_descriptor_envelope frame_envelope subject =
     (let r = and_then (map_err reject_of (parse_ownership_envelope segment_descriptor_envelope)) (\<lambda>seg.
        and_then (map_err reject_of (parse_ownership_envelope frame_envelope)) (\<lambda>frame.
        and_then (map_err reject_of (agree_ownership seg frame)) (\<lambda>agreed.
        and_then (case agreed of
            OwnUnknown \<Rightarrow> Inl RejectUnknown
          | OwnKnown heap_id _ _ _ \<Rightarrow>
              if heap_id \<noteq> bound_heap then Inl (RejectWrongHeap heap_id) else Inr ()) (\<lambda>_.
        and_then (case subject of None \<Rightarrow> Inr () | Some subj \<Rightarrow> admit_subject bound_heap agreed subj) (\<lambda>_.
          Inr agreed)))))
      in case r of Inl d \<Rightarrow> d | Inr agreed \<Rightarrow> Admit agreed)"

definition salvage_admit_frame :: "bytes \<Rightarrow> bytes \<Rightarrow> admit_error + ownership_evidence" where
  "salvage_admit_frame frame_envelope subject =
     and_then (map_err AdmOwnership (parse_ownership_envelope frame_envelope)) (\<lambda>frame.
     and_then (map_err AdmSubject (decode_subject_v2 subject)) (\<lambda>sv2.
       case frame of
         OwnKnown heap_id _ _ _ \<Rightarrow>
           if heap_id = subj_heap_id sv2 then Inr frame else Inl (AdmOwnership OwnConflict)
       | OwnUnknown \<Rightarrow> Inr OwnUnknown))"

section \<open>Subject layout\<close>

definition subject_ok :: "subject_v2 \<Rightarrow> bool" where
  "subject_ok s \<longleftrightarrow> length (subj_heap_id s) = 16 \<and> length (subj_object_id s) = 16 \<and> length (subj_key s) \<le> 2048
     \<and> (subj_object_kind s = SkHeapMetadata \<longrightarrow> subj_object_id s = replicate 16 0)"

lemma kind_from_u8_iff: "subject_kind_from_u8 b = Inr k \<longleftrightarrow> b = subject_kind_u8 k"
  by (cases k) (auto simp: subject_kind_from_u8_def)

lemma kind_u8_from [simp]: "subject_kind_from_u8 (subject_kind_u8 k) = Inr k"
  by (simp add: kind_from_u8_iff)

lemma subject_header_split:
  assumes "36 \<le> length bs"
  shows "bs = [bs ! 0] @ subslice 1 17 bs @ [bs ! 17] @ subslice 18 34 bs @ [bs ! 34, bs ! 35] @ drop 36 bs"
proof -
  have one: "[bs ! i] = subslice i (Suc i) bs" if "i < length bs" for i
    using that by (simp add: subslice_def take_Suc_conv_app_nth flip: Cons_nth_drop_Suc)
  have "[bs ! 34, bs ! 35] = [bs ! 34] @ [bs ! 35]" by simp
  also have "\<dots> = subslice 34 36 bs"
    using one [of 34] one [of 35] subslice_join [of 34 35 36 bs] assms by simp
  finally have e: "[bs ! 34, bs ! 35] = subslice 34 36 bs" .
  have d: "drop 36 bs = subslice 36 (length bs) bs" by (simp add: subslice_def)
  have h: "[bs ! 0] = subslice 0 1 bs" "[bs ! 17] = subslice 17 18 bs"
    using one [of 0] one [of 17] assms by (cases bs; simp)+
  show ?thesis unfolding e d h using assms by (simp add: subslice_join)
qed

lemma decode_encode_subject:
  assumes "subject_ok s" and "encode_subject_v2 (subj_heap_id s) (subj_object_kind s) (subj_object_id s) (subj_key s) = Inr bs"
  shows "decode_subject_v2 bs = Inr s"
proof -
  let ?n = "word_of_nat (length (subj_key s)) :: u16"
  have len: "length (subj_heap_id s) = 16" "length (subj_object_id s) = 16" "length (subj_key s) \<le> 2048"
    using assms(1) by (simp_all add: subject_ok_def)
  then have n: "unat ?n = length (subj_key s)" by (simp add: unat_of_nat)
  have "length (to_be_bytes ?n) = 2" by simp
  then obtain a b where ab: "to_be_bytes ?n = [a, b]" by (auto simp: length_Suc_conv numeral_2_eq_2 simp del: length_to_be_bytes)
  then have f: "from_be_bytes [a, b] = ?n" by (metis be_roundtrips(1))
  have bs: "bs = [0x02] @ subj_heap_id s @ [subject_kind_u8 (subj_object_kind s)] @ subj_object_id s @ [a, b] @ subj_key s"
    using assms by (auto simp: encode_subject_v2_def ab split: if_splits)
  have g: "bs ! 0 = 0x02" "subslice (Suc 0) 17 bs = subj_heap_id s" "bs ! 17 = subject_kind_u8 (subj_object_kind s)"
      "subslice 18 34 bs = subj_object_id s" "bs ! 34 = a" "bs ! 35 = b" "drop 36 bs = subj_key s"
      "length bs = 36 + length (subj_key s)"
    using len unfolding bs by (simp_all add: nth_append subslice_def)
  show ?thesis using assms(1) len n
    by (simp add: decode_subject_v2_def SUBJECT_HEADER_LEN_def g f kind_from_u8_iff Let_def subject_ok_def)
qed

lemma encode_decode_subject:
  assumes "decode_subject_v2 bs = Inr s"
  shows "subject_ok s" and "encode_subject_v2 (subj_heap_id s) (subj_object_kind s) (subj_object_id s) (subj_key s) = Inr bs"
proof -
  from assms have len: "36 \<le> length bs" and b: "bs ! 0 = 0x02" "bs ! 17 = subject_kind_u8 (subj_object_kind s)"
    and k: "length bs = 36 + unat (from_be_bytes [bs ! 34, bs ! 35] :: u16)"
      "unat (from_be_bytes [bs ! 34, bs ! 35] :: u16) \<le> 2048"
    and z: "subj_object_kind s = SkHeapMetadata \<longrightarrow> subj_object_id s = replicate 16 0"
    and s: "subj_heap_id s = subslice 1 17 bs" "subj_object_id s = subslice 18 34 bs" "subj_key s = drop 36 bs"
    by (auto simp: decode_subject_v2_def SUBJECT_HEADER_LEN_def result_simps kind_from_u8_iff Let_def split: if_splits)
  show "subject_ok s" using len k s z by (simp add: subject_ok_def)
  have "word_of_nat (length (subj_key s)) = (from_be_bytes [bs ! 34, bs ! 35] :: u16)"
    using k(1) s(3) by (simp add: word_unat_eq_iff)
  then have t: "to_be_bytes (word_of_nat (length (subj_key s)) :: u16) = [bs ! 34, bs ! 35]"
    by (simp add: to_from_be_bytes)
  show "encode_subject_v2 (subj_heap_id s) (subj_object_kind s) (subj_object_id s) (subj_key s) = Inr bs"
    using subject_header_split [OF len] b s z k t by (simp add: encode_subject_v2_def)
qed

interpretation subj: canonical_codec
  "\<lambda>s. encode_subject_v2 (subj_heap_id s) (subj_object_kind s) (subj_object_id s) (subj_key s)"
  decode_subject_v2 subject_ok
proof unfold_locales
  show "\<exists>bs. encode_subject_v2 (subj_heap_id s) (subj_object_kind s) (subj_object_id s) (subj_key s) = Inr bs"
    if "subject_ok s" for s
    using that by (simp add: encode_subject_v2_def subject_ok_def)
qed (fact decode_encode_subject encode_decode_subject)+

section \<open>What an envelope claims\<close>

text \<open>The entries an envelope may hold under profile 1, and the fields a parsed claim takes from
  them.\<close>

fun own_entry_ok :: "u64 \<times> cbor_value \<Rightarrow> bool" where
  "own_entry_ok (k, v) \<longleftrightarrow> 1 \<le> k \<and> k \<le> 42
     \<and> (k = 31 \<or> k = 32 \<or> k = 33 \<longrightarrow> (\<exists>b. v = Bytes b \<and> length b = 16)) \<and> (k = 34 \<longrightarrow> (\<exists>u. v = Uint u))"

fun bytes_of :: "cbor_value \<Rightarrow> bytes" where
  "bytes_of (Bytes b) = b"
| "bytes_of _ = []"

fun uint_of :: "cbor_value \<Rightarrow> u64" where
  "uint_of (Uint u) = u"
| "uint_of _ = 0"

definition field :: "(cbor_value \<Rightarrow> 'a) \<Rightarrow> u64 \<Rightarrow> (u64 \<times> cbor_value) list \<Rightarrow> 'a option" where
  "field f k es = map_option f (map_of es k)"

lemma expect_b16_iff: "expect_b16 v = Inr b \<longleftrightarrow> v = Bytes b \<and> length b = 16"
  by (cases v) (auto simp: expect_b16_def)

lemma u64_range_cases:
  assumes "1 \<le> (k :: u64)" and "k \<le> 42" and "\<not> k \<le> 30"
  shows "k = 31 \<or> k = 32 \<or> k = 33 \<or> k = 34 \<or> k = 35 \<or> k = 36 \<or> (37 \<le> k \<and> k \<le> 40) \<or> k = 41 \<or> k = 42"
  using assms by (simp add: word_le_nat_alt word_unat_eq_iff) linarith

lemma own_entry_iff:
  "own_entry st k v = Inr t \<longleftrightarrow> own_entry_ok (k, v) \<and> t =
     (if k = 31 then st\<lparr>of_heap := Some (bytes_of v)\<rparr> else if k = 32 then st\<lparr>of_collection := Some (bytes_of v)\<rparr>
      else if k = 33 then st\<lparr>of_stream := Some (bytes_of v)\<rparr>
      else if k = 34 then st\<lparr>of_profile := Some (uint_of v)\<rparr> else st)"
proof (cases "1 \<le> k \<and> k \<le> 42")
  case True
  then consider "k \<le> 30" | "k = 31" | "k = 32" | "k = 33" | "k = 34" | "k = 35" | "k = 36" | "37 \<le> k \<and> k \<le> 40" | "k = 41" | "k = 42"
    using u64_range_cases [of k] by blast
  then show ?thesis
  proof cases
    case 1
    then have "k < 31" by (simp add: word_less_nat_alt word_le_nat_alt)
    then show ?thesis using True 1 by (auto simp: own_entry_def)
  next
    case 8
    then have "\<not> k \<le> 30" "36 < k" by (auto simp: word_le_nat_alt word_less_nat_alt)
    then show ?thesis using True 8 by (auto simp: own_entry_def env_key_defs is_atomic_extension_key_def)
  qed (auto simp: own_entry_def env_key_defs result_simps expect_b16_iff is_atomic_extension_key_def split: cbor_value.splits)
next
  case False
  then have "\<not> (1 \<le> k \<and> k \<le> 30)" "k \<noteq> 31" "k \<noteq> 32" "k \<noteq> 33" "k \<noteq> 34" "k \<noteq> 35" "k \<noteq> 36" "\<not> (37 \<le> k \<and> k \<le> 40)"
      "k \<noteq> 41" "k \<noteq> 42"
    by (auto simp: word_le_nat_alt)
  then show ?thesis using False by (auto simp: own_entry_def env_key_defs is_atomic_extension_key_def)
qed

lemma option_or_simps [simp]: "option_or x None = x" "option_or None x = x" "option_or (Some y) x = Some y"
  by (cases x; simp add: option_or_def)+

lemma own_entries_iff:
  "distinct (map fst es) \<Longrightarrow> own_entries st es = Inr t \<longleftrightarrow> list_all own_entry_ok es \<and>
     t = \<lparr>of_heap = option_or (field bytes_of 31 es) (of_heap st),
          of_profile = option_or (field uint_of 34 es) (of_profile st),
          of_collection = option_or (field bytes_of 32 es) (of_collection st),
          of_stream = option_or (field bytes_of 33 es) (of_stream st)\<rparr>"
proof (induction es arbitrary: st)
  case (Cons e es)
  obtain k v where e: "e = (k, v)" by (cases e)
  have "k \<notin> set (map fst es)" using Cons.prems by (simp add: e)
  then have n: "map_of es k = None" by (simp add: map_of_eq_None_iff)
  have "own_entries st (e # es) = Inr t \<longleftrightarrow> own_entry_ok (k, v) \<and> own_entries
     (if k = 31 then st\<lparr>of_heap := Some (bytes_of v)\<rparr> else if k = 32 then st\<lparr>of_collection := Some (bytes_of v)\<rparr>
      else if k = 33 then st\<lparr>of_stream := Some (bytes_of v)\<rparr>
      else if k = 34 then st\<lparr>of_profile := Some (uint_of v)\<rparr> else st) es = Inr t"
    by (auto simp: e result_simps own_entry_iff)
  then show ?case using Cons.IH Cons.prems n
    by (auto simp: e field_def option_or_def split: if_splits option.splits)
qed (auto simp: field_def option_or_def)

lemma decoded_keys_distinct: "decode_deterministic_uint_map bs = Inr es \<Longrightarrow> distinct (map fst es)"
  by (auto simp: decode_iff canonical_value_def strict_sorted_iff)

text \<open>The claim an envelope makes, read off its entries.\<close>

definition claim_of :: "(u64 \<times> cbor_value) list \<Rightarrow> ownership_evidence" where
  "claim_of es = (case (field bytes_of 31 es, field uint_of 34 es) of
     (Some h, Some p) \<Rightarrow> OwnKnown h p (field bytes_of 32 es) (field bytes_of 33 es)
   | _ \<Rightarrow> OwnUnknown)"

lemma parse_ownership_iff:
  "parse_ownership_envelope bs = Inr a \<longleftrightarrow> (\<exists>es. decode_deterministic_uint_map bs = Inr es
     \<and> list_all own_entry_ok es \<and> a = claim_of es \<and> (a \<noteq> OwnUnknown \<longrightarrow> own_profile a = 1))"
proof (cases "bs = EMPTY_ENVELOPE")
  case True
  have "decode_deterministic_uint_map EMPTY_ENVELOPE = Inr []" by code_simp
  then show ?thesis using True by (auto simp: parse_ownership_envelope_def claim_of_def field_def)
next
  case False
  show ?thesis
  proof (cases "decode_deterministic_uint_map bs")
    case (Inr es)
    show ?thesis using False Inr own_entries_iff [OF decoded_keys_distinct [OF Inr]]
      by (auto simp: parse_ownership_envelope_def result_simps claim_of_def OWNERSHIP_PROFILE_V1_def
          split: option.splits if_splits)
  qed (use False in \<open>auto simp: parse_ownership_envelope_def\<close>)
qed

lemma admit_iff:
  "admit_frame_to_heap bound seg fr subject = Admit own \<longleftrightarrow> (\<exists>a b p c st. parse_ownership_envelope seg = Inr a
     \<and> parse_ownership_envelope fr = Inr b \<and> agree_ownership a b = Inr own \<and> own = OwnKnown bound p c st
     \<and> (\<forall>s. subject = Some s \<longrightarrow> (\<exists>sv. decode_subject_v2 s = Inr sv \<and> subj_heap_id sv = bound
          \<and> (case subj_object_kind sv of SkHeapMetadata \<Rightarrow> c = None \<and> st = None
             | SkCollection \<Rightarrow> c = Some (subj_object_id sv) | SkStream \<Rightarrow> st = Some (subj_object_id sv)))))"
proof -
  have "reject_of e \<noteq> Admit own" for e by (cases e) (simp_all add: reject_of_def)
  moreover have "admit_subject bound g s = Inl d \<Longrightarrow> d \<noteq> Admit own" for g s d
    by (auto simp: admit_subject_def split: sum.splits if_splits ownership_evidence.splits subject_object_kind.splits)
  ultimately show ?thesis
    by (auto simp: admit_frame_to_heap_def Let_def and_then_def map_err_def split: sum.splits ownership_evidence.splits
        if_splits option.splits) (auto simp: admit_subject_def split: sum.splits if_splits subject_object_kind.splits)
qed

lemma binding_claims:
  assumes "length h = 16"
  shows "\<exists>bs. encode_heap_binding_envelope h = Inr bs \<and> parse_ownership_envelope bs = Inr (OwnKnown h 1 None None)"
    and "length c = 16 \<Longrightarrow> \<exists>bs. encode_collection_binding_envelope h c = Inr bs
      \<and> parse_ownership_envelope bs = Inr (OwnKnown h 1 (Some c) None)"
    and "length c = 16 \<Longrightarrow> \<exists>bs. encode_stream_binding_envelope h c = Inr bs
      \<and> parse_ownership_envelope bs = Inr (OwnKnown h 1 None (Some c))"
proof -
  have claim: "\<exists>bs. encode_deterministic_uint_map es = Inr bs \<and> parse_ownership_envelope bs = Inr (claim_of es)"
    if es: "canonical_value (Map es)" "list_all own_entry_ok es" "claim_of es \<noteq> OwnUnknown \<longrightarrow> own_profile (claim_of es) = 1" for es
    using env.roundtrip [OF es(1)] es(2,3) parse_ownership_iff by blast
  show "\<exists>bs. encode_heap_binding_envelope h = Inr bs \<and> parse_ownership_envelope bs = Inr (OwnKnown h 1 None None)"
    using claim [of "[(31, Bytes h), (34, Uint 1)]"] assms
    by (simp add: encode_heap_binding_envelope_def env_key_defs OWNERSHIP_PROFILE_V1_def canonical_value_def
        head_len_def claim_of_def field_def)
  show "\<exists>bs. encode_collection_binding_envelope h c = Inr bs
      \<and> parse_ownership_envelope bs = Inr (OwnKnown h 1 (Some c) None)" if "length c = 16"
    using claim [of "[(31, Bytes h), (32, Bytes c), (34, Uint 1)]"] assms that
    by (simp add: encode_collection_binding_envelope_def env_key_defs OWNERSHIP_PROFILE_V1_def canonical_value_def
        head_len_def claim_of_def field_def)
  show "\<exists>bs. encode_stream_binding_envelope h c = Inr bs
      \<and> parse_ownership_envelope bs = Inr (OwnKnown h 1 None (Some c))" if "length c = 16"
    using claim [of "[(31, Bytes h), (33, Bytes c), (34, Uint 1)]"] assms that
    by (simp add: encode_stream_binding_envelope_def env_key_defs OWNERSHIP_PROFILE_V1_def canonical_value_def
        head_len_def claim_of_def field_def)
qed

text \<open>Two optional identifiers clash when both are present and differ; claims agree when the heaps
  are equal and no identifier clashes.\<close>

definition clash :: "'a option \<Rightarrow> 'a option \<Rightarrow> bool" where
  "clash x y \<longleftrightarrow> x \<noteq> None \<and> y \<noteq> None \<and> x \<noteq> y"

lemma agree_known: "agree_ownership (OwnKnown h1 p1 c1 s1) (OwnKnown h2 p2 c2 s2) =
    (if h1 = h2 \<and> \<not> clash c1 c2 \<and> \<not> clash s1 s2
     then Inr (OwnKnown h1 (max p1 p2) (option_or c1 c2) (option_or s1 s2)) else Inl OwnConflict)"
  by (simp add: clash_def)

lemma clash_comm: "clash x y \<longleftrightarrow> clash y x" and or_comm: "\<not> clash x y \<Longrightarrow> option_or x y = option_or y x"
  by (cases x; cases y; auto simp: clash_def)+

lemma or_assoc: "option_or (option_or x y) z = option_or x (option_or y z)"
  by (cases x) simp_all

lemma clash_or:
  "\<not> clash x y \<Longrightarrow> clash (option_or x y) z \<longleftrightarrow> clash x z \<or> clash y z"
  "\<not> clash y z \<Longrightarrow> clash x (option_or y z) \<longleftrightarrow> clash x y \<or> clash x z"
  by (cases x; cases y; cases z; auto simp: clash_def)+

lemma agree_comm: "agree_ownership a b = agree_ownership b a"
  by (cases a; cases b)
    (auto simp: agree_known clash_comm max.commute simp del: agree_ownership.simps(1) dest: or_comm)

lemma agree_assoc:
  "and_then (agree_ownership a b) (\<lambda>x. agree_ownership x c) = and_then (agree_ownership b c) (agree_ownership a)"
  by (cases a; cases b; cases c)
    (auto simp: agree_known clash_or or_assoc max.assoc simp del: agree_ownership.simps(1))

lemma claim_named:
  "map_of es 31 = Some (Bytes h) \<Longrightarrow> map_of es 34 \<noteq> None \<Longrightarrow> claim_of es \<noteq> OwnUnknown \<and> own_heap (claim_of es) = h"
  by (auto simp: claim_of_def field_def)

lemma claim_names:
  assumes "claim_of es \<noteq> OwnUnknown" and "list_all own_entry_ok es"
  shows "map_of es 31 = Some (Bytes (own_heap (claim_of es)))"
proof -
  obtain v where v: "map_of es 31 = Some v" "own_heap (claim_of es) = bytes_of v"
    using assms(1) by (auto simp: claim_of_def field_def split: option.splits)
  then have "own_entry_ok (31, v)" using assms(2) map_of_SomeD [OF v(1)] unfolding list_all_iff by blast
  then show ?thesis using v by auto
qed

lemma agree_heap:
  "agree_ownership a b = Inr (OwnKnown h p c st) \<Longrightarrow>
    (\<forall>x \<in> {a, b}. x = OwnUnknown \<or> own_heap x = h) \<and> (\<exists>x \<in> {a, b}. x \<noteq> OwnUnknown)"
  by (cases a; cases b) (auto split: if_splits)

section \<open>Properties\<close>

text \<open>The order in which ownership claims are compared does not matter. Agreement is
  commutative, and three claims give the same result or the same conflict however they are
  grouped.\<close>

lemma claims_agree_in_any_order:
  "agree_ownership a b = agree_ownership b a
   \<and> and_then (agree_ownership a b) (\<lambda>x. agree_ownership x c) = and_then (agree_ownership b c) (agree_ownership a)"
  using agree_comm agree_assoc by blast



text \<open>A frame written for a collection is admitted to its heap and to no other. The binding
  envelopes and the subject the encoders produce for one heap are admitted under that heap with
  the collection as agreed, and under every other heap refused as belonging to this one.\<close>

lemma written_frames_admitted:
  assumes "length h = 16" and "length c = 16" and "length key \<le> 2048"
  shows "\<exists>seg fr s. encode_heap_binding_envelope h = Inr seg \<and> encode_collection_binding_envelope h c = Inr fr
    \<and> encode_subject_v2 h SkCollection c key = Inr s
    \<and> (\<forall>bound. admit_frame_to_heap bound seg fr (Some s)
        = (if bound = h then Admit (OwnKnown h 1 (Some c) None) else RejectWrongHeap h))"
proof -
  obtain seg fr where e: "encode_heap_binding_envelope h = Inr seg"
      "parse_ownership_envelope seg = Inr (OwnKnown h 1 None None)"
      "encode_collection_binding_envelope h c = Inr fr"
      "parse_ownership_envelope fr = Inr (OwnKnown h 1 (Some c) None)"
    using binding_claims(1) [OF assms(1)] binding_claims(2) [OF assms(1,2)] by blast
  let ?s = "\<lparr>subj_heap_id = h, subj_object_kind = SkCollection, subj_object_id = c, subj_key = key\<rparr>"
  obtain s where s: "encode_subject_v2 h SkCollection c key = Inr s" "decode_subject_v2 s = Inr ?s"
    using subj.roundtrip [of ?s] assms by (auto simp: subject_ok_def)
  have "admit_frame_to_heap bound seg fr (Some s)
        = (if bound = h then Admit (OwnKnown h 1 (Some c) None) else RejectWrongHeap h)" for bound
    using e(2,4) s(2) by (simp add: admit_frame_to_heap_def admit_subject_def)
  with e(1,3) s(1) show ?thesis by blast
qed

text \<open>C32: a missing claim is not a reason to refuse. A frame with an empty envelope and no
  subject, which claims no owner at all, is admitted as soon as the segment descriptor names the
  bound heap; and the other way round.\<close>

theorem unclaimed_frames_admitted:
  assumes "parse_ownership_envelope env = Inr (OwnKnown h p c st)"
  shows "admit_frame_to_heap h env EMPTY_ENVELOPE None = Admit (OwnKnown h p c st)
    \<and> admit_frame_to_heap h EMPTY_ENVELOPE env None = Admit (OwnKnown h p c st)"
proof -
  have "parse_ownership_envelope EMPTY_ENVELOPE = Inr OwnUnknown" by (simp add: parse_ownership_envelope_def)
  with assms show ?thesis by (auto simp: admit_iff)
qed

theorem unclaimed_frames_admitted_witness:
  "\<exists>env. parse_ownership_envelope env = Inr (OwnKnown (replicate 16 4) 1 None None)
    \<and> admit_frame_to_heap (replicate 16 4) env EMPTY_ENVELOPE None = Admit (OwnKnown (replicate 16 4) 1 None None)"
proof -
  obtain env where "parse_ownership_envelope env = Inr (OwnKnown (replicate 16 4) 1 None None)"
    using binding_claims(1) [of "replicate 16 4"] by auto
  from this unclaimed_frames_admitted [OF this] show ?thesis by blast
qed

end
