(* ===== verification/Heap_Rights.thy ===== *)
theory Heap_Rights
  imports Ordered_Map
begin

text \<open>
  The vocabulary of the authority plane (\<^verbatim>\<open>residiuum-heap/src\<close>): errors, identities, trusted time, the
  rights bitmap, the operation registry and certificate constraints (\<^verbatim>\<open>error.rs\<close>, \<^verbatim>\<open>ids.rs\<close>,
  \<^verbatim>\<open>security_time.rs\<close>, \<^verbatim>\<open>rights.rs\<close>, \<^verbatim>\<open>constraints.rs\<close>). The registry tables are generated by the build:
  they are the record \<open>registry\<close>, an argument of the functions that consult them.
\<close>

text \<open>The bytes of an ASCII string literal.\<close>

definition ascii :: "string \<Rightarrow> bytes" where
  "ascii s = map of_char s"

section \<open>Errors\<close>

datatype heap_unavailable_cause =
    MalformedOrBadSignature | UnknownOperation | InsufficientRights | ConstraintDenied | InvalidState
  | StaleAuthority | NotYetValidOrExpired | Blacklisted | InvalidIdentity | Denied

datatype heap_error =
    HeapUnavailable
  | HeapUnavailableDetailed heap_unavailable_cause
  | HeapInvalidArgument string

definition heap_unavailable :: "heap_unavailable_cause \<Rightarrow> heap_error" where
  "heap_unavailable cause = HeapUnavailableDetailed cause"

definition public_code :: "heap_error \<Rightarrow> string" where
  "public_code e = ''heap_unavailable''"

section \<open>Identities\<close>

text \<open>All identity types are the same newtype over sixteen bytes; \<open>name\<close> is the type's name.\<close>

definition id_from_bytes :: "string \<Rightarrow> bytes \<Rightarrow> heap_error + bytes" where
  "id_from_bytes name bs =
     (if bs = replicate 16 0 then Inl (HeapInvalidArgument (name @ '' is zero''))
      else if drop_bit 4 (bs ! 6 AND 0xf0) \<noteq> 4 then Inl (HeapInvalidArgument (name @ '' must be UUIDv4''))
      else if drop_bit 6 (bs ! 8 AND 0xc0) \<noteq> 2 then Inl (HeapInvalidArgument (name @ '' must be RFC variant''))
      else Inr bs)"

definition id_from_bytes_unchecked_nonzero :: "string \<Rightarrow> bytes \<Rightarrow> heap_error + bytes" where
  "id_from_bytes_unchecked_nonzero name bs =
     (if bs = replicate 16 0 then Inl (HeapInvalidArgument (name @ '' is zero'')) else Inr bs)"

text \<open>\<open>fill\<close> is what the operating system's random source delivered, if it did.\<close>

definition id_new_random :: "bytes option \<Rightarrow> heap_error + bytes" where
  "id_new_random fill =
     and_then (ok_or fill (HeapInvalidArgument ''getrandom failed'')) (\<lambda>bs.
       Inr ((bs[6 := (bs ! 6 AND 0x0f) OR 0x40])[8 := (bs ! 8 AND 0x3f) OR 0x80]))"

definition hex_nibble :: "u8 \<Rightarrow> heap_error + u8" where
  "hex_nibble c =
     (if 0x30 \<le> c \<and> c \<le> 0x39 then Inr (c - 0x30)
      else if 0x61 \<le> c \<and> c \<le> 0x66 then Inr (c - 0x61 + 10)
      else Inl (HeapInvalidArgument ''UUID must be lowercase hex''))"

definition hex_byte :: "u8 \<Rightarrow> u8 \<Rightarrow> heap_error + u8" where
  "hex_byte a b = and_then (hex_nibble a) (\<lambda>x. and_then (hex_nibble b) (\<lambda>y. Inr (push_bit 4 x OR y)))"

fun hex_positions :: "bytes \<Rightarrow> nat list \<Rightarrow> heap_error + bytes" where
  "hex_positions b [] = Inr []"
| "hex_positions b (p # ps) =
     and_then (hex_byte (b ! p) (b ! (p + 1))) (\<lambda>x. and_then (hex_positions b ps) (\<lambda>xs. Inr (x # xs)))"

definition UUID_POSITIONS :: "nat list" where
  "UUID_POSITIONS = [0, 2, 4, 6, 9, 11, 14, 16, 19, 21, 24, 26, 28, 30, 32, 34]"

definition parse_canonical_uuid :: "bytes \<Rightarrow> heap_error + bytes" where
  "parse_canonical_uuid b =
     (if length b \<noteq> 36 \<or> b ! 8 \<noteq> 0x2d \<or> b ! 13 \<noteq> 0x2d \<or> b ! 18 \<noteq> 0x2d \<or> b ! 23 \<noteq> 0x2d
      then Inl (HeapInvalidArgument ''UUID must be canonical lowercase hyphenated'')
      else hex_positions b UUID_POSITIONS)"

definition id_from_str :: "string \<Rightarrow> bytes \<Rightarrow> heap_error + bytes" where
  "id_from_str name s = and_then (parse_canonical_uuid s) (id_from_bytes name)"

definition hex_digit :: "u8 \<Rightarrow> u8" where
  "hex_digit n = (if n < 10 then 0x30 + n else 0x61 + (n - 10))"

definition hex_pair :: "u8 \<Rightarrow> bytes" where
  "hex_pair b = [hex_digit (drop_bit 4 b), hex_digit (b AND 0x0f)]"

definition id_display :: "bytes \<Rightarrow> bytes" where
  "id_display b = concat (map hex_pair (subslice 0 4 b)) @ [0x2d] @ concat (map hex_pair (subslice 4 6 b)) @ [0x2d]
     @ concat (map hex_pair (subslice 6 8 b)) @ [0x2d] @ concat (map hex_pair (subslice 8 10 b)) @ [0x2d]
     @ concat (map hex_pair (subslice 10 16 b))"

definition nonzero_new :: "string \<Rightarrow> u64 \<Rightarrow> heap_error + u64" where
  "nonzero_new name v = (if v = 0 then Inl (HeapInvalidArgument (name @ '' must be non-zero'')) else Inr v)"

section \<open>Trusted time\<close>

record security_time_floor = floor_unix_s :: u64
record trusted_instant = unix_s :: u64
datatype time_decision = TimeAccept | TimeNotYetValid | TimeExpired

definition time_observe :: "security_time_floor \<Rightarrow> u64 \<Rightarrow> heap_error + trusted_instant \<times> security_time_floor" where
  "time_observe self t =
     (if t < floor_unix_s self then Inl (heap_unavailable NotYetValidOrExpired)
      else Inr (\<lparr>unix_s = t\<rparr>, self\<lparr>floor_unix_s := t\<rparr>))"

section \<open>Rights and operations\<close>

type_synonym rights = u64

definition DEFINED_MASK :: u64 where "DEFINED_MASK = 0x1ffff"

definition from_bits_certificate :: "u64 \<Rightarrow> heap_error + rights" where
  "from_bits_certificate bits =
     (if bits = 0 then Inl (heap_unavailable MalformedOrBadSignature)
      else if bits AND NOT DEFINED_MASK \<noteq> 0 then Inl (heap_unavailable MalformedOrBadSignature)
      else Inr bits)"

definition from_bits_effective :: "u64 \<Rightarrow> heap_error + rights" where
  "from_bits_effective bits =
     (if bits AND NOT DEFINED_MASK \<noteq> 0 then Inl (heap_unavailable MalformedOrBadSignature) else Inr bits)"

definition rights_contains :: "rights \<Rightarrow> rights \<Rightarrow> bool" where
  "rights_contains self other \<longleftrightarrow> self AND other = other"

definition rights_intersection :: "rights \<Rightarrow> rights \<Rightarrow> rights" where
  "rights_intersection self other = self AND other"

definition rights_is_subset_of :: "rights \<Rightarrow> rights \<Rightarrow> bool" where
  "rights_is_subset_of self other \<longleftrightarrow> self AND other = self"

datatype operation_status = OpActive | OpReserved

record generated_op_row =
  op_status :: string
  op_rights_mask :: u64

record registry =
  generated_op :: "u16 \<Rightarrow> generated_op_row option"
  admitted_ops_for_state :: "string \<Rightarrow> u16 list option"

definition operation_lookup :: "registry \<Rightarrow> u16 \<Rightarrow> heap_error + generated_op_row" where
  "operation_lookup R i = ok_or (generated_op R i) (heap_unavailable UnknownOperation)"

definition operation_status_of :: "registry \<Rightarrow> u16 \<Rightarrow> heap_error + operation_status" where
  "operation_status_of R i = and_then (operation_lookup R i) (\<lambda>row.
     if op_status row = ''active'' then Inr OpActive
     else if op_status row = ''reserved'' then Inr OpReserved
     else Inl (heap_unavailable UnknownOperation))"

definition is_callable :: "registry \<Rightarrow> u16 \<Rightarrow> bool" where
  "is_callable R i \<longleftrightarrow> operation_status_of R i = Inr OpActive"

definition required_rights :: "registry \<Rightarrow> u16 \<Rightarrow> heap_error + rights" where
  "required_rights R i = and_then (operation_lookup R i) (\<lambda>row. from_bits_effective (op_rights_mask row))"

section \<open>Constraints\<close>

record source_network =
  net_family :: u8
  net_prefix :: u8
  net_address :: bytes

datatype constraint =
    CollectionAllowlist "bytes list"
  | StreamAllowlist "bytes list"
  | OperationAllowlist "u16 list"
  | MaxRequestBytes u64
  | MaxResultBytes u64
  | MaxQueryWork u64
  | MaxDurationMs u64
  | SourceNetwork source_network

fun constraint_kind :: "constraint \<Rightarrow> u64" where
  "constraint_kind (CollectionAllowlist _) = 1"
| "constraint_kind (StreamAllowlist _) = 2"
| "constraint_kind (OperationAllowlist _) = 3"
| "constraint_kind (MaxRequestBytes _) = 4"
| "constraint_kind (MaxResultBytes _) = 5"
| "constraint_kind (MaxQueryWork _) = 6"
| "constraint_kind (MaxDurationMs _) = 7"
| "constraint_kind (SourceNetwork _) = 8"

type_synonym constraints = "constraint list"

text \<open>The loops carry \<open>last\<close>: the previous kind, absent before the first entry.\<close>

fun decode_canonical_from :: "u64 option \<Rightarrow> (u64 \<times> bool \<times> constraint) list \<Rightarrow> heap_error + constraints" where
  "decode_canonical_from last_kind [] = Inr []"
| "decode_canonical_from last_kind ((kind, critical, c) # es) =
     (if \<not> critical then Inl (heap_unavailable MalformedOrBadSignature)
      else if constraint_kind c \<noteq> kind then Inl (heap_unavailable MalformedOrBadSignature)
      else if (case last_kind of None \<Rightarrow> False | Some l \<Rightarrow> kind \<le> l)
      then Inl (heap_unavailable MalformedOrBadSignature)
      else and_then (decode_canonical_from (Some kind) es) (\<lambda>out. Inr (c # out)))"

definition decode_canonical :: "(u64 \<times> bool \<times> constraint) list \<Rightarrow> heap_error + constraints" where
  "decode_canonical entries = decode_canonical_from None entries"

fun sorted_from :: "u64 option \<Rightarrow> constraints \<Rightarrow> bool" where
  "sorted_from l [] = True"
| "sorted_from l (c # cs) =
     ((case l of None \<Rightarrow> True | Some k \<Rightarrow> \<not> constraint_kind c \<le> k) \<and> sorted_from (Some (constraint_kind c)) cs)"

definition constraints_from_sorted :: "constraints \<Rightarrow> heap_error + constraints" where
  "constraints_from_sorted inner =
     (if sorted_from None inner then Inr inner else Inl (heap_unavailable MalformedOrBadSignature))"

definition merge_allowlist :: "('a list \<Rightarrow> constraint) \<Rightarrow> 'a list \<Rightarrow> 'a list \<Rightarrow> heap_error + constraint" where
  "merge_allowlist C x y =
     (let s = filter (\<lambda>i. i \<in> set y) x in
      if s = [] then Inl (heap_unavailable ConstraintDenied) else Inr (C s))"

definition merge_pair :: "constraint \<Rightarrow> constraint \<Rightarrow> heap_error + constraint" where
  "merge_pair a b = (case (a, b) of
     (CollectionAllowlist x, CollectionAllowlist y) \<Rightarrow> merge_allowlist CollectionAllowlist x y
   | (StreamAllowlist x, StreamAllowlist y) \<Rightarrow> merge_allowlist StreamAllowlist x y
   | (OperationAllowlist x, OperationAllowlist y) \<Rightarrow> merge_allowlist OperationAllowlist x y
   | (MaxRequestBytes x, MaxRequestBytes y) \<Rightarrow> Inr (MaxRequestBytes (min x y))
   | (MaxResultBytes x, MaxResultBytes y) \<Rightarrow> Inr (MaxResultBytes (min x y))
   | (MaxQueryWork x, MaxQueryWork y) \<Rightarrow> Inr (MaxQueryWork (min x y))
   | (MaxDurationMs x, MaxDurationMs y) \<Rightarrow> Inr (MaxDurationMs (min x y))
   | (SourceNetwork x, SourceNetwork y) \<Rightarrow>
       if x = y then Inr (SourceNetwork x) else Inl (heap_unavailable ConstraintDenied)
   | _ \<Rightarrow> Inl (heap_unavailable MalformedOrBadSignature))"

fun intersect_loop :: "constraint list \<Rightarrow> (u64, constraint) btree_map \<Rightarrow> heap_error + (u64, constraint) btree_map" where
  "intersect_loop [] m = Inr m"
| "intersect_loop (c # cs) m =
     (case bt_get m (constraint_kind c) of
        None \<Rightarrow> intersect_loop cs (bt_insert (constraint_kind c) c m)
      | Some existing \<Rightarrow> and_then (merge_pair existing c) (\<lambda>merged.
          intersect_loop cs (bt_insert (constraint_kind c) merged m)))"

definition constraints_intersect :: "constraints \<Rightarrow> constraints \<Rightarrow> heap_error + constraints" where
  "constraints_intersect self other = and_then (intersect_loop (self @ other) []) (\<lambda>m. Inr (map snd m))"

fun op_allowed :: "u16 \<Rightarrow> constraint \<Rightarrow> bool" where
  "op_allowed op (OperationAllowlist ids) = (op \<in> set ids)"
| "op_allowed op _ = True"

fun collection_allowed :: "bytes \<Rightarrow> constraint \<Rightarrow> bool" where
  "collection_allowed i (CollectionAllowlist ids) = (i \<in> set ids)"
| "collection_allowed i _ = True"

fun stream_allowed :: "bytes \<Rightarrow> constraint \<Rightarrow> bool" where
  "stream_allowed i (StreamAllowlist ids) = (i \<in> set ids)"
| "stream_allowed i _ = True"

definition allows_operation :: "constraints \<Rightarrow> u16 \<Rightarrow> bool" where
  "allows_operation self op \<longleftrightarrow> list_all (op_allowed op) self"

definition allows_collection :: "constraints \<Rightarrow> bytes \<Rightarrow> bool" where
  "allows_collection self i \<longleftrightarrow> list_all (collection_allowed i) self"

definition allows_stream :: "constraints \<Rightarrow> bytes \<Rightarrow> bool" where
  "allows_stream self i \<longleftrightarrow> list_all (stream_allowed i) self"

fun max_query_work :: "constraints \<Rightarrow> u64 option" where
  "max_query_work [] = None"
| "max_query_work (c # cs) = (case c of MaxQueryWork m \<Rightarrow> Some m | _ \<Rightarrow> max_query_work cs)"

fun max_result_bytes :: "constraints \<Rightarrow> u64 option" where
  "max_result_bytes [] = None"
| "max_result_bytes (c # cs) = (case c of MaxResultBytes m \<Rightarrow> Some m | _ \<Rightarrow> max_result_bytes cs)"

definition require_rights :: "rights \<Rightarrow> rights \<Rightarrow> heap_error + unit" where
  "require_rights effective required =
     (if rights_contains effective required then Inr () else Inl (heap_unavailable InsufficientRights))"

section \<open>Intersection of constraints\<close>

text \<open>What a constraint permits: one predicate per kind of request, all of the form "every
  constraint of the kind admits it".\<close>

datatype request = ReqOp u16 | ReqCollection bytes | ReqStream bytes | ReqBytes u64 | ResBytes u64 | ReqWork u64
  | ReqDuration u64 | ReqSource source_network

fun permits :: "constraint \<Rightarrow> request \<Rightarrow> bool" where
  "permits (CollectionAllowlist ids) r = (case r of ReqCollection i \<Rightarrow> i \<in> set ids | _ \<Rightarrow> True)"
| "permits (StreamAllowlist ids) r = (case r of ReqStream i \<Rightarrow> i \<in> set ids | _ \<Rightarrow> True)"
| "permits (OperationAllowlist ids) r = (case r of ReqOp i \<Rightarrow> i \<in> set ids | _ \<Rightarrow> True)"
| "permits (MaxRequestBytes m) r = (case r of ReqBytes n \<Rightarrow> n \<le> m | _ \<Rightarrow> True)"
| "permits (MaxResultBytes m) r = (case r of ResBytes n \<Rightarrow> n \<le> m | _ \<Rightarrow> True)"
| "permits (MaxQueryWork m) r = (case r of ReqWork n \<Rightarrow> n \<le> m | _ \<Rightarrow> True)"
| "permits (MaxDurationMs m) r = (case r of ReqDuration n \<Rightarrow> n \<le> m | _ \<Rightarrow> True)"
| "permits (SourceNetwork x) r = (case r of ReqSource y \<Rightarrow> x = y | _ \<Rightarrow> True)"

lemma merge_pair_permits:
  "merge_pair a b = Inr c \<Longrightarrow> (permits c r \<longleftrightarrow> permits a r \<and> permits b r) \<and> constraint_kind c = constraint_kind a"
  by (cases a; cases b) (auto simp: merge_pair_def merge_allowlist_def Let_def split: if_splits request.splits)

lemma merge_pair_error: "constraint_kind a = constraint_kind b \<Longrightarrow> merge_pair a b = Inl e \<Longrightarrow> e = heap_unavailable ConstraintDenied"
  by (cases a; cases b) (auto simp: merge_pair_def merge_allowlist_def Let_def split: if_splits)

definition keyed :: "(u64, constraint) btree_map \<Rightarrow> bool" where
  "keyed m \<longleftrightarrow> bt_ok m \<and> (\<forall>(k, c) \<in> set m. constraint_kind c = k)"

lemma keyed_insert: "keyed m \<Longrightarrow> constraint_kind c = k \<Longrightarrow> keyed (bt_insert k c m)"
  by (auto simp: keyed_def bt_ok_insert in_bt_insert split: if_splits)

lemma permits_insert:
  assumes "keyed m"
  shows "(\<forall>c \<in> snd ` set (bt_insert k d m). permits c r) \<longleftrightarrow> permits d r \<and> (\<forall>(k', c) \<in> set m. k' \<noteq> k \<longrightarrow> permits c r)"
proof -
  have "bt_ok m" using assms by (simp add: keyed_def)
  then have "set (bt_insert k d m) = insert (k, d) {x \<in> set m. fst x \<noteq> k}"
    by (auto simp: in_bt_insert split: if_splits)
  then show ?thesis by auto
qed

lemma intersect_loop_spec:
  "intersect_loop cs m = Inr m' \<Longrightarrow> keyed m \<Longrightarrow> keyed m' \<and>
    ((\<forall>c \<in> snd ` set m'. permits c r) \<longleftrightarrow> (\<forall>c \<in> snd ` set m. permits c r) \<and> (\<forall>c \<in> set cs. permits c r))"
proof (induction cs arbitrary: m)
  case (Cons c cs)
  note k = Cons.prems(2)
  show ?case
  proof (cases "bt_get m (constraint_kind c)")
    case None
    then have "(constraint_kind c, d) \<notin> set m" for d using k by (simp add: keyed_def bt_get_set)
    then have "(\<forall>d \<in> snd ` set (bt_insert (constraint_kind c) c m). permits d r) \<longleftrightarrow>
        permits c r \<and> (\<forall>d \<in> snd ` set m. permits d r)"
      unfolding permits_insert [OF k] by auto
    then show ?thesis using Cons.IH [of "bt_insert (constraint_kind c) c m"] Cons.prems None keyed_insert [OF k]
      by auto
  next
    case (Some e)
    then obtain d where d: "merge_pair e c = Inr d" "intersect_loop cs (bt_insert (constraint_kind c) d m) = Inr m'"
      using Cons.prems(1) by (auto simp: result_simps)
    have e: "(constraint_kind c, e) \<in> set m" using Some k by (simp add: keyed_def bt_get_set)
    then have "constraint_kind e = constraint_kind c" using k by (auto simp: keyed_def)
    then have kd: "keyed (bt_insert (constraint_kind c) d m)"
      using merge_pair_permits [OF d(1)] keyed_insert [OF k, of d "constraint_kind c"] by simp
    have u: "x = e" if "(constraint_kind c, x) \<in> set m" for x
      using that Some k by (simp add: keyed_def bt_get_set)
    have "permits x r" if "permits e r" "\<forall>(k', x) \<in> set m. k' \<noteq> constraint_kind c \<longrightarrow> permits x r" "(k', x) \<in> set m" for k' x
      using that u [of x] by (cases "k' = constraint_kind c") auto
    then have "(\<forall>x \<in> snd ` set m. permits x r)
        \<longleftrightarrow> permits e r \<and> (\<forall>(k', x) \<in> set m. k' \<noteq> constraint_kind c \<longrightarrow> permits x r)"
      using e by auto
    then have "(\<forall>x \<in> snd ` set (bt_insert (constraint_kind c) d m). permits x r) \<longleftrightarrow>
        permits c r \<and> (\<forall>x \<in> snd ` set m. permits x r)"
      unfolding permits_insert [OF k] using merge_pair_permits [OF d(1), of r] by blast
    then show ?thesis using Cons.IH [OF d(2) kd] by auto
  qed
qed simp

lemma allows_permits:
  "allows_operation cs i \<longleftrightarrow> (\<forall>c \<in> set cs. permits c (ReqOp i))"
  "allows_collection cs x \<longleftrightarrow> (\<forall>c \<in> set cs. permits c (ReqCollection x))"
  "allows_stream cs x \<longleftrightarrow> (\<forall>c \<in> set cs. permits c (ReqStream x))"
proof -
  have "op_allowed i c = permits c (ReqOp i)" "collection_allowed x c = permits c (ReqCollection x)"
    "stream_allowed x c = permits c (ReqStream x)" for c by (cases c; simp)+
  then show "allows_operation cs i \<longleftrightarrow> (\<forall>c \<in> set cs. permits c (ReqOp i))"
    "allows_collection cs x \<longleftrightarrow> (\<forall>c \<in> set cs. permits c (ReqCollection x))"
    "allows_stream cs x \<longleftrightarrow> (\<forall>c \<in> set cs. permits c (ReqStream x))"
    by (simp_all add: allows_operation_def allows_collection_def allows_stream_def list_all_iff)
qed

lemma intersect_error:
  "intersect_loop cs m = Inl e \<Longrightarrow> keyed m \<Longrightarrow> e = heap_unavailable ConstraintDenied"
proof (induction cs arbitrary: m)
  case (Cons c cs)
  show ?case
  proof (cases "bt_get m (constraint_kind c)")
    case None
    then show ?thesis using Cons.IH [of "bt_insert (constraint_kind c) c m"] Cons.prems keyed_insert by auto
  next
    case (Some x)
    then have "(constraint_kind c, x) \<in> set m" using Cons.prems(2) by (simp add: keyed_def bt_get_set)
    then have k: "constraint_kind x = constraint_kind c" using Cons.prems(2) by (auto simp: keyed_def)
    then show ?thesis
    proof (cases "merge_pair x c")
      case (Inl e')
      then show ?thesis using Some Cons.prems(1) merge_pair_error [OF k Inl] by simp
    next
      case (Inr d)
      then have "keyed (bt_insert (constraint_kind c) d m)"
        using merge_pair_permits [OF Inr] k keyed_insert [OF Cons.prems(2), of d "constraint_kind c"] by simp
      then show ?thesis using Cons.IH Cons.prems(1) Some Inr by simp
    qed
  qed
qed simp

section \<open>Properties\<close>

text \<open>Intersecting two constraint sets is exactly conjunction. The result permits a request of
  any kind if and only if both sets do, it has at most one constraint of each kind in ascending
  order, and the only way to fail is a denial.\<close>

lemma constraints_intersect_exact:
  "(constraints_intersect a b = Inr c \<longrightarrow> sorted_wrt (<) (map constraint_kind c)
     \<and> (\<forall>r. list_all (\<lambda>x. permits x r) c \<longleftrightarrow> list_all (\<lambda>x. permits x r) a \<and> list_all (\<lambda>x. permits x r) b))
   \<and> (constraints_intersect a b = Inl e \<longrightarrow> e = heap_unavailable ConstraintDenied)"
proof (intro conjI impI)
  have k: "keyed []" by (simp add: keyed_def)
  {
    assume "constraints_intersect a b = Inr c"
    then obtain m where m: "intersect_loop (a @ b) [] = Inr m" "c = map snd m"
      by (auto simp: constraints_intersect_def result_simps)
    have "keyed m" using intersect_loop_spec [OF m(1) k] by blast
    then have "map constraint_kind c = map fst m" "bt_ok m" by (auto simp: m(2) keyed_def)
    then show "sorted_wrt (<) (map constraint_kind c)" by (simp add: bt_ok_def)
    show "\<forall>r. list_all (\<lambda>x. permits x r) c \<longleftrightarrow> list_all (\<lambda>x. permits x r) a \<and> list_all (\<lambda>x. permits x r) b"
      using intersect_loop_spec [OF m(1) k] by (auto simp: m(2) list_all_iff)
  }
  show "e = heap_unavailable ConstraintDenied" if "constraints_intersect a b = Inl e"
    using that intersect_error [OF _ k] by (auto simp: constraints_intersect_def and_then_def split: sum.splits)
qed

end
