(* ===== verification/Heap_Decide.thy ===== *)
theory Heap_Decide
  imports Heap_Rights
begin

text \<open>
  Authorisation (\<^verbatim>\<open>residiuum-heap/src\<close>: \<^verbatim>\<open>snapshot.rs\<close>, \<^verbatim>\<open>authority.rs\<close>, \<^verbatim>\<open>certificate.rs\<close>,
  \<^verbatim>\<open>capability.rs\<close>, \<^verbatim>\<open>decide.rs\<close>): the decision function over a security snapshot, a verified certificate
  and an operation, and the capabilities minted from it. The digest of the \<^verbatim>\<open>sha2\<close> crate is
  the argument \<open>sha\<close>. Slots are shared and replaced atomically: a store maps slot addresses to
  their current snapshot, and a capability holds the address.
\<close>

section \<open>Snapshots\<close>

datatype heap_administrative_state = HsActive | HsReadOnly | HsSuspended | HsRetired | HsPurging | HsPurged

fun admin_as_u8 :: "heap_administrative_state \<Rightarrow> u8" where
  "admin_as_u8 HsActive = 1" | "admin_as_u8 HsReadOnly = 2" | "admin_as_u8 HsSuspended = 3"
| "admin_as_u8 HsRetired = 4" | "admin_as_u8 HsPurging = 5" | "admin_as_u8 HsPurged = 6"

definition admin_from_u8 :: "u8 \<Rightarrow> heap_administrative_state option" where
  "admin_from_u8 v =
     (if v = 1 then Some HsActive else if v = 2 then Some HsReadOnly else if v = 3 then Some HsSuspended
      else if v = 4 then Some HsRetired else if v = 5 then Some HsPurging else if v = 6 then Some HsPurged
      else None)"

fun admin_wire_name :: "heap_administrative_state \<Rightarrow> string" where
  "admin_wire_name HsActive = ''active''"
| "admin_wire_name HsReadOnly = ''read_only''"
| "admin_wire_name HsSuspended = ''suspended''"
| "admin_wire_name HsRetired = ''retired''"
| "admin_wire_name HsPurging = ''purging''"
| "admin_wire_name HsPurged = ''purged''"

definition admin_is_terminal :: "heap_administrative_state \<Rightarrow> bool" where
  "admin_is_terminal s \<longleftrightarrow> s = HsPurged"

definition admin_is_serving :: "heap_administrative_state \<Rightarrow> bool" where
  "admin_is_serving s \<longleftrightarrow> s = HsActive \<or> s = HsReadOnly"

datatype blacklist_kind = CertificateHash | HolderPublicKeyHash

record blacklist_entry =
  bl_kind :: blacklist_kind
  bl_generation :: u64
  bl_fingerprint :: bytes

record heap_security_snapshot =
  snap_deployment_id :: bytes
  snap_heap_id :: bytes
  snap_authority_epoch :: u64
  snap_authority_generation :: u64
  snap_previous_generation :: "u64 option"
  snap_grace_deadline :: "u64 option"
  snap_master_public_key :: bytes
  snap_previous_master_public_key :: "bytes option"
  snap_security_revision :: u64
  snap_chain_head_hash :: bytes
  snap_administrative_state :: heap_administrative_state
  snap_blacklist :: "blacklist_entry list"
  snap_policy_rights_ceiling :: "rights option"

definition atomic_authority_revision :: "(bytes \<Rightarrow> bytes) \<Rightarrow> heap_security_snapshot \<Rightarrow> bytes" where
  "atomic_authority_revision sha self =
     sha (ascii ''RESIDIUUM-ATOMIC-HEAP-AUTHORITY-V1'' @ [0] @ snap_deployment_id self @ snap_heap_id self
       @ to_be_bytes (snap_authority_epoch self) @ to_be_bytes (snap_authority_generation self)
       @ to_be_bytes (snap_security_revision self) @ snap_chain_head_hash self
       @ [admin_as_u8 (snap_administrative_state self)])"

record verified_certificate =
  cert_cose_bytes :: bytes
  cert_fingerprint :: bytes
  cert_deployment_id :: bytes
  cert_heap_id :: bytes
  cert_authority_epoch :: u64
  cert_authority_generation :: u64
  cert_certificate_id :: bytes
  cert_holder_public_key :: bytes
  cert_rights :: rights
  cert_constraints :: constraints
  cert_not_before :: u64
  cert_expires_at :: u64
  cert_issuer_master_key_id :: bytes

record operation_descriptor =
  opd_operation_id :: u16
  opd_request_bytes :: u64

datatype authorization_decision = Allow | Deny heap_unavailable_cause

section \<open>Decision\<close>

definition authority_binding_holds :: "heap_security_snapshot \<Rightarrow> verified_certificate \<Rightarrow> bool" where
  "authority_binding_holds snapshot certificate \<longleftrightarrow>
     cert_heap_id certificate = snap_heap_id snapshot
     \<and> cert_deployment_id certificate = snap_deployment_id snapshot
     \<and> cert_authority_epoch certificate = snap_authority_epoch snapshot"

definition generation_accepted :: "heap_security_snapshot \<Rightarrow> verified_certificate \<Rightarrow> trusted_instant \<Rightarrow> bool" where
  "generation_accepted snapshot certificate now \<longleftrightarrow>
     cert_authority_generation certificate = snap_authority_generation snapshot
     \<or> snap_previous_generation snapshot = Some (cert_authority_generation certificate)
       \<and> (case snap_grace_deadline snapshot of None \<Rightarrow> False | Some d \<Rightarrow> unix_s now \<le> d)"

definition blacklist_hit :: "bytes \<Rightarrow> bytes \<Rightarrow> u64 \<Rightarrow> blacklist_entry \<Rightarrow> bool" where
  "blacklist_hit cert_fp holder_fp generation entry \<longleftrightarrow>
     (if bl_generation entry \<noteq> generation then False
      else case bl_kind entry of
        CertificateHash \<Rightarrow> bl_fingerprint entry = cert_fp
      | HolderPublicKeyHash \<Rightarrow> bl_fingerprint entry = holder_fp)"

definition certificate_blacklisted :: "(bytes \<Rightarrow> bytes) \<Rightarrow> heap_security_snapshot \<Rightarrow> verified_certificate \<Rightarrow> bool" where
  "certificate_blacklisted sha snapshot certificate \<longleftrightarrow>
     list_ex (blacklist_hit (cert_fingerprint certificate) (sha (cert_holder_public_key certificate))
       (cert_authority_generation certificate)) (snap_blacklist snapshot)"

definition authority_admission_ok ::
    "(bytes \<Rightarrow> bytes) \<Rightarrow> heap_security_snapshot \<Rightarrow> verified_certificate \<Rightarrow> trusted_instant \<Rightarrow> bool" where
  "authority_admission_ok sha snapshot certificate now =
     (if \<not> authority_binding_holds snapshot certificate then False
      else if \<not> admin_is_serving (snap_administrative_state snapshot)
        \<or> admin_is_terminal (snap_administrative_state snapshot) then False
      else if \<not> generation_accepted snapshot certificate now then False
      else if certificate_blacklisted sha snapshot certificate then False
      else let expected_master =
        if cert_authority_generation certificate = snap_authority_generation snapshot
        then Some (snap_master_public_key snapshot) else snap_previous_master_public_key snapshot
      in case expected_master of
           Some pk \<Rightarrow> cert_issuer_master_key_id certificate = sha pk
         | None \<Rightarrow> False)"

definition time_window :: "u64 \<Rightarrow> u64 \<Rightarrow> trusted_instant \<Rightarrow> time_decision" where
  "time_window not_before expires_at now =
     (if unix_s now < not_before then TimeNotYetValid
      else if expires_at \<le> unix_s now then TimeExpired
      else TimeAccept)"

definition require :: "bool \<Rightarrow> heap_unavailable_cause \<Rightarrow> heap_error + unit" where
  "require b cause = (if b then Inr () else Inl (heap_unavailable cause))"

definition effective_rights :: "rights \<Rightarrow> rights option \<Rightarrow> rights" where
  "effective_rights r ceiling = (case ceiling of Some c \<Rightarrow> rights_intersection r c | None \<Rightarrow> r)"

fun request_bytes_ok :: "u64 \<Rightarrow> constraint \<Rightarrow> bool" where
  "request_bytes_ok n (MaxRequestBytes m) = (\<not> m < n)"
| "request_bytes_ok n _ = True"

definition decide_inner :: "registry \<Rightarrow> (bytes \<Rightarrow> bytes) \<Rightarrow> heap_security_snapshot \<Rightarrow> verified_certificate \<Rightarrow>
    operation_descriptor \<Rightarrow> trusted_instant \<Rightarrow> heap_error + unit" where
  "decide_inner R sha snapshot certificate operation now =
     (let op = opd_operation_id operation in
      if 1 \<le> op \<and> op \<le> 3 then
        and_then (operation_status_of R op) (\<lambda>st. require (st = OpActive) UnknownOperation)
      else
        and_then (operation_status_of R op) (\<lambda>st.
        and_then (require (st = OpActive) UnknownOperation) (\<lambda>_.
        and_then (require (authority_binding_holds snapshot certificate) StaleAuthority) (\<lambda>_.
        and_then (case time_window (cert_not_before certificate) (cert_expires_at certificate) now of
            TimeAccept \<Rightarrow> Inr ()
          | _ \<Rightarrow> Inl (heap_unavailable NotYetValidOrExpired)) (\<lambda>_.
        and_then (require (generation_accepted snapshot certificate now) StaleAuthority) (\<lambda>_.
        and_then (if cert_authority_generation certificate = snap_authority_generation snapshot
            then Inr (snap_master_public_key snapshot)
            else ok_or (snap_previous_master_public_key snapshot) (heap_unavailable StaleAuthority)) (\<lambda>expected_master.
        and_then (require (cert_issuer_master_key_id certificate = sha expected_master) StaleAuthority) (\<lambda>_.
        and_then (require (\<not> certificate_blacklisted sha snapshot certificate) Blacklisted) (\<lambda>_.
        and_then (require (\<not> admin_is_terminal (snap_administrative_state snapshot)) InvalidState) (\<lambda>_.
        and_then (ok_or (admitted_ops_for_state R (admin_wire_name (snap_administrative_state snapshot)))
            (heap_unavailable InvalidState)) (\<lambda>admitted.
        and_then (require (op \<in> set admitted) InvalidState) (\<lambda>_.
        and_then (required_rights R op) (\<lambda>required.
        and_then (require_rights
            (effective_rights (cert_rights certificate) (snap_policy_rights_ceiling snapshot)) required) (\<lambda>_.
        and_then (require (allows_operation (cert_constraints certificate) op) ConstraintDenied) (\<lambda>_.
          require (list_all (request_bytes_ok (opd_request_bytes operation)) (cert_constraints certificate))
            ConstraintDenied)))))))))))))))"

definition decide :: "registry \<Rightarrow> (bytes \<Rightarrow> bytes) \<Rightarrow> heap_security_snapshot \<Rightarrow> verified_certificate \<Rightarrow>
    operation_descriptor \<Rightarrow> trusted_instant \<Rightarrow> authorization_decision" where
  "decide R sha snapshot certificate operation now =
     (case decide_inner R sha snapshot certificate operation now of
        Inr _ \<Rightarrow> Allow
      | Inl (HeapUnavailableDetailed cause) \<Rightarrow> Deny cause
      | Inl _ \<Rightarrow> Deny Denied)"

section \<open>Capabilities\<close>

type_synonym slot_store = "nat \<Rightarrow> heap_security_snapshot"

record heap_cap =
  cap_capability_id :: bytes
  cap_slot :: nat
  cap_deployment_id :: bytes
  cap_heap_id :: bytes
  cap_certificate_id :: bytes
  cap_certificate_fingerprint :: bytes
  cap_holder_fingerprint :: bytes
  cap_authority_epoch :: u64
  cap_authority_generation :: u64
  cap_security_revision :: u64
  cap_chain_head_hash :: bytes
  cap_effective_rights :: rights
  cap_effective_constraints :: constraints
  cap_validity_deadline :: u64

definition slot_load :: "slot_store \<Rightarrow> nat \<Rightarrow> heap_security_snapshot" where
  "slot_load slots a = slots a"

definition slot_replace :: "slot_store \<Rightarrow> nat \<Rightarrow> heap_security_snapshot \<Rightarrow> slot_store" where
  "slot_replace slots a snapshot = slots(a := snapshot)"

definition cert_deadline :: "heap_security_snapshot \<Rightarrow> verified_certificate \<Rightarrow> u64" where
  "cert_deadline snap certificate =
     (if snap_previous_generation snap = Some (cert_authority_generation certificate)
      then (case snap_grace_deadline snap of
              Some g \<Rightarrow> min (cert_expires_at certificate) g
            | None \<Rightarrow> cert_expires_at certificate)
      else cert_expires_at certificate)"

definition mint_capability :: "(bytes \<Rightarrow> bytes) \<Rightarrow> bytes option \<Rightarrow> slot_store \<Rightarrow> nat \<Rightarrow> verified_certificate \<Rightarrow>
    trusted_instant \<Rightarrow> heap_error + heap_cap" where
  "mint_capability sha fill slots slot certificate now =
     (let snap = slot_load slots slot; deadline = cert_deadline snap certificate in
      and_then (require (cert_heap_id certificate = snap_heap_id snap) StaleAuthority) (\<lambda>_.
      and_then (require (\<not> deadline \<le> unix_s now) NotYetValidOrExpired) (\<lambda>_.
      and_then (id_new_random fill) (\<lambda>capability_id.
        Inr \<lparr>cap_capability_id = capability_id, cap_slot = slot, cap_deployment_id = cert_deployment_id certificate,
          cap_heap_id = cert_heap_id certificate, cap_certificate_id = cert_certificate_id certificate,
          cap_certificate_fingerprint = cert_fingerprint certificate,
          cap_holder_fingerprint = sha (cert_holder_public_key certificate),
          cap_authority_epoch = cert_authority_epoch certificate,
          cap_authority_generation = cert_authority_generation certificate,
          cap_security_revision = snap_security_revision snap,
          cap_chain_head_hash = snap_chain_head_hash snap,
          cap_effective_rights = effective_rights (cert_rights certificate) (snap_policy_rights_ceiling snap),
          cap_effective_constraints = cert_constraints certificate, cap_validity_deadline = deadline\<rparr>))))"

definition refresh_capability_or_terminate :: "slot_store \<Rightarrow> heap_cap \<Rightarrow> heap_error + unit" where
  "refresh_capability_or_terminate slots cap =
     (let snap = slot_load slots (cap_slot cap) in
      if snap_heap_id snap \<noteq> cap_heap_id cap \<or> snap_deployment_id snap \<noteq> cap_deployment_id cap
        \<or> snap_authority_epoch snap \<noteq> cap_authority_epoch cap
        \<or> snap_security_revision snap \<noteq> cap_security_revision cap
        \<or> snap_chain_head_hash snap \<noteq> cap_chain_head_hash cap
        \<or> \<not> admin_is_serving (snap_administrative_state snap)
      then Inl (heap_unavailable StaleAuthority)
      else and_then (nonzero_new ''SecurityRevision'' (snap_security_revision snap)) (\<lambda>_. Inr ()))"

section \<open>What an allowed operation has\<close>

lemma require_iff [simp]: "require b c = Inr u \<longleftrightarrow> b"
  by (simp add: require_def)

lemma require_rights_iff [simp]: "require_rights e r = Inr u \<longleftrightarrow> rights_contains e r"
  by (simp add: require_rights_def)

definition op_active :: "registry \<Rightarrow> u16 \<Rightarrow> bool" where
  "op_active R i \<longleftrightarrow> (\<exists>row. generated_op R i = Some row \<and> op_status row = ''active'')"

lemma status_active_iff: "operation_status_of R i = Inr OpActive \<longleftrightarrow> op_active R i"
  by (cases "generated_op R i") (auto simp: operation_status_of_def operation_lookup_def op_active_def)

definition public_op :: "u16 \<Rightarrow> bool" where
  "public_op i \<longleftrightarrow> 1 \<le> i \<and> i \<le> 3"

text \<open>The master key that must have issued a certificate of the given generation.\<close>

definition issuing_key :: "heap_security_snapshot \<Rightarrow> u64 \<Rightarrow> bytes option" where
  "issuing_key snap g = (if g = snap_authority_generation snap then Some (snap_master_public_key snap)
     else snap_previous_master_public_key snap)"

lemma time_window_iff: "time_window a b now = TimeAccept \<longleftrightarrow> a \<le> unix_s now \<and> unix_s now < b"
  by (auto simp: time_window_def)

lemma decide_inner_iff:
  "decide_inner R sha snap cert op now = Inr () \<longleftrightarrow> op_active R (opd_operation_id op) \<and> (public_op (opd_operation_id op)
     \<or> (authority_binding_holds snap cert \<and> cert_not_before cert \<le> unix_s now \<and> unix_s now < cert_expires_at cert
       \<and> generation_accepted snap cert now
       \<and> (\<exists>pk. issuing_key snap (cert_authority_generation cert) = Some pk \<and> cert_issuer_master_key_id cert = sha pk)
       \<and> \<not> certificate_blacklisted sha snap cert \<and> \<not> admin_is_terminal (snap_administrative_state snap)
       \<and> (\<exists>ops. admitted_ops_for_state R (admin_wire_name (snap_administrative_state snap)) = Some ops
            \<and> opd_operation_id op \<in> set ops)
       \<and> (\<exists>r. required_rights R (opd_operation_id op) = Inr r
            \<and> rights_contains (effective_rights (cert_rights cert) (snap_policy_rights_ceiling snap)) r)
       \<and> allows_operation (cert_constraints cert) (opd_operation_id op)
       \<and> list_all (request_bytes_ok (opd_request_bytes op)) (cert_constraints cert)))"
proof (cases "public_op (opd_operation_id op)")
  case True
  then show ?thesis
    by (auto simp: decide_inner_def public_op_def result_simps simp flip: status_active_iff)
next
  case False
  have t: "(case time_window a b now of TimeAccept \<Rightarrow> Inr () | _ \<Rightarrow> Inl e) = Inr u \<longleftrightarrow> a \<le> unix_s now \<and> unix_s now < b"
    for a b and e :: heap_error and u
    using time_window_iff [of a b now] by (cases "time_window a b now") auto
  show ?thesis
    using False unfolding decide_inner_def public_op_def [symmetric] Let_def
    by (simp add: result_simps t issuing_key_def flip: status_active_iff) auto
qed

lemma decide_Allow: "decide R sha snap cert op now = Allow \<longleftrightarrow> decide_inner R sha snap cert op now = Inr ()"
  by (auto simp: decide_def split: sum.splits heap_error.splits)

lemma refresh_iff:
  "refresh_capability_or_terminate slots cap = Inr u \<longleftrightarrow>
     (let snap = slots (cap_slot cap) in
      snap_heap_id snap = cap_heap_id cap \<and> snap_deployment_id snap = cap_deployment_id cap
      \<and> snap_authority_epoch snap = cap_authority_epoch cap \<and> snap_security_revision snap = cap_security_revision cap
      \<and> snap_chain_head_hash snap = cap_chain_head_hash cap \<and> admin_is_serving (snap_administrative_state snap)
      \<and> snap_security_revision snap \<noteq> 0)"
  by (auto simp: refresh_capability_or_terminate_def slot_load_def nonzero_new_def Let_def)

section \<open>Sample authority\<close>

definition sample_registry :: registry where
  "sample_registry = \<lparr>generated_op = (\<lambda>i. if i = 10 then Some \<lparr>op_status = ''active'', op_rights_mask = 1\<rparr> else None),
     admitted_ops_for_state = (\<lambda>s. if s = ''active'' then Some [10] else None)\<rparr>"

definition sample_snapshot :: heap_security_snapshot where
  "sample_snapshot = \<lparr>snap_deployment_id = [1], snap_heap_id = [2], snap_authority_epoch = 1,
     snap_authority_generation = 2, snap_previous_generation = Some 1, snap_grace_deadline = Some 50,
     snap_master_public_key = [9], snap_previous_master_public_key = Some [8], snap_security_revision = 4,
     snap_chain_head_hash = [7], snap_administrative_state = HsActive, snap_blacklist = [],
     snap_policy_rights_ceiling = None\<rparr>"

definition sample_cert :: "u64 \<Rightarrow> bytes \<Rightarrow> verified_certificate" where
  "sample_cert g pk = \<lparr>cert_cose_bytes = [], cert_fingerprint = [3], cert_deployment_id = [1], cert_heap_id = [2],
     cert_authority_epoch = 1, cert_authority_generation = g, cert_certificate_id = [4],
     cert_holder_public_key = [5], cert_rights = 5, cert_constraints = [MaxRequestBytes 100], cert_not_before = 10,
     cert_expires_at = 1000, cert_issuer_master_key_id = pk\<rparr>"

definition sample_op :: operation_descriptor where
  "sample_op = \<lparr>opd_operation_id = 10, opd_request_bytes = 20\<rparr>"

section \<open>Properties\<close>



text \<open>C34: an allowed operation gets a capability, and only the grace boundary can refuse it. When
  the decision allows a heap operation and random bytes are available, minting under the same
  snapshot yields a capability for this heap that is still within its deadline and whose rights
  cover the operation; the one exception is a previous-generation certificate at or after the
  grace deadline, which for a certificate that is not also of the current generation means the
  very second of the deadline: the decision still accepts it and minting refuses it.\<close>

theorem allowed_operations_mint:
  assumes allow: "decide R sha (slots a) cert op now = Allow" and op: "\<not> public_op (opd_operation_id op)"
    and fill: "fill = Some bs"
  shows "(\<exists>cap r. mint_capability sha fill slots a cert now = Inr cap \<and> cap_heap_id cap = snap_heap_id (slots a)
      \<and> cap_slot cap = a \<and> unix_s now < cap_validity_deadline cap
      \<and> required_rights R (opd_operation_id op) = Inr r \<and> rights_contains (cap_effective_rights cap) r)
    \<or> (mint_capability sha fill slots a cert now = Inl (heap_unavailable NotYetValidOrExpired)
      \<and> snap_previous_generation (slots a) = Some (cert_authority_generation cert)
      \<and> (\<exists>g. snap_grace_deadline (slots a) = Some g \<and> g \<le> unix_s now
           \<and> (cert_authority_generation cert \<noteq> snap_authority_generation (slots a) \<longrightarrow> g = unix_s now)))"
proof -
  from allow op have d: "authority_binding_holds (slots a) cert" "unix_s now < cert_expires_at cert"
      "generation_accepted (slots a) cert now"
    and r: "\<exists>r. required_rights R (opd_operation_id op) = Inr r
      \<and> rights_contains (effective_rights (cert_rights cert) (snap_policy_rights_ceiling (slots a))) r"
    unfolding decide_Allow decide_inner_iff by auto
  obtain cid where cid: "id_new_random fill = Inr cid" using fill by (simp add: id_new_random_def)
  show ?thesis
  proof (cases "cert_deadline (slots a) cert \<le> unix_s now")
    case True
    then have "snap_previous_generation (slots a) = Some (cert_authority_generation cert)
        \<and> (\<exists>g. snap_grace_deadline (slots a) = Some g \<and> g \<le> unix_s now)"
      using d(2) by (auto simp: cert_deadline_def min_def split: if_splits option.splits)
    moreover have "mint_capability sha fill slots a cert now = Inl (heap_unavailable NotYetValidOrExpired)"
      using True d(1) by (simp add: mint_capability_def slot_load_def require_def authority_binding_holds_def)
    ultimately show ?thesis using d(3) by (auto simp: generation_accepted_def)
  next
    case False
    then show ?thesis using d(1) r cid
      by (auto simp: mint_capability_def slot_load_def require_def authority_binding_holds_def Let_def)
  qed
qed

theorem allowed_operations_mint_witness:
  "(\<exists>cap. mint_capability (\<lambda>b. b) (Some (replicate 16 0)) (\<lambda>_. sample_snapshot) 0 (sample_cert 1 [8]) \<lparr>unix_s = 49\<rparr> = Inr cap)
   \<and> decide sample_registry (\<lambda>b. b) sample_snapshot (sample_cert 1 [8]) sample_op \<lparr>unix_s = 50\<rparr> = Allow
   \<and> mint_capability (\<lambda>b. b) (Some (replicate 16 0)) (\<lambda>_. sample_snapshot) 0 (sample_cert 1 [8]) \<lparr>unix_s = 50\<rparr>
      = Inl (heap_unavailable NotYetValidOrExpired)"
proof -
  have allow: "decide sample_registry (\<lambda>b. b) sample_snapshot (sample_cert 1 [8]) sample_op \<lparr>unix_s = t\<rparr> = Allow"
    if "t = 49 \<or> t = 50" for t
    using that unfolding decide_Allow decide_inner_iff
    by (auto simp: op_active_def sample_registry_def sample_op_def public_op_def authority_binding_holds_def
      sample_snapshot_def sample_cert_def generation_accepted_def issuing_key_def certificate_blacklisted_def
      admin_is_terminal_def required_rights_def operation_lookup_def from_bits_effective_def DEFINED_MASK_def
      rights_contains_def effective_rights_def allows_operation_def)
  have np: "\<not> public_op (opd_operation_id sample_op)" by (simp add: public_op_def sample_op_def)
  have "mint_capability (\<lambda>b. b) (Some (replicate 16 0)) (\<lambda>_. sample_snapshot) 0 (sample_cert 1 [8]) \<lparr>unix_s = 50\<rparr>
      = Inl (heap_unavailable NotYetValidOrExpired)"
    by (simp add: mint_capability_def slot_load_def require_def cert_deadline_def sample_snapshot_def sample_cert_def)
  moreover have "\<not> (50 :: u64) \<le> 49" by simp
  then have "\<exists>cap. mint_capability (\<lambda>b. b) (Some (replicate 16 0)) (\<lambda>_. sample_snapshot) 0 (sample_cert 1 [8]) \<lparr>unix_s = 49\<rparr> = Inr cap"
    using allowed_operations_mint [where slots = "\<lambda>_. sample_snapshot" and a = 0 and bs = "replicate 16 0",
        OF allow [OF disjI1 [OF refl]] np refl]
    by (auto simp: sample_snapshot_def)
  ultimately show ?thesis using allow by blast
qed



end
