(* ===== verification/Heap_Isolation.thy ===== *)
theory Heap_Isolation
  imports Heap_Decide
begin

text \<open>
  What a capability may observe (\<^verbatim>\<open>residiuum-heap/src\<close>: \<^verbatim>\<open>isolation.rs\<close>, \<^verbatim>\<open>operational.rs\<close> and the
  profile views of \<^verbatim>\<open>isolation_profile.rs\<close>). The profile registry is parsed from a JSON document by
  \<^verbatim>\<open>serde\<close>: the outcome of loading it is the argument \<open>loaded\<close>.
\<close>

section \<open>Profiles\<close>

datatype isolation_profile_id = HeapDataIsolated | HeapMetadataHardened | HeapResourceIsolated | HeapPhysicalIsolated

fun profile_as_str :: "isolation_profile_id \<Rightarrow> string" where
  "profile_as_str HeapDataIsolated = ''heap-data-isolated''"
| "profile_as_str HeapMetadataHardened = ''heap-metadata-hardened''"
| "profile_as_str HeapResourceIsolated = ''heap-resource-isolated''"
| "profile_as_str HeapPhysicalIsolated = ''heap-physical-isolated''"

definition profile_parse :: "string \<Rightarrow> heap_error + isolation_profile_id" where
  "profile_parse s =
     (if s = ''heap-data-isolated'' then Inr HeapDataIsolated
      else if s = ''heap-metadata-hardened'' then Inr HeapMetadataHardened
      else if s = ''heap-resource-isolated'' then Inr HeapResourceIsolated
      else if s = ''heap-physical-isolated'' then Inr HeapPhysicalIsolated
      else Inl (HeapInvalidArgument ''unknown isolation profile''))"

definition meets_h6_minimum :: "isolation_profile_id \<Rightarrow> bool" where
  "meets_h6_minimum p \<longleftrightarrow>
     p \<in> {HeapDataIsolated, HeapMetadataHardened, HeapResourceIsolated, HeapPhysicalIsolated}"

definition REFERENCE_ISOLATION_PROFILE :: isolation_profile_id where
  "REFERENCE_ISOLATION_PROFILE = HeapDataIsolated"

record isolation_profile =
  prof_id :: isolation_profile_id
  prof_unauthenticated_fields :: "string list"
  prof_heap_local_fields :: "string list"
  prof_always_confidential :: "string list"
  prof_coarsen_public_timing :: bool
  prof_expose_aggregate_load :: bool

definition profile_get :: "isolation_profile list \<Rightarrow> isolation_profile_id \<Rightarrow> heap_error + isolation_profile" where
  "profile_get profiles i =
     ok_or (find (\<lambda>p. prof_id p = i) profiles) (HeapInvalidArgument ''isolation profile not in registry'')"

definition unauthenticated_allows :: "isolation_profile \<Rightarrow> string \<Rightarrow> bool" where
  "unauthenticated_allows self field =
     (if field \<in> set (prof_always_confidential self) then False
      else if field = ''aggregate_load'' \<and> \<not> prof_expose_aggregate_load self then False
      else if field = ''fine_timing_ms'' \<and> prof_coarsen_public_timing self then False
      else field \<in> set (prof_unauthenticated_fields self))"

definition is_always_confidential :: "isolation_profile \<Rightarrow> string \<Rightarrow> bool" where
  "is_always_confidential self field \<longleftrightarrow>
     field \<in> set (prof_always_confidential self)
     \<or> field = ''aggregate_load'' \<and> \<not> prof_expose_aggregate_load self
     \<or> field = ''fine_timing_ms'' \<and> prof_coarsen_public_timing self"

definition authenticated_allows_heap_local :: "isolation_profile \<Rightarrow> string \<Rightarrow> heap_error + unit" where
  "authenticated_allows_heap_local self field =
     (if is_always_confidential self field then Inl (heap_unavailable ConstraintDenied)
      else if field \<in> set (prof_heap_local_fields self) \<or> field \<in> set (prof_unauthenticated_fields self) then Inr ()
      else Inl (heap_unavailable ConstraintDenied))"

type_synonym loaded_profiles = "heap_error + isolation_profile list"

definition unauthenticated_field_allowed_under :: "loaded_profiles \<Rightarrow> isolation_profile_id \<Rightarrow> string \<Rightarrow> bool" where
  "unauthenticated_field_allowed_under loaded profile field =
     (case and_then loaded (\<lambda>r. profile_get r profile) of
        Inr p \<Rightarrow> unauthenticated_allows p field
      | Inl _ \<Rightarrow> False)"

definition unauthenticated_field_allowed :: "loaded_profiles \<Rightarrow> string \<Rightarrow> bool" where
  "unauthenticated_field_allowed loaded field =
     unauthenticated_field_allowed_under loaded REFERENCE_ISOLATION_PROFILE field"

section \<open>Queries\<close>

record query_observation_request =
  req_heap :: bytes
  req_collections :: "bytes list"
  req_streams :: "bytes list"
  req_estimated_work :: u64
  req_estimated_result_bytes :: u64

record confined_observation =
  obs_heap_id :: bytes
  obs_collections :: "bytes list"
  obs_streams :: "bytes list"
  obs_work_budget :: u64

fun is_collection_allowlist :: "constraint \<Rightarrow> bool" where
  "is_collection_allowlist (CollectionAllowlist _) = True"
| "is_collection_allowlist _ = False"

fun is_stream_allowlist :: "constraint \<Rightarrow> bool" where
  "is_stream_allowlist (StreamAllowlist _) = True"
| "is_stream_allowlist _ = False"

fun confine_ids :: "(bytes \<Rightarrow> bool) \<Rightarrow> bytes list \<Rightarrow> heap_error + bytes list" where
  "confine_ids ok [] = Inr []"
| "confine_ids ok (i # is) =
     (if \<not> ok i then Inl (heap_unavailable ConstraintDenied) else and_then (confine_ids ok is) (\<lambda>out. Inr (i # out)))"

definition confine_query_observation ::
    "slot_store \<Rightarrow> heap_cap \<Rightarrow> query_observation_request \<Rightarrow> heap_error + confined_observation" where
  "confine_query_observation slots cap request =
     (let constraints = cap_effective_constraints cap in
      and_then (refresh_capability_or_terminate slots cap) (\<lambda>_.
      and_then (require (req_heap request = cap_heap_id cap) StaleAuthority) (\<lambda>_.
      and_then (require (\<not> (list_ex is_collection_allowlist constraints \<and> req_collections request = []))
          ConstraintDenied) (\<lambda>_.
      and_then (require (\<not> (list_ex is_stream_allowlist constraints \<and> req_streams request = []
          \<and> req_collections request = [])) ConstraintDenied) (\<lambda>_.
      and_then (confine_ids (allows_collection constraints) (req_collections request)) (\<lambda>collections.
      and_then (confine_ids (allows_stream constraints) (req_streams request)) (\<lambda>streams.
      and_then (require (case max_query_work constraints of Some m \<Rightarrow> \<not> m < req_estimated_work request | None \<Rightarrow> True)
          ConstraintDenied) (\<lambda>_.
      and_then (require (case max_result_bytes constraints of
          Some m \<Rightarrow> \<not> m < req_estimated_result_bytes request | None \<Rightarrow> True) ConstraintDenied) (\<lambda>_.
        Inr \<lparr>obs_heap_id = cap_heap_id cap, obs_collections = collections, obs_streams = streams,
          obs_work_budget = (case max_query_work constraints of Some m \<Rightarrow> m | None \<Rightarrow> req_estimated_work request)\<rparr>)))))))))"

section \<open>Operational surfaces\<close>

record operational_event =
  ev_heap_id :: "bytes option"
  ev_field :: string
  ev_value :: string

text \<open>One heap-local item under a profile, shared by events and bundle entries.\<close>

definition local_field_ok :: "isolation_profile_id \<Rightarrow> isolation_profile \<Rightarrow> string \<Rightarrow> heap_error + unit" where
  "local_field_ok profile view field =
     (if is_always_confidential view field then Inl (heap_unavailable ConstraintDenied)
      else if profile \<noteq> HeapDataIsolated then authenticated_allows_heap_local view field
      else Inr ())"

fun confine_events :: "loaded_profiles \<Rightarrow> isolation_profile_id \<Rightarrow> isolation_profile \<Rightarrow> bytes \<Rightarrow>
    operational_event list \<Rightarrow> heap_error + operational_event list" where
  "confine_events loaded profile view bound [] = Inr []"
| "confine_events loaded profile view bound (ev # evs) =
     (case ev_heap_id ev of
        Some h \<Rightarrow>
          if h = bound then
            and_then (local_field_ok profile view (ev_field ev)) (\<lambda>_.
            and_then (confine_events loaded profile view bound evs) (\<lambda>out. Inr (ev # out)))
          else confine_events loaded profile view bound evs
      | None \<Rightarrow>
          if unauthenticated_field_allowed_under loaded profile (ev_field ev)
          then and_then (confine_events loaded profile view bound evs) (\<lambda>out. Inr (ev # out))
          else Inl (heap_unavailable ConstraintDenied))"

record confined_operational_observation =
  coo_heap_id :: bytes
  coo_events :: "operational_event list"

definition confine_operational_observation_under :: "loaded_profiles \<Rightarrow> slot_store \<Rightarrow> heap_cap \<Rightarrow>
    operational_event list \<Rightarrow> isolation_profile_id \<Rightarrow> heap_error + confined_operational_observation" where
  "confine_operational_observation_under loaded slots cap events profile =
     and_then (refresh_capability_or_terminate slots cap) (\<lambda>_.
     and_then (and_then loaded (\<lambda>r. profile_get r profile)) (\<lambda>view.
     and_then (confine_events loaded profile view (cap_heap_id cap) events) (\<lambda>out.
       Inr \<lparr>coo_heap_id = cap_heap_id cap, coo_events = out\<rparr>)))"

definition confine_operational_observation :: "loaded_profiles \<Rightarrow> slot_store \<Rightarrow> heap_cap \<Rightarrow>
    operational_event list \<Rightarrow> heap_error + confined_operational_observation" where
  "confine_operational_observation loaded slots cap events =
     confine_operational_observation_under loaded slots cap events REFERENCE_ISOLATION_PROFILE"

definition confine_export_heaps :: "slot_store \<Rightarrow> heap_cap \<Rightarrow> bytes list \<Rightarrow> heap_error + bytes list" where
  "confine_export_heaps slots cap requested =
     and_then (refresh_capability_or_terminate slots cap) (\<lambda>_.
       let bound = cap_heap_id cap in
       if requested = [] then Inr [bound]
       else if list_ex (\<lambda>h. h \<noteq> bound) requested then Inl (heap_unavailable StaleAuthority)
       else Inr [bound])"

record health_detail_input =
  hd_live :: bool
  hd_ready :: bool
  hd_reasons :: "string list"
  hd_store_path :: "string option"
  hd_live_count :: "nat option"
  hd_node_index :: "u32 option"
  hd_draining :: bool
  hd_bound_heap_usage_bytes :: "u64 option"
  hd_foreign_heap_usage_bytes :: "u64 option"

record confined_health_detail =
  chd_live :: bool
  chd_ready :: bool
  chd_reasons :: "string list"
  chd_draining :: "bool option"
  chd_bound_heap_usage_bytes :: "u64 option"

definition confine_health_detail ::
    "slot_store \<Rightarrow> heap_cap option \<Rightarrow> health_detail_input \<Rightarrow> heap_error + confined_health_detail" where
  "confine_health_detail slots cap inp =
     (case cap of
        None \<Rightarrow> Inr \<lparr>chd_live = hd_live inp, chd_ready = hd_ready inp, chd_reasons = [], chd_draining = None,
          chd_bound_heap_usage_bytes = None\<rparr>
      | Some cap \<Rightarrow> and_then (refresh_capability_or_terminate slots cap) (\<lambda>_.
          Inr \<lparr>chd_live = hd_live inp, chd_ready = hd_ready inp, chd_reasons = hd_reasons inp,
            chd_draining = Some (hd_draining inp), chd_bound_heap_usage_bytes = hd_bound_heap_usage_bytes inp\<rparr>))"

record support_bundle_entry =
  sb_heap_id :: "bytes option"
  sb_kind :: string
  sb_label :: string
  sb_contains_secrets :: bool

fun confine_entries :: "loaded_profiles \<Rightarrow> isolation_profile_id \<Rightarrow> isolation_profile \<Rightarrow> bytes \<Rightarrow>
    support_bundle_entry list \<Rightarrow> heap_error + support_bundle_entry list" where
  "confine_entries loaded profile view bound [] = Inr []"
| "confine_entries loaded profile view bound (e # es) =
     (if sb_contains_secrets e then Inl (heap_unavailable ConstraintDenied)
      else case sb_heap_id e of
        Some h \<Rightarrow>
          if h = bound then
            and_then (local_field_ok profile view (sb_kind e)) (\<lambda>_.
            and_then (confine_entries loaded profile view bound es) (\<lambda>out. Inr (e # out)))
          else confine_entries loaded profile view bound es
      | None \<Rightarrow>
          if unauthenticated_field_allowed_under loaded profile (sb_kind e)
          then and_then (confine_entries loaded profile view bound es) (\<lambda>out. Inr (e # out))
          else Inl (heap_unavailable ConstraintDenied))"

record confined_support_bundle =
  csb_heap_id :: bytes
  csb_entries :: "support_bundle_entry list"

definition confine_support_bundle_under :: "loaded_profiles \<Rightarrow> slot_store \<Rightarrow> heap_cap \<Rightarrow>
    support_bundle_entry list \<Rightarrow> isolation_profile_id \<Rightarrow> heap_error + confined_support_bundle" where
  "confine_support_bundle_under loaded slots cap entries profile =
     and_then (refresh_capability_or_terminate slots cap) (\<lambda>_.
     and_then (and_then loaded (\<lambda>r. profile_get r profile)) (\<lambda>view.
     and_then (confine_entries loaded profile view (cap_heap_id cap) entries) (\<lambda>out.
       Inr \<lparr>csb_heap_id = cap_heap_id cap, csb_entries = out\<rparr>)))"

definition confine_support_bundle :: "loaded_profiles \<Rightarrow> slot_store \<Rightarrow> heap_cap \<Rightarrow>
    support_bundle_entry list \<Rightarrow> heap_error + confined_support_bundle" where
  "confine_support_bundle loaded slots cap entries =
     confine_support_bundle_under loaded slots cap entries REFERENCE_ISOLATION_PROFILE"

section \<open>Lemmas\<close>

lemma confine_ids_iff: "confine_ids ok is = Inr out \<longleftrightarrow> list_all ok is \<and> out = is"
  by (induction "is" arbitrary: out) (auto simp: result_simps)

definition visible :: "bytes \<Rightarrow> bytes option \<Rightarrow> bool" where
  "visible bound h \<longleftrightarrow> h = None \<or> h = Some bound"

lemma confine_events_visible:
  "confine_events loaded profile view bound evs
    = confine_events loaded profile view bound (filter (\<lambda>e. visible bound (ev_heap_id e)) evs)"
  by (induction evs) (auto simp: visible_def split: option.splits)

lemma confine_events_sub:
  "confine_events loaded profile view bound evs = Inr out \<Longrightarrow> out = filter (\<lambda>e. visible bound (ev_heap_id e)) evs"
  by (induction evs arbitrary: out) (auto simp: visible_def result_simps split: option.splits if_splits)

lemma local_field_error: "local_field_ok profile view f = Inl e \<Longrightarrow> e = heap_unavailable ConstraintDenied"
  by (auto simp: local_field_ok_def authenticated_allows_heap_local_def split: if_splits)

lemma confine_entries_visible:
  "confine_entries loaded profile view bound es
    = (if list_ex (\<lambda>e. sb_contains_secrets e \<and> \<not> visible bound (sb_heap_id e)) es
       then Inl (heap_unavailable ConstraintDenied)
       else confine_entries loaded profile view bound (filter (\<lambda>e. visible bound (sb_heap_id e)) es))"
proof (induction es)
  case (Cons e es)
  show ?case
  proof (cases "local_field_ok profile view (sb_kind e)")
    case (Inl x)
    then show ?thesis using Cons local_field_error [OF Inl] by (auto simp: visible_def split: option.splits)
  next
    case (Inr u)
    then show ?thesis using Cons by (auto simp: visible_def split: option.splits)
  qed
qed simp

lemma max_query_work_permits:
  "sorted_wrt (<) (map constraint_kind cs) \<Longrightarrow>
     (case max_query_work cs of Some m \<Rightarrow> \<not> m < n | None \<Rightarrow> True) \<longleftrightarrow> (\<forall>c \<in> set cs. permits c (ReqWork n))"
proof (induction cs)
  case (Cons c cs)
  have "permits d (ReqWork n)" if "constraint_kind d \<noteq> 6" for d using that by (cases d) auto
  then show ?case using Cons by (cases c) (auto simp: not_less)
qed simp

lemma max_result_bytes_permits:
  "sorted_wrt (<) (map constraint_kind cs) \<Longrightarrow>
     (case max_result_bytes cs of Some m \<Rightarrow> \<not> m < n | None \<Rightarrow> True) \<longleftrightarrow> (\<forall>c \<in> set cs. permits c (ResBytes n))"
proof (induction cs)
  case (Cons c cs)
  have "permits d (ResBytes n)" if "constraint_kind d \<noteq> 5" for d using that by (cases d) auto
  then show ?case using Cons by (cases c) (auto simp: not_less)
qed simp

section \<open>Properties\<close>


definition sample_cap :: "constraints \<Rightarrow> heap_cap" where
  "sample_cap cs = \<lparr>cap_capability_id = [], cap_slot = 0, cap_deployment_id = [1], cap_heap_id = [2],
     cap_certificate_id = [4], cap_certificate_fingerprint = [3], cap_holder_fingerprint = [5],
     cap_authority_epoch = 1, cap_authority_generation = 2, cap_security_revision = 4, cap_chain_head_hash = [7],
     cap_effective_rights = 5, cap_effective_constraints = cs, cap_validity_deadline = 100\<rparr>"

lemma sample_cap_heap: "cap_heap_id (sample_cap cs) = [2]"
  by (simp add: sample_cap_def)

lemma sample_cap_live: "refresh_capability_or_terminate (\<lambda>_. sample_snapshot) (sample_cap cs) = Inr ()"
  by (simp add: refresh_iff sample_snapshot_def sample_cap_def admin_is_serving_def)


text \<open>C37: other heaps cannot be observed through diagnostics. The confined events are those of the
  bound heap and the deployment-wide ones, and the result, errors included, is the same whatever
  events of other heaps were offered; a health detail does not depend on paths, global counts,
  topology or the usage of other heaps.\<close>

theorem diagnostics_do_not_interfere:
  "confine_operational_observation_under loaded slots cap evs profile
     = confine_operational_observation_under loaded slots cap
         (filter (\<lambda>e. visible (cap_heap_id cap) (ev_heap_id e)) evs) profile
   \<and> (confine_operational_observation_under loaded slots cap evs profile = Inr obs \<longrightarrow>
       coo_events obs = filter (\<lambda>e. visible (cap_heap_id cap) (ev_heap_id e)) evs)
   \<and> confine_health_detail slots c inp = confine_health_detail slots c (inp\<lparr>hd_store_path := p, hd_live_count := n,
       hd_node_index := i, hd_foreign_heap_usage_bytes := f\<rparr>)"
proof (intro conjI impI)
  show "confine_operational_observation_under loaded slots cap evs profile
     = confine_operational_observation_under loaded slots cap
         (filter (\<lambda>e. visible (cap_heap_id cap) (ev_heap_id e)) evs) profile"
    unfolding confine_operational_observation_under_def
    by (subst confine_events_visible) (rule refl)
  show "coo_events obs = filter (\<lambda>e. visible (cap_heap_id cap) (ev_heap_id e)) evs"
    if "confine_operational_observation_under loaded slots cap evs profile = Inr obs"
    using that by (auto simp: confine_operational_observation_under_def result_simps dest: confine_events_sub)
qed (simp add: confine_health_detail_def split: option.splits)

theorem diagnostics_do_not_interfere_witness:
  "\<exists>obs. confine_operational_observation_under (Inr [\<lparr>prof_id = HeapDataIsolated, prof_unauthenticated_fields = [],
      prof_heap_local_fields = [], prof_always_confidential = [], prof_coarsen_public_timing = True,
      prof_expose_aggregate_load = False\<rparr>]) (\<lambda>_. sample_snapshot) (sample_cap [])
      [\<lparr>ev_heap_id = Some [6], ev_field = ''x'', ev_value = ''1''\<rparr>, \<lparr>ev_heap_id = Some [2], ev_field = ''y'', ev_value = ''2''\<rparr>]
      HeapDataIsolated = Inr obs
    \<and> coo_events obs = [\<lparr>ev_heap_id = Some [2], ev_field = ''y'', ev_value = ''2''\<rparr>]"
proof -
  let ?l = "Inr [\<lparr>prof_id = HeapDataIsolated, prof_unauthenticated_fields = [],
      prof_heap_local_fields = [], prof_always_confidential = [], prof_coarsen_public_timing = True,
      prof_expose_aggregate_load = False\<rparr>] :: loaded_profiles"
  let ?evs = "[\<lparr>ev_heap_id = Some [6], ev_field = ''x'', ev_value = ''1''\<rparr>, \<lparr>ev_heap_id = Some [2], ev_field = ''y'', ev_value = ''2''\<rparr>]"
  obtain obs where o: "confine_operational_observation_under ?l (\<lambda>_. sample_snapshot) (sample_cap []) ?evs HeapDataIsolated = Inr obs"
    by (simp add: confine_operational_observation_under_def sample_cap_live profile_get_def)
      (simp add: sample_cap_def local_field_ok_def is_always_confidential_def)
  then have "coo_events obs = filter (\<lambda>e. visible (cap_heap_id (sample_cap [])) (ev_heap_id e)) ?evs"
    using diagnostics_do_not_interfere [of ?l "\<lambda>_. sample_snapshot" "sample_cap []" ?evs HeapDataIsolated obs] by blast
  also have "\<dots> = [\<lparr>ev_heap_id = Some [2], ev_field = ''y'', ev_value = ''2''\<rparr>]"
    by (simp add: visible_def sample_cap_heap)
  finally show ?thesis using o by blast
qed

text \<open>A support bundle reveals one bit about other heaps. Entries of other heaps are dropped
  unless one of them carries secrets: then the whole bundle is denied, although nothing of the
  bound heap is at fault.\<close>

lemma foreign_secrets_deny_bundles:
  "confine_support_bundle_under loaded slots cap es profile =
     and_then (refresh_capability_or_terminate slots cap) (\<lambda>_.
     and_then (and_then loaded (\<lambda>r. profile_get r profile)) (\<lambda>_.
       if list_ex (\<lambda>e. sb_contains_secrets e \<and> \<not> visible (cap_heap_id cap) (sb_heap_id e)) es
       then Inl (heap_unavailable ConstraintDenied)
       else confine_support_bundle_under loaded slots cap
         (filter (\<lambda>e. visible (cap_heap_id cap) (sb_heap_id e)) es) profile))"
proof -
  have "and_then (confine_entries loaded profile view (cap_heap_id cap) es) f =
      (if list_ex (\<lambda>e. sb_contains_secrets e \<and> \<not> visible (cap_heap_id cap) (sb_heap_id e)) es
       then Inl (heap_unavailable ConstraintDenied)
       else and_then (confine_entries loaded profile view (cap_heap_id cap)
         (filter (\<lambda>e. visible (cap_heap_id cap) (sb_heap_id e)) es)) f)" for view and f :: "_ \<Rightarrow> heap_error + confined_support_bundle"
    by (subst confine_entries_visible) simp
  then show ?thesis
    by (cases "refresh_capability_or_terminate slots cap"; cases "and_then loaded (\<lambda>r. profile_get r profile)")
      (auto simp: confine_support_bundle_under_def)
qed

end
