(* ===== verification/Heap_Models.thy ===== *)
theory Heap_Models
  imports Heap_Decide
begin

text \<open>
  The two executable models of the heap crate (\<^verbatim>\<open>residiuum-heap/src\<close>: \<^verbatim>\<open>authority_model.rs\<close> and
  \<^verbatim>\<open>isolation_model.rs\<close>) as guarded state machines, the invariants their sources state, and the
  relation of the real decision function to the authority model. A method that returns
  \<^verbatim>\<open>false\<close> leaves the state as it was: it is a refused step. Certificates and units are opaque in
  the models, so their type is a variable.
\<close>

section \<open>Authority\<close>

datatype model_admin_state = MaActive | MaReadOnly | MaSuspended | MaRetired | MaPurging | MaPurged

definition ma_is_serving :: "model_admin_state \<Rightarrow> bool" where
  "ma_is_serving s \<longleftrightarrow> s = MaActive \<or> s = MaReadOnly"

definition ma_is_terminal :: "model_admin_state \<Rightarrow> bool" where
  "ma_is_terminal s \<longleftrightarrow> s = MaPurged"

record 'c authority_model =
  am_current_gen :: u64
  am_previous_gen :: "u64 option"
  am_grace_deadline :: "u64 option"
  am_now :: u64
  am_blacklist :: "'c set"
  am_admin_state :: model_admin_state
  am_admitted :: "'c set"

definition am_new :: "u64 \<Rightarrow> 'c authority_model" where
  "am_new g = \<lparr>am_current_gen = g, am_previous_gen = None, am_grace_deadline = None, am_now = 0,
     am_blacklist = {}, am_admin_state = MaActive, am_admitted = {}\<rparr>"

definition am_gen_ok :: "'c authority_model \<Rightarrow> u64 \<Rightarrow> bool" where
  "am_gen_ok m cert_gen =
     (if cert_gen = am_current_gen m then True
      else case (am_previous_gen m, am_grace_deadline m) of
        (Some prev, Some deadline) \<Rightarrow> cert_gen = prev \<and> am_now m \<le> deadline
      | _ \<Rightarrow> False)"

definition am_not_blacklisted :: "'c authority_model \<Rightarrow> 'c \<Rightarrow> bool" where
  "am_not_blacklisted m cert \<longleftrightarrow> cert \<notin> am_blacklist m \<or> am_previous_gen m = None"

definition am_admission_ok :: "'c authority_model \<Rightarrow> 'c \<Rightarrow> u64 \<Rightarrow> bool" where
  "am_admission_ok m cert cert_gen \<longleftrightarrow>
     ma_is_serving (am_admin_state m) \<and> \<not> ma_is_terminal (am_admin_state m)
     \<and> am_gen_ok m cert_gen \<and> am_not_blacklisted m cert"

definition am_advance_time :: "'c authority_model \<Rightarrow> 'c authority_model" where
  "am_advance_time m = m\<lparr>am_now := saturating_add (am_now m) 1\<rparr>"

definition am_hard_cycle :: "'c authority_model \<Rightarrow> u64 \<Rightarrow> unit + 'c authority_model" where
  "am_hard_cycle m new_gen =
     (if new_gen = am_current_gen m then Inl ()
      else Inr (m\<lparr>am_current_gen := new_gen, am_previous_gen := None, am_grace_deadline := None,
        am_blacklist := {}, am_admitted := {}\<rparr>))"

definition am_grace_cycle :: "'c authority_model \<Rightarrow> u64 \<Rightarrow> u64 \<Rightarrow> unit + 'c authority_model" where
  "am_grace_cycle m new_gen deadline =
     (if new_gen = am_current_gen m \<or> deadline < am_now m then Inl ()
      else Inr (m\<lparr>am_previous_gen := Some (am_current_gen m), am_current_gen := new_gen,
        am_grace_deadline := Some deadline, am_blacklist := {}, am_admitted := {}\<rparr>))"

definition am_blacklist_add :: "'c authority_model \<Rightarrow> 'c \<Rightarrow> unit + 'c authority_model" where
  "am_blacklist_add m cert =
     (if am_previous_gen m = None then Inl ()
      else Inr (m\<lparr>am_blacklist := insert cert (am_blacklist m), am_admitted := am_admitted m - {cert}\<rparr>))"

definition am_admit :: "'c authority_model \<Rightarrow> 'c \<Rightarrow> u64 \<Rightarrow> unit + 'c authority_model" where
  "am_admit m cert cert_gen =
     (if \<not> am_admission_ok m cert cert_gen then Inl ()
      else Inr (m\<lparr>am_admitted := insert cert (am_admitted m)\<rparr>))"

definition am_suspend :: "'c authority_model \<Rightarrow> unit + 'c authority_model" where
  "am_suspend m =
     (if am_admin_state m \<noteq> MaActive then Inl ()
      else Inr (m\<lparr>am_admin_state := MaSuspended, am_admitted := {}\<rparr>))"

definition am_retire :: "'c authority_model \<Rightarrow> unit + 'c authority_model" where
  "am_retire m =
     (if am_admin_state m \<notin> {MaActive, MaReadOnly, MaSuspended} then Inl ()
      else Inr (m\<lparr>am_admin_state := MaRetired, am_admitted := {}\<rparr>))"

definition am_purge_done :: "'c authority_model \<Rightarrow> unit + 'c authority_model" where
  "am_purge_done m =
     (if am_admin_state m \<notin> {MaRetired, MaPurging} then Inl ()
      else Inr (m\<lparr>am_admin_state := MaPurged, am_admitted := {}\<rparr>))"

definition am_expire_grace :: "'c authority_model \<Rightarrow> unit + 'c authority_model" where
  "am_expire_grace m =
     (case (am_previous_gen m, am_grace_deadline m) of
        (Some _, Some deadline) \<Rightarrow>
          if deadline < am_now m
          then Inr (m\<lparr>am_previous_gen := None, am_grace_deadline := None, am_blacklist := {}, am_admitted := {}\<rparr>)
          else Inl ()
      | _ \<Rightarrow> Inl ())"

definition am_invariants_hold :: "'c authority_model \<Rightarrow> bool" where
  "am_invariants_hold m =
     (if am_admitted m \<noteq> {} \<and> \<not> ma_is_serving (am_admin_state m) then False
      else if ma_is_terminal (am_admin_state m) \<and> am_admitted m \<noteq> {} then False
      else \<forall>c \<in> am_admitted m. am_admission_ok m c (am_current_gen m)
        \<or> (case am_previous_gen m of Some g \<Rightarrow> am_admission_ok m c g | None \<Rightarrow> False))"

text \<open>One call of a mutating method.\<close>

datatype 'c am_op =
    AmAdvanceTime | AmHardCycle u64 | AmGraceCycle u64 u64 | AmBlacklistAdd 'c | AmAdmit 'c u64
  | AmSuspend | AmRetire | AmPurgeDone | AmExpireGrace

fun am_step :: "'c authority_model \<Rightarrow> 'c am_op \<Rightarrow> unit + 'c authority_model" where
  "am_step m AmAdvanceTime = Inr (am_advance_time m)"
| "am_step m (AmHardCycle g) = am_hard_cycle m g"
| "am_step m (AmGraceCycle g d) = am_grace_cycle m g d"
| "am_step m (AmBlacklistAdd c) = am_blacklist_add m c"
| "am_step m (AmAdmit c g) = am_admit m c g"
| "am_step m AmSuspend = am_suspend m"
| "am_step m AmRetire = am_retire m"
| "am_step m AmPurgeDone = am_purge_done m"
| "am_step m AmExpireGrace = am_expire_grace m"

lemmas am_defs = am_advance_time_def am_hard_cycle_def am_grace_cycle_def am_blacklist_add_def am_admit_def
  am_suspend_def am_retire_def am_purge_done_def am_expire_grace_def

lemma am_inv_alt:
  "am_invariants_hold m \<longleftrightarrow> (am_admitted m \<noteq> {} \<longrightarrow> ma_is_serving (am_admin_state m))
     \<and> (\<forall>c \<in> am_admitted m. am_not_blacklisted m c)"
  by (auto simp: am_invariants_hold_def am_admission_ok_def am_gen_ok_def ma_is_serving_def ma_is_terminal_def
      split: option.splits)

interpretation am: guarded_machine am_step "\<lambda>_. True" am_invariants_hold
proof unfold_locales
  fix m t :: "'c authority_model" and ev
  assume "am_invariants_hold m" "am_step m ev = Inr t"
  then show "am_invariants_hold t"
    by (cases ev) (auto simp: am_inv_alt am_defs am_not_blacklisted_def am_admission_ok_def
        split: if_splits option.splits)
qed

section \<open>Isolation\<close>

record 'u isolation_model =
  im_owners :: "'u \<rightharpoonup> bytes"
  im_admitted :: "'u set"
  im_bound_heap :: bytes

definition im_new :: "bytes \<Rightarrow> 'u isolation_model" where
  "im_new bound = \<lparr>im_owners = Map.empty, im_admitted = {}, im_bound_heap = bound\<rparr>"

definition im_assign_owner :: "'u isolation_model \<Rightarrow> 'u \<Rightarrow> bytes \<Rightarrow> unit + 'u isolation_model" where
  "im_assign_owner m unit heap =
     (if im_owners m unit \<noteq> None then Inl () else Inr (m\<lparr>im_owners := (im_owners m)(unit \<mapsto> heap)\<rparr>))"

definition im_admit :: "'u isolation_model \<Rightarrow> 'u \<Rightarrow> unit + 'u isolation_model" where
  "im_admit m unit =
     (case im_owners m unit of
        Some h \<Rightarrow> if h = im_bound_heap m then Inr (m\<lparr>im_admitted := insert unit (im_admitted m)\<rparr>) else Inl ()
      | None \<Rightarrow> Inl ())"

definition im_damage :: "'u isolation_model \<Rightarrow> 'u \<Rightarrow> 'u isolation_model" where
  "im_damage m unit = m\<lparr>im_owners := (im_owners m)(unit := None), im_admitted := im_admitted m - {unit}\<rparr>"

definition im_rebind :: "'u isolation_model \<Rightarrow> bytes \<Rightarrow> 'u isolation_model" where
  "im_rebind m heap = m\<lparr>im_bound_heap := heap, im_admitted := {}\<rparr>"

definition im_read_confinement :: "'u isolation_model \<Rightarrow> bool" where
  "im_read_confinement m \<longleftrightarrow> (\<forall>u \<in> im_admitted m. im_owners m u = Some (im_bound_heap m))"

definition im_write_confinement :: "'u isolation_model \<Rightarrow> bool" where
  "im_write_confinement m \<longleftrightarrow>
     (\<forall>u \<in> dom (im_owners m). im_owners m u \<noteq> Some (im_bound_heap m) \<longrightarrow> u \<notin> im_admitted m)"

definition im_revocation_closed :: "'u isolation_model \<Rightarrow> bool" where
  "im_revocation_closed m \<longleftrightarrow> (\<forall>u \<in> im_admitted m. im_owners m u \<noteq> None)"

definition im_ownership_disjoint :: "'u isolation_model \<Rightarrow> bool" where
  "im_ownership_disjoint m = True"

definition im_invariants_hold :: "'u isolation_model \<Rightarrow> bool" where
  "im_invariants_hold m \<longleftrightarrow> im_read_confinement m \<and> im_write_confinement m
     \<and> im_ownership_disjoint m \<and> im_revocation_closed m"

datatype 'u im_op = ImAssign 'u bytes | ImAdmit 'u | ImDamage 'u | ImRebind bytes

fun im_step :: "'u isolation_model \<Rightarrow> 'u im_op \<Rightarrow> unit + 'u isolation_model" where
  "im_step m (ImAssign u h) = im_assign_owner m u h"
| "im_step m (ImAdmit u) = im_admit m u"
| "im_step m (ImDamage u) = Inr (im_damage m u)"
| "im_step m (ImRebind h) = Inr (im_rebind m h)"

interpretation im: guarded_machine im_step "\<lambda>_. True" im_invariants_hold
proof unfold_locales
  fix m t :: "'u isolation_model" and ev
  assume "im_invariants_hold m" "im_step m ev = Inr t"
  then show "im_invariants_hold t"
    by (cases ev) (auto simp: im_invariants_hold_def im_read_confinement_def im_write_confinement_def
        im_ownership_disjoint_def im_revocation_closed_def im_assign_owner_def im_admit_def im_damage_def im_rebind_def
        split: if_splits option.splits)
qed

section \<open>The decision function and the authority model\<close>

fun abs_admin :: "heap_administrative_state \<Rightarrow> model_admin_state" where
  "abs_admin HsActive = MaActive"
| "abs_admin HsReadOnly = MaReadOnly"
| "abs_admin HsSuspended = MaSuspended"
| "abs_admin HsRetired = MaRetired"
| "abs_admin HsPurging = MaPurging"
| "abs_admin HsPurged = MaPurged"

text \<open>The model state a snapshot stands for at a given time: a certificate is blacklisted when an
  entry of its own generation hits it.\<close>

definition abs_authority ::
    "(bytes \<Rightarrow> bytes) \<Rightarrow> heap_security_snapshot \<Rightarrow> trusted_instant \<Rightarrow> verified_certificate authority_model" where
  "abs_authority sha snap now = \<lparr>am_current_gen = snap_authority_generation snap,
     am_previous_gen = snap_previous_generation snap, am_grace_deadline = snap_grace_deadline snap,
     am_now = unix_s now, am_blacklist = {c. certificate_blacklisted sha snap c},
     am_admin_state = abs_admin (snap_administrative_state snap), am_admitted = {}\<rparr>"

lemma abs_admin_serving: "ma_is_serving (abs_admin s) \<longleftrightarrow> admin_is_serving s"
  "ma_is_terminal (abs_admin s) \<longleftrightarrow> admin_is_terminal s"
  by (cases s; simp add: ma_is_serving_def admin_is_serving_def ma_is_terminal_def admin_is_terminal_def)+

lemma abs_gen_ok: "am_gen_ok (abs_authority sha snap now) (cert_authority_generation cert) \<longleftrightarrow> generation_accepted snap cert now"
  by (auto simp: am_gen_ok_def abs_authority_def generation_accepted_def split: option.splits)

lemma admission_ok_iff:
  "authority_admission_ok sha snap cert now \<longleftrightarrow> authority_binding_holds snap cert
     \<and> admin_is_serving (snap_administrative_state snap) \<and> generation_accepted snap cert now
     \<and> \<not> certificate_blacklisted sha snap cert
     \<and> (\<exists>pk. issuing_key snap (cert_authority_generation cert) = Some pk \<and> cert_issuer_master_key_id cert = sha pk)"
  by (auto simp: authority_admission_ok_def issuing_key_def Let_def admin_is_serving_def admin_is_terminal_def
      split: option.splits)

section \<open>Properties\<close>

text \<open>C38: the decision function implements the authority model. Whatever operation it allows on a
  serving heap comes with a certificate the authority admits, and the model state the snapshot
  stands for admits it too under its generation.\<close>

theorem decide_refines_authority_model:
  assumes "decide R sha snap cert op now = Allow" and "\<not> public_op (opd_operation_id op)"
    and "admin_is_serving (snap_administrative_state snap)"
  shows "authority_admission_ok sha snap cert now
    \<and> am_admission_ok (abs_authority sha snap now) cert (cert_authority_generation cert)
    \<and> (\<exists>t. am_step (abs_authority sha snap now) (AmAdmit cert (cert_authority_generation cert)) = Inr t
        \<and> cert \<in> am_admitted t)"
proof -
  have a: "authority_admission_ok sha snap cert now"
    using assms unfolding decide_Allow decide_inner_iff admission_ok_iff by auto
  then have "am_admission_ok (abs_authority sha snap now) cert (cert_authority_generation cert)"
    unfolding admission_ok_iff am_admission_ok_def abs_gen_ok
    by (auto simp: abs_authority_def am_not_blacklisted_def abs_admin_serving admin_is_serving_def admin_is_terminal_def)
  with a show ?thesis by (simp add: am_admit_def)
qed

theorem decide_refines_authority_model_witness:
  "decide sample_registry (\<lambda>b. b) sample_snapshot (sample_cert 1 [8]) sample_op \<lparr>unix_s = 50\<rparr> = Allow
   \<and> am_admission_ok (abs_authority (\<lambda>b. b) sample_snapshot \<lparr>unix_s = 50\<rparr>) (sample_cert 1 [8]) 1"
proof -
  have a: "decide sample_registry (\<lambda>b. b) sample_snapshot (sample_cert 1 [8]) sample_op \<lparr>unix_s = 50\<rparr> = Allow"
    unfolding decide_Allow decide_inner_iff
    by (simp add: op_active_def sample_registry_def sample_op_def public_op_def authority_binding_holds_def
      sample_snapshot_def sample_cert_def generation_accepted_def issuing_key_def certificate_blacklisted_def
      admin_is_terminal_def required_rights_def operation_lookup_def from_bits_effective_def DEFINED_MASK_def
      rights_contains_def effective_rights_def allows_operation_def)
  have "\<not> public_op (opd_operation_id sample_op)" "admin_is_serving (snap_administrative_state sample_snapshot)"
    by (simp_all add: public_op_def sample_op_def sample_snapshot_def admin_is_serving_def)
  from a decide_refines_authority_model [OF a this] show ?thesis by (simp add: sample_cert_def)
qed

text \<open>C39: every history of the authority model keeps its invariants, and purging is final. From a
  fresh model, whatever sequence of cycles, blacklistings, admissions, state changes and clock
  steps was accepted, admitted certificates exist only while the heap serves and none of them is
  blacklisted; and once the heap is purged no sequence of calls leaves that state or admits anything.\<close>

theorem authority_model_safe:
  assumes "reaches am_step (\<lambda>_. True) (am_new g) m"
  shows "am_invariants_hold m \<and> (am_admitted m \<noteq> {} \<longrightarrow> ma_is_serving (am_admin_state m))
    \<and> (\<forall>c \<in> am_admitted m. am_not_blacklisted m c)
    \<and> (\<forall>t. am_admin_state m = MaPurged \<longrightarrow> reaches am_step (\<lambda>_. True) m t \<longrightarrow>
        am_admin_state t = MaPurged \<and> am_admitted t = {})"
proof -
  have inv: "am_invariants_hold m"
    using am.reaches_inv [OF assms] by (simp add: am_inv_alt am_new_def)
  have "am_admin_state t = MaPurged" if "reaches am_step (\<lambda>_. True) m t" "am_admin_state m = MaPurged" for t
    using that
  proof (induction rule: reaches.induct)
    case (reaches_step s ev t)
    then show ?case by (cases ev) (auto simp: am_defs split: if_splits option.splits)
  qed simp
  moreover have "am_invariants_hold t" if "reaches am_step (\<lambda>_. True) m t" for t
    using am.reaches_inv [OF that inv] .
  ultimately show ?thesis using inv
    unfolding am_inv_alt by (auto simp: ma_is_serving_def)
qed

theorem authority_model_safe_witness:
  "\<exists>m. reaches am_step (\<lambda>_. True) (am_new 1) m \<and> am_admitted m = {7 :: u32} \<and> am_invariants_hold m"
proof -
  let ?m = "(am_new 1 :: u32 authority_model)\<lparr>am_admitted := {7}\<rparr>"
  have "am_step (am_new 1) (AmAdmit 7 1) = Inr ?m"
    by (simp add: am_admit_def am_admission_ok_def am_gen_ok_def am_not_blacklisted_def am_new_def
        ma_is_serving_def ma_is_terminal_def)
  then have r: "reaches am_step (\<lambda>_. True) (am_new 1) ?m"
    by (blast intro: reaches_step reaches_refl)
  from r authority_model_safe [OF r] show ?thesis by (intro exI [of _ ?m]) simp
qed

text \<open>C40: every history of the isolation model confines reads and writes. Whatever units were assigned,
  damaged, admitted or rebound, an admitted unit is owned by the bound heap, a unit of another
  heap is not admitted, and rebinding leaves nothing of the former heap admitted.\<close>

theorem isolation_model_safe:
  assumes "reaches im_step (\<lambda>_. True) (im_new h) m"
  shows "im_invariants_hold m \<and> (\<forall>u \<in> im_admitted m. im_owners m u = Some (im_bound_heap m))
    \<and> im_admitted (im_rebind m h') = {}"
proof -
  have "im_invariants_hold m"
    using im.reaches_inv [OF assms]
    by (simp add: im_invariants_hold_def im_read_confinement_def im_write_confinement_def im_ownership_disjoint_def im_revocation_closed_def im_new_def)
  then show ?thesis by (simp add: im_invariants_hold_def im_read_confinement_def im_rebind_def)
qed

theorem isolation_model_safe_witness:
  "\<exists>m. reaches im_step (\<lambda>_. True) (im_new [1]) m \<and> im_admitted m = {5 :: u32} \<and> im_owners m 5 = Some [1]"
proof -
  let ?a = "(im_new [1] :: u32 isolation_model)\<lparr>im_owners := [5 \<mapsto> [1]]\<rparr>"
  let ?m = "?a\<lparr>im_admitted := {5}\<rparr>"
  have "im_step (im_new [1]) (ImAssign 5 [1]) = Inr ?a" "im_step ?a (ImAdmit 5) = Inr ?m"
    by (simp_all add: im_assign_owner_def im_admit_def im_new_def)
  then have r: "reaches im_step (\<lambda>_. True) (im_new [1]) ?m"
    by (blast intro: reaches_step reaches_refl)
  from r isolation_model_safe [OF r, of "[1]"] show ?thesis by (intro exI [of _ ?m]) simp
qed

text \<open>The stated invariant is blind to generations: a certificate admitted under the previous
  generation is still admitted, and the invariant still holds, after the grace deadline passed.\<close>

lemma stale_admission_keeps_invariant:
  assumes "am_admission_ok m c g" and "am_previous_gen m = Some g" and "g \<noteq> am_current_gen m"
    and "am_grace_deadline m = Some d" and "am_now m = d" and "d \<noteq> - 1" and "am_admitted m = {}"
  shows "\<exists>m1 m2. am_step m (AmAdmit c g) = Inr m1 \<and> am_step m1 AmAdvanceTime = Inr m2
    \<and> c \<in> am_admitted m2 \<and> \<not> am_gen_ok m2 g \<and> am_invariants_hold m2"
proof -
  have "unat d + 1 < 2 ^ 64"
    using assms(6) unsigned_less [of d, where 'a = nat] by (auto simp: word_unat_eq_iff unsigned_minus_1_eq_mask mask_eq_exp_minus_1)
  then have "saturating_add d 1 = d + 1" "d < d + 1"
    by (simp_all add: saturating_add_def word_less_nat_alt unat_word_ariths)
  then show ?thesis using assms
    by (auto simp: am_admit_def am_advance_time_def am_gen_ok_def am_inv_alt am_admission_ok_def am_not_blacklisted_def)
qed

end
