(* ===== verification/Raft.thy ===== *)
theory Raft
  imports Prelude "HOL-Library.Sublist"
begin

text \<open>
  The consensus group of one partition (\<^verbatim>\<open>residiuum-cluster/src/raft.rs\<close>) and its durable peer stores
  (\<^verbatim>\<open>raft_persist.rs\<close>). All peers of a group live in one structure and remote calls are direct
  calls, so every operation is a function from the group to its result and the changed group.
  Terms and indices are naturals below \<open>2 ^ 64\<close>; additions wrap as in the code. Node identifiers are
  only compared. A flush of a peer to its store may fail at any point: what the next flushes do is
  a list in the group, so that every schedule of disk failures is an input.
\<close>

section \<open>Log and peers\<close>

type_synonym node_id = nat

definition add64 :: "nat \<Rightarrow> nat \<Rightarrow> nat" where
  "add64 a b = (a + b) mod 2 ^ 64"

datatype log_command = CmdPut bytes bytes | CmdDelete bytes

fun cmd_subject :: "log_command \<Rightarrow> bytes" where
  "cmd_subject (CmdPut subject _) = subject"
| "cmd_subject (CmdDelete subject) = subject"

record log_entry =
  le_term :: nat
  le_index :: nat
  le_command :: log_command

datatype raft_role = Follower | Candidate | Leader

record raft_peer =
  rp_node_id :: node_id
  rp_current_term :: nat
  rp_voted_for :: "node_id option"
  rp_role :: raft_role
  rp_log :: "log_entry list"
  rp_commit_index :: nat
  rp_last_applied :: nat
  rp_next_index :: "node_id \<rightharpoonup> nat"
  rp_match_index :: "node_id \<rightharpoonup> nat"

definition raft_peer_new :: "node_id \<Rightarrow> raft_peer" where
  "raft_peer_new n = \<lparr>rp_node_id = n, rp_current_term = 0, rp_voted_for = None, rp_role = Follower,
     rp_log = [], rp_commit_index = 0, rp_last_applied = 0, rp_next_index = Map.empty, rp_match_index = Map.empty\<rparr>"

definition last_log_index :: "raft_peer \<Rightarrow> nat" where
  "last_log_index p = (if rp_log p = [] then 0 else le_index (last (rp_log p)))"

definition last_log_term :: "raft_peer \<Rightarrow> nat" where
  "last_log_term p = (if rp_log p = [] then 0 else le_term (last (rp_log p)))"

definition entry_at :: "raft_peer \<Rightarrow> nat \<Rightarrow> log_entry option" where
  "entry_at p i = (if i = 0 then None else if i - 1 < length (rp_log p) then Some (rp_log p ! (i - 1)) else None)"

definition term_at :: "raft_peer \<Rightarrow> nat \<Rightarrow> nat option" where
  "term_at p i = (if i = 0 then Some 0
     else if i - 1 < length (rp_log p) then Some (le_term (rp_log p ! (i - 1))) else None)"

definition log_at_least_as_up_to_date :: "raft_peer \<Rightarrow> nat \<Rightarrow> nat \<Rightarrow> bool" where
  "log_at_least_as_up_to_date p cand_last_term cand_last_index =
     (if cand_last_term \<noteq> last_log_term p then last_log_term p \<le> cand_last_term
      else last_log_index p \<le> cand_last_index)"

definition become_follower :: "raft_peer \<Rightarrow> nat \<Rightarrow> raft_peer" where
  "become_follower p t = p\<lparr>rp_current_term := t, rp_role := Follower, rp_voted_for := None,
     rp_next_index := Map.empty, rp_match_index := Map.empty\<rparr>"

definition become_leader :: "raft_peer \<Rightarrow> node_id list \<Rightarrow> raft_peer" where
  "become_leader p voters =
     (let next = add64 (last_log_index p) 1;
          ni = fold (\<lambda>v m. m(v \<mapsto> next)) voters Map.empty;
          mi = fold (\<lambda>v m. m(v \<mapsto> 0)) voters Map.empty
      in p\<lparr>rp_role := Leader,
           rp_match_index := mi(rp_node_id p \<mapsto> last_log_index p),
           rp_next_index := ni(rp_node_id p \<mapsto> add64 (last_log_index p) 1)\<rparr>)"

section \<open>Durable peer stores\<close>

record hard_state =
  hs_current_term :: nat
  hs_voted_for :: "node_id option"
  hs_commit_index :: nat
  hs_last_applied :: nat

definition hard_state_default :: hard_state where
  "hard_state_default = \<lparr>hs_current_term = 0, hs_voted_for = None, hs_commit_index = 0, hs_last_applied = 0\<rparr>"

record membership_state =
  ms_voters :: "node_id list"
  ms_placement_epoch :: nat
  ms_joint :: bool
  ms_outgoing :: "node_id list"
  ms_incoming :: "node_id list"

record snapshot_meta =
  sm_last_included_index :: nat
  sm_last_included_term :: nat

text \<open>The documents of one store as its readers see them: a missing hard state reads as the
  default, a snapshot is present when its metadata and blob validate.\<close>

record raft_peer_store =
  st_node :: node_id
  st_hard_state :: hard_state
  st_membership :: "membership_state option"
  st_log :: "log_entry list"
  st_snapshot :: "snapshot_meta option"

definition raft_peer_store_open :: "node_id \<Rightarrow> raft_peer_store" where
  "raft_peer_store_open n = \<lparr>st_node = n, st_hard_state = hard_state_default, st_membership = None,
     st_log = [], st_snapshot = None\<rparr>"

definition SNAPSHOT_BASE :: bytes where
  "SNAPSHOT_BASE = map (\<lambda>c. of_nat (of_char c)) ''__residiuum_snapshot_base__''"

fun drop_gap :: "nat \<Rightarrow> log_entry list \<Rightarrow> log_entry list" where
  "drop_gap base [] = []"
| "drop_gap base (e # es) =
     (if le_index e = add64 base 1 then e # es
      else if add64 base 1 < le_index e then []
      else drop_gap base es)"

definition load_peer :: "raft_peer_store \<Rightarrow> raft_peer" where
  "load_peer st =
     (let hs = st_hard_state st;
          log = (case st_snapshot st of
            None \<Rightarrow> st_log st
          | Some s \<Rightarrow>
              let base = sm_last_included_index s;
                  l = drop_gap base (filter (\<lambda>e. base < le_index e) (st_log st))
              in if l = [] \<and> 0 < base
                 then [\<lparr>le_term = sm_last_included_term s, le_index = base, le_command = CmdDelete SNAPSHOT_BASE\<rparr>]
                 else l);
          max_log = (if log \<noteq> [] then le_index (last log)
            else case st_snapshot st of Some s \<Rightarrow> sm_last_included_index s | None \<Rightarrow> 0);
          commit = min (hs_commit_index hs) max_log
      in \<lparr>rp_node_id = st_node st, rp_current_term = hs_current_term hs, rp_voted_for = hs_voted_for hs,
          rp_role = Follower, rp_log = log, rp_commit_index = commit,
          rp_last_applied = min (hs_last_applied hs) commit,
          rp_next_index = Map.empty, rp_match_index = Map.empty\<rparr>)"

text \<open>One attempt to save a peer: both documents are replaced atomically, the log first. A failure
  leaves the old documents, or the new log beside the old hard state, or both new documents when
  only the final directory flush failed.\<close>

datatype flush_outcome = Flushed | FailedClean | FailedAfterLog | FailedAfterState

definition saved_entries :: "raft_peer_store \<Rightarrow> raft_peer \<Rightarrow> log_entry list" where
  "saved_entries st p = filter (\<lambda>e. case st_snapshot st of
       Some s \<Rightarrow> sm_last_included_index s < le_index e
     | None \<Rightarrow> cmd_subject (le_command e) \<noteq> SNAPSHOT_BASE) (rp_log p)"

definition saved_hard_state :: "raft_peer \<Rightarrow> hard_state" where
  "saved_hard_state p = \<lparr>hs_current_term = rp_current_term p, hs_voted_for = rp_voted_for p,
     hs_commit_index = rp_commit_index p, hs_last_applied = rp_last_applied p\<rparr>"

fun save_peer :: "flush_outcome \<Rightarrow> raft_peer_store \<Rightarrow> raft_peer \<Rightarrow> bool \<times> raft_peer_store" where
  "save_peer Flushed st p =
     (True, st\<lparr>st_log := saved_entries st p, st_hard_state := saved_hard_state p\<rparr>)"
| "save_peer FailedClean st p = (False, st)"
| "save_peer FailedAfterLog st p = (False, st\<lparr>st_log := saved_entries st p\<rparr>)"
| "save_peer FailedAfterState st p =
     (False, st\<lparr>st_log := saved_entries st p, st_hard_state := saved_hard_state p\<rparr>)"

datatype consensus_evidence_class = EvCommitted | EvPrepared | EvConflicting | EvUnknownCommit

definition evidence_class :: "raft_peer_store \<Rightarrow> nat \<Rightarrow> consensus_evidence_class" where
  "evidence_class st index =
     (let max_idx = (if st_log st \<noteq> [] then le_index (last (st_log st))
            else case st_snapshot st of Some s \<Rightarrow> sm_last_included_index s | None \<Rightarrow> 0)
      in if index = 0 then EvCommitted
         else if max_idx < index then EvUnknownCommit
         else if index \<le> min (hs_commit_index (st_hard_state st)) max_idx then EvCommitted
         else if list_ex (\<lambda>e. le_index e = index) (st_log st)
           \<or> (case st_snapshot st of Some s \<Rightarrow> index \<le> sm_last_included_index s | None \<Rightarrow> False)
         then EvPrepared
         else EvUnknownCommit)"

section \<open>The group\<close>

record partition_raft =
  pr_partition :: nat
  pr_voters :: "node_id list"
  pr_placement_epoch :: nat
  pr_joint :: bool
  pr_outgoing :: "node_id list"
  pr_incoming :: "node_id list"
  pr_peers :: "node_id \<rightharpoonup> raft_peer"
  pr_stores :: "node_id \<rightharpoonup> raft_peer_store"
  pr_flushes :: "flush_outcome list"

definition set_peer :: "partition_raft \<Rightarrow> node_id \<Rightarrow> raft_peer \<Rightarrow> partition_raft" where
  "set_peer g n p = g\<lparr>pr_peers := (pr_peers g)(n \<mapsto> p)\<rparr>"

definition partition_raft_new :: "nat \<Rightarrow> node_id list \<Rightarrow> nat \<Rightarrow> partition_raft" where
  "partition_raft_new part voters epoch = \<lparr>pr_partition = part, pr_voters = voters,
     pr_placement_epoch = epoch, pr_joint = False, pr_outgoing = [], pr_incoming = [],
     pr_peers = fold (\<lambda>v m. m(v \<mapsto> raft_peer_new v)) voters Map.empty, pr_stores = Map.empty, pr_flushes = []\<rparr>"

definition attach_store :: "partition_raft \<Rightarrow> raft_peer_store \<Rightarrow> partition_raft" where
  "attach_store g st = g\<lparr>pr_stores := (pr_stores g)(st_node st \<mapsto> st)\<rparr>"

definition restore_peer_from_store :: "partition_raft \<Rightarrow> node_id \<Rightarrow> partition_raft" where
  "restore_peer_from_store g node =
     (case pr_stores g node of
        None \<Rightarrow> g
      | Some st \<Rightarrow>
          let g1 = set_peer g node (load_peer st) in
          (case st_membership st of
             None \<Rightarrow> g1
           | Some m \<Rightarrow> g1\<lparr>pr_voters := ms_voters m, pr_placement_epoch := ms_placement_epoch m,
               pr_joint := ms_joint m, pr_outgoing := ms_outgoing m, pr_incoming := ms_incoming m\<rparr>))"

definition membership_of :: "partition_raft \<Rightarrow> membership_state" where
  "membership_of g = \<lparr>ms_voters = pr_voters g, ms_placement_epoch = pr_placement_epoch g,
     ms_joint = pr_joint g, ms_outgoing = pr_outgoing g, ms_incoming = pr_incoming g\<rparr>"

definition persist_membership :: "partition_raft \<Rightarrow> partition_raft" where
  "persist_membership g = g\<lparr>pr_stores := (\<lambda>n. map_option (\<lambda>st. st\<lparr>st_membership := Some (membership_of g)\<rparr>) (pr_stores g n))\<rparr>"

definition flush_peer :: "partition_raft \<Rightarrow> node_id \<Rightarrow> bool \<times> partition_raft" where
  "flush_peer g node =
     (case pr_stores g node of
        None \<Rightarrow> (True, g)
      | Some st \<Rightarrow>
          (case pr_peers g node of
             None \<Rightarrow> (True, g)
           | Some p \<Rightarrow>
               let outcome = (case pr_flushes g of [] \<Rightarrow> Flushed | o' # _ \<Rightarrow> o');
                   (ok, st1) = save_peer outcome st p
               in (ok, g\<lparr>pr_stores := (pr_stores g)(node \<mapsto> st1), pr_flushes := tl (pr_flushes g)\<rparr>)))"

definition ensure_peer :: "partition_raft \<Rightarrow> node_id \<Rightarrow> partition_raft" where
  "ensure_peer g node = (if pr_peers g node = None then set_peer g node (raft_peer_new node) else g)"

definition step_down_non_voters :: "partition_raft \<Rightarrow> partition_raft" where
  "step_down_non_voters g = g\<lparr>pr_peers := (\<lambda>n. map_option (\<lambda>p.
     if rp_role p = Leader \<and> n \<notin> set (pr_voters g) then p\<lparr>rp_role := Follower\<rparr> else p) (pr_peers g n))\<rparr>"

definition set_voters :: "partition_raft \<Rightarrow> node_id list \<Rightarrow> nat \<Rightarrow> partition_raft" where
  "set_voters g voters epoch =
     (let g1 = fold (\<lambda>v g. ensure_peer g v) voters g;
          g2 = g1\<lparr>pr_voters := voters, pr_placement_epoch := epoch, pr_joint := False,
                  pr_outgoing := [], pr_incoming := []\<rparr>
      in persist_membership (step_down_non_voters g2))"

definition set_joint_voters :: "partition_raft \<Rightarrow> node_id list \<Rightarrow> node_id list \<Rightarrow> nat \<Rightarrow> partition_raft" where
  "set_joint_voters g old new epoch =
     (let union = sort (fold (\<lambda>n u. if n \<in> set u then u else u @ [n]) new old);
          g1 = fold (\<lambda>v g. ensure_peer g v) union g;
          g2 = g1\<lparr>pr_voters := union, pr_placement_epoch := epoch, pr_joint := True,
                  pr_outgoing := old, pr_incoming := new\<rparr>
      in persist_membership (step_down_non_voters g2))"

definition stream_log_to :: "partition_raft \<Rightarrow> node_id \<Rightarrow> node_id \<Rightarrow> nat \<times> partition_raft" where
  "stream_log_to g leader dest =
     (let g0 = ensure_peer g dest in
      case pr_peers g0 leader of
        None \<Rightarrow> (0, g0)
      | Some lp \<Rightarrow>
          let g1 = (case pr_peers g0 dest of
                None \<Rightarrow> g0
              | Some dp \<Rightarrow> set_peer g0 dest (dp\<lparr>rp_log := rp_log lp, rp_current_term := rp_current_term lp,
                  rp_commit_index := rp_commit_index lp, rp_role := Follower, rp_voted_for := None,
                  rp_last_applied := 0\<rparr>));
              g2 = (case pr_peers g1 leader of
                None \<Rightarrow> g1
              | Some lp1 \<Rightarrow>
                  if rp_role lp = Leader \<and> rp_role lp1 = Leader
                  then set_peer g1 leader (lp1\<lparr>
                    rp_match_index := (rp_match_index lp1)(dest \<mapsto> last_log_index lp),
                    rp_next_index := (rp_next_index lp1)(dest \<mapsto> add64 (last_log_index lp) 1)\<rparr>)
                  else g1)
          in (length (rp_log lp), g2))"

definition raft_quorum :: "partition_raft \<Rightarrow> nat" where
  "raft_quorum g = length (pr_voters g) mod 2 ^ 32 div 2 + 1"

fun current_leader_from :: "partition_raft \<Rightarrow> node_id list \<Rightarrow> (node_id \<times> nat) option \<Rightarrow> (node_id \<times> nat) option" where
  "current_leader_from g [] best = best"
| "current_leader_from g (v # vs) best =
     (case pr_peers g v of
        None \<Rightarrow> None
      | Some p \<Rightarrow>
          current_leader_from g vs
            (if rp_role p = Leader then
               (case best of
                  None \<Rightarrow> Some (v, rp_current_term p)
                | Some (b, t) \<Rightarrow> if t < rp_current_term p then Some (v, rp_current_term p) else Some (b, t))
             else best))"

definition current_leader :: "partition_raft \<Rightarrow> (node_id \<times> nat) option" where
  "current_leader g = current_leader_from g (pr_voters g) None"

section \<open>Elections\<close>

record vote_result =
  vr_term :: nat
  vr_vote_granted :: bool

definition request_vote :: "partition_raft \<Rightarrow> node_id \<Rightarrow> node_id \<Rightarrow> nat \<Rightarrow> nat \<Rightarrow> nat \<Rightarrow> vote_result \<times> partition_raft" where
  "request_vote g voter candidate candidate_term last_log_index' last_log_term' =
     (case pr_peers g voter of
        None \<Rightarrow> (\<lparr>vr_term = 0, vr_vote_granted = False\<rparr>, g)
      | Some peer \<Rightarrow>
          if candidate_term < rp_current_term peer
          then (\<lparr>vr_term = rp_current_term peer, vr_vote_granted = False\<rparr>, g)
          else
            let p1 = (if rp_current_term peer < candidate_term then become_follower peer candidate_term else peer);
                up_to_date = log_at_least_as_up_to_date p1 last_log_term' last_log_index';
                can_vote = (rp_voted_for p1 = None \<or> rp_voted_for p1 = Some candidate)
            in if can_vote \<and> up_to_date then
                 let p2 = p1\<lparr>rp_voted_for := Some candidate, rp_current_term := candidate_term\<rparr>;
                     (ok, g1) = flush_peer (set_peer g voter p2) voter
                 in if \<not> ok then
                      (\<lparr>vr_term = rp_current_term p2, vr_vote_granted = False\<rparr>,
                       (case pr_peers g1 voter of
                          None \<Rightarrow> g1
                        | Some p \<Rightarrow> set_peer g1 voter (p\<lparr>rp_voted_for := rp_voted_for p1, rp_current_term := rp_current_term p1\<rparr>)))
                    else (\<lparr>vr_term = rp_current_term p2, vr_vote_granted = True\<rparr>, g1)
               else (\<lparr>vr_term = rp_current_term p1, vr_vote_granted = False\<rparr>,
                     snd (flush_peer (set_peer g voter p1) voter)))"

definition handle_request_vote :: "partition_raft \<Rightarrow> node_id \<Rightarrow> node_id \<Rightarrow> nat \<Rightarrow> nat \<Rightarrow> nat \<Rightarrow> vote_result \<times> partition_raft" where
  "handle_request_vote g voter candidate candidate_term li lt = request_vote g voter candidate candidate_term li lt"

datatype elect_error =
    NotAVoter | CandidateOffline | NoOnlineVoters | NoQuorum nat nat | HigherTerm nat | ElectPersistFailed
  | ElectPanic

fun solicit_votes :: "partition_raft \<Rightarrow> node_id list \<Rightarrow> node_id \<Rightarrow> node_id list \<Rightarrow> nat \<Rightarrow> nat \<Rightarrow> nat \<Rightarrow> nat \<Rightarrow>
    nat \<times> nat option \<times> partition_raft" where
  "solicit_votes g [] candidate online t li lt votes = (votes, None, g)"
| "solicit_votes g (voter # vs) candidate online t li lt votes =
     (if voter = candidate \<or> voter \<notin> set online then solicit_votes g vs candidate online t li lt votes
      else let (res, g1) = request_vote g voter candidate t li lt in
        if t < vr_term res then (votes, Some (vr_term res), g1)
        else solicit_votes g1 vs candidate online t li lt (if vr_vote_granted res then votes + 1 else votes))"

fun step_down_rivals :: "node_id \<Rightarrow> nat \<Rightarrow> node_id list \<Rightarrow> partition_raft \<Rightarrow> partition_raft" where
  "step_down_rivals candidate t [] g = g"
| "step_down_rivals candidate t (v # vs) g =
     step_down_rivals candidate t vs
       (if v = candidate then g
        else case pr_peers g v of
          None \<Rightarrow> g
        | Some p \<Rightarrow>
            if (rp_role p = Leader \<or> rp_role p = Candidate) \<and> rp_current_term p \<le> t
            then set_peer g v (p\<lparr>rp_role := Follower\<rparr>) else g)"

definition set_role :: "partition_raft \<Rightarrow> node_id \<Rightarrow> raft_role \<Rightarrow> partition_raft" where
  "set_role g n r = (case pr_peers g n of None \<Rightarrow> g | Some p \<Rightarrow> set_peer g n (p\<lparr>rp_role := r\<rparr>))"

text \<open>The end of an election, once the votes are counted.\<close>

definition elect_conclude :: "partition_raft \<Rightarrow> node_id \<Rightarrow> nat \<Rightarrow> nat \<Rightarrow> nat option \<Rightarrow>
    (elect_error + node_id \<times> nat) \<times> partition_raft" where
  "elect_conclude g candidate new_term votes saw_higher =
     (case saw_higher of
        Some higher \<Rightarrow>
          (Inl (HigherTerm higher),
           (case pr_peers g candidate of None \<Rightarrow> g | Some p \<Rightarrow> set_peer g candidate (become_follower p higher)))
      | None \<Rightarrow>
          if raft_quorum g \<le> votes then
            let g1 = step_down_rivals candidate new_term (pr_voters g) g;
                g2 = (case pr_peers g1 candidate of
                    None \<Rightarrow> g1
                  | Some p \<Rightarrow> set_peer g1 candidate
                      (become_leader (p\<lparr>rp_current_term := new_term\<rparr>) (pr_voters g1)))
            in (Inr (candidate, new_term), snd (flush_peer g2 candidate))
          else
            let g1 = set_role g candidate Follower
            in (Inl (NoQuorum votes (raft_quorum g)), snd (flush_peer g1 candidate)))"

definition elect :: "partition_raft \<Rightarrow> node_id \<Rightarrow> node_id list \<Rightarrow> (elect_error + node_id \<times> nat) \<times> partition_raft" where
  "elect g candidate online =
     (if candidate \<notin> set (pr_voters g) then (Inl NotAVoter, g)
      else if candidate \<notin> set online then (Inl CandidateOffline, g)
      else case pr_peers g candidate of
        None \<Rightarrow> (Inl NotAVoter, g)
      | Some peer \<Rightarrow>
          let new_term = add64 (rp_current_term peer) 1;
              p1 = peer\<lparr>rp_current_term := new_term, rp_role := Candidate, rp_voted_for := Some candidate\<rparr>;
              (ok, g1) = flush_peer (set_peer g candidate p1) candidate
          in if \<not> ok then (Inl ElectPersistFailed, set_role g1 candidate Follower)
          else
            let (votes, saw_higher, g2) =
                  solicit_votes g1 (pr_voters g1) candidate online new_term (last_log_index p1) (last_log_term p1) 1
            in elect_conclude g2 candidate new_term votes saw_higher)"

text \<open>The order in which candidates are tried: longest log first, then the preferred node, then the
  smallest identifier. The sort of the code is stable.\<close>

definition cand_before :: "partition_raft \<Rightarrow> node_id option \<Rightarrow> node_id \<Rightarrow> node_id \<Rightarrow> bool" where
  "cand_before g preferred a b =
     (case (pr_peers g a, pr_peers g b) of
        (Some pa, Some pb) \<Rightarrow>
          if last_log_term pa \<noteq> last_log_term pb then last_log_term pb < last_log_term pa
          else if last_log_index pa \<noteq> last_log_index pb then last_log_index pb < last_log_index pa
          else if preferred = Some a \<and> preferred \<noteq> Some b then True
          else if preferred = Some b \<and> preferred \<noteq> Some a then False
          else a < b
      | _ \<Rightarrow> False)"

fun insert_cand :: "partition_raft \<Rightarrow> node_id option \<Rightarrow> node_id \<Rightarrow> node_id list \<Rightarrow> node_id list" where
  "insert_cand g preferred x [] = [x]"
| "insert_cand g preferred x (y # ys) =
     (if cand_before g preferred y x then y # insert_cand g preferred x ys else x # y # ys)"

definition sort_candidates :: "partition_raft \<Rightarrow> node_id option \<Rightarrow> node_id list \<Rightarrow> node_id list" where
  "sort_candidates g preferred xs = foldr (insert_cand g preferred) xs []"

fun try_candidates :: "partition_raft \<Rightarrow> node_id list \<Rightarrow> node_id list \<Rightarrow> elect_error \<Rightarrow>
    (elect_error + node_id \<times> nat) \<times> partition_raft" where
  "try_candidates g [] online last_err = (Inl last_err, g)"
| "try_candidates g (cand # cs) online last_err =
     (case elect g cand online of
        (Inr lt, g1) \<Rightarrow> (Inr lt, g1)
      | (Inl e, g1) \<Rightarrow> try_candidates g1 cs online e)"

definition elect_among :: "partition_raft \<Rightarrow> node_id list \<Rightarrow> node_id option \<Rightarrow>
    (elect_error + node_id \<times> nat) \<times> partition_raft" where
  "elect_among g online preferred =
     (if online = [] then (Inl NoOnlineVoters, g)
      else let candidates = filter (\<lambda>n. n \<in> set (pr_voters g)) online in
        if candidates = [] then (Inl NoOnlineVoters, g)
        else if 1 < length candidates \<and> (\<exists>c \<in> set candidates. pr_peers g c = None) then (Inl ElectPanic, g)
        else try_candidates g (sort_candidates g preferred candidates) online (NoQuorum 0 (raft_quorum g)))"

definition ensure_leader_preferring :: "partition_raft \<Rightarrow> node_id list \<Rightarrow> node_id option \<Rightarrow>
    (elect_error + node_id \<times> nat) \<times> partition_raft" where
  "ensure_leader_preferring g online preferred =
     (case current_leader g of
        None \<Rightarrow> elect_among g online preferred
      | Some (leader, t) \<Rightarrow>
          if leader \<in> set online then (Inr (leader, t), g)
          else elect_among (set_role g leader Follower) online preferred)"

definition ensure_leader :: "partition_raft \<Rightarrow> node_id list \<Rightarrow> (elect_error + node_id \<times> nat) \<times> partition_raft" where
  "ensure_leader g online = ensure_leader_preferring g online None"

section \<open>Replication\<close>

record append_result =
  ar_term :: nat
  ar_success :: bool
  ar_conflict_index :: "nat option"

text \<open>The loop over the received entries, with the conflict index of a gap.\<close>

fun append_loop :: "raft_peer \<Rightarrow> log_entry list \<Rightarrow> raft_peer \<times> nat option" where
  "append_loop p [] = (p, None)"
| "append_loop p (e # es) =
     (case entry_at p (le_index e) of
        Some existing \<Rightarrow>
          if le_term existing \<noteq> le_term e
          then append_loop (p\<lparr>rp_log := take (le_index e - 1) (rp_log p) @ [e]\<rparr>) es
          else append_loop p es
      | None \<Rightarrow>
          if le_index e \<noteq> add64 (last_log_index p) 1 then (p, Some (add64 (last_log_index p) 1))
          else append_loop (p\<lparr>rp_log := rp_log p @ [e]\<rparr>) es)"

text \<open>The part of an append after the log matched: entries, commit index, flush.\<close>

definition append_matched :: "partition_raft \<Rightarrow> node_id \<Rightarrow> raft_peer \<Rightarrow> log_entry list \<Rightarrow> nat \<Rightarrow>
    append_result \<times> partition_raft" where
  "append_matched g follower p1 entries leader_commit =
     (case append_loop p1 entries of
        (p2, Some c) \<Rightarrow>
          (\<lparr>ar_term = rp_current_term p2, ar_success = False, ar_conflict_index = Some c\<rparr>, set_peer g follower p2)
      | (p2, None) \<Rightarrow>
          let p3 = (if rp_commit_index p2 < leader_commit
                    then p2\<lparr>rp_commit_index := min leader_commit (last_log_index p2)\<rparr> else p2);
              (ok, g1) = flush_peer (set_peer g follower p3) follower
          in (\<lparr>ar_term = rp_current_term p3, ar_success = ok, ar_conflict_index = None\<rparr>, g1))"

definition append_entries :: "partition_raft \<Rightarrow> node_id \<Rightarrow> node_id \<Rightarrow> nat \<Rightarrow> nat \<Rightarrow> nat \<Rightarrow> log_entry list \<Rightarrow> nat \<Rightarrow>
    append_result \<times> partition_raft" where
  "append_entries g follower leader_id leader_term prev_log_index prev_log_term entries leader_commit =
     (case pr_peers g follower of
        None \<Rightarrow> (\<lparr>ar_term = 0, ar_success = False, ar_conflict_index = None\<rparr>, g)
      | Some peer \<Rightarrow>
          if leader_term < rp_current_term peer
          then (\<lparr>ar_term = rp_current_term peer, ar_success = False, ar_conflict_index = None\<rparr>, g)
          else
            let p1 = (if (rp_current_term peer < leader_term \<or> rp_role peer \<noteq> Follower
                          \<or> rp_voted_for peer \<noteq> Some leader_id) \<and> rp_current_term peer \<le> leader_term
                      then peer\<lparr>rp_current_term := leader_term, rp_role := Follower, rp_voted_for := Some leader_id\<rparr>
                      else peer)
            in if 0 < prev_log_index \<and> term_at p1 prev_log_index = None
               then (\<lparr>ar_term = rp_current_term p1, ar_success = False,
                      ar_conflict_index = Some (max (min (2 ^ 64 - 1) (last_log_index p1 + 1)) 1)\<rparr>, set_peer g follower p1)
               else if 0 < prev_log_index \<and> term_at p1 prev_log_index \<noteq> Some prev_log_term
               then (\<lparr>ar_term = rp_current_term p1, ar_success = False, ar_conflict_index = Some prev_log_index\<rparr>,
                     set_peer g follower p1)
               else append_matched g follower p1 entries leader_commit)"

datatype propose_error = NotLeader | SteppedDown nat | ProposePersistFailed

definition REPLICATE_ROUNDS :: nat where
  "REPLICATE_ROUNDS = 64"

text \<open>The back-off of the leader's next index after a rejected append; \<open>None\<close> when no progress is
  possible.\<close>

definition back_off :: "raft_peer \<Rightarrow> node_id \<Rightarrow> nat option \<Rightarrow> bool \<Rightarrow> bool \<times> raft_peer" where
  "back_off p follower conflict stuck =
     (let next = (case rp_next_index p follower of None \<Rightarrow> 1 | Some n \<Rightarrow> n);
          hint = (case conflict of None \<Rightarrow> next - 1 | Some c \<Rightarrow> c);
          n1 = min (max hint 1) next
      in if 1 < n1 then (True, p\<lparr>rp_next_index := (rp_next_index p)(follower \<mapsto> n1 - 1)\<rparr>)
         else if stuck then (False, p\<lparr>rp_next_index := (rp_next_index p)(follower \<mapsto> n1)\<rparr>)
         else (True, p\<lparr>rp_next_index := (rp_next_index p)(follower \<mapsto> 1)\<rparr>))"

text \<open>One round of the loop; \<open>True\<close> when the loop ends.\<close>

definition replicate_once :: "partition_raft \<Rightarrow> node_id \<Rightarrow> node_id \<Rightarrow> (propose_error + bool) \<times> partition_raft" where
  "replicate_once g leader follower =
     (case pr_peers g leader of
        None \<Rightarrow> (Inl NotLeader, g)
      | Some peer \<Rightarrow>
          if rp_role peer \<noteq> Leader then (Inl NotLeader, g)
          else
            let next = (case rp_next_index peer follower of None \<Rightarrow> 1 | Some n \<Rightarrow> n);
                prev_idx = next - 1;
                prev_term = (case term_at peer prev_idx of None \<Rightarrow> 0 | Some t \<Rightarrow> t);
                entries = filter (\<lambda>e. next \<le> le_index e) (rp_log peer);
                t = rp_current_term peer;
                (res, g1) = append_entries g follower leader t prev_idx prev_term entries (rp_commit_index peer)
            in if t < ar_term res then
                 (Inl (SteppedDown (ar_term res)),
                  (case pr_peers g1 leader of None \<Rightarrow> g1 | Some p \<Rightarrow> set_peer g1 leader (become_follower p (ar_term res))))
               else if ar_success res then
                 let match_idx = (if entries = [] then prev_idx else le_index (last entries))
                 in (Inr True, (case pr_peers g1 leader of
                      None \<Rightarrow> g1
                    | Some p \<Rightarrow> set_peer g1 leader (p\<lparr>
                        rp_match_index := (rp_match_index p)(follower \<mapsto> match_idx),
                        rp_next_index := (rp_next_index p)(follower \<mapsto> add64 match_idx 1)\<rparr>)))
               else (case pr_peers g1 leader of
                 None \<Rightarrow> (Inr False, g1)
               | Some p \<Rightarrow>
                   let (more, p1) = back_off p follower (ar_conflict_index res) (entries = [] \<and> prev_idx = 0)
                   in (Inr (\<not> more), set_peer g1 leader p1)))"

fun replicate_rounds :: "nat \<Rightarrow> partition_raft \<Rightarrow> node_id \<Rightarrow> node_id \<Rightarrow> (propose_error + unit) \<times> partition_raft" where
  "replicate_rounds 0 g leader follower = (Inr (), g)"
| "replicate_rounds (Suc rounds) g leader follower =
     (case replicate_once g leader follower of
        (Inl e, g1) \<Rightarrow> (Inl e, g1)
      | (Inr True, g1) \<Rightarrow> (Inr (), g1)
      | (Inr False, g1) \<Rightarrow> replicate_rounds rounds g1 leader follower)"

definition replicate_to :: "partition_raft \<Rightarrow> node_id \<Rightarrow> node_id \<Rightarrow> (propose_error + unit) \<times> partition_raft" where
  "replicate_to g leader follower = replicate_rounds REPLICATE_ROUNDS g leader follower"

definition match_of :: "raft_peer \<Rightarrow> node_id \<Rightarrow> nat" where
  "match_of p v = (case rp_match_index p v of None \<Rightarrow> 0 | Some m \<Rightarrow> m)"

definition commit_candidate :: "partition_raft \<Rightarrow> raft_peer \<Rightarrow> nat \<Rightarrow> bool" where
  "commit_candidate g p n \<longleftrightarrow> term_at p n = Some (rp_current_term p)
     \<and> raft_quorum g \<le> length (filter (\<lambda>v. n \<le> match_of p v) (pr_voters g))"

definition advance_commit :: "partition_raft \<Rightarrow> node_id \<Rightarrow> partition_raft" where
  "advance_commit g leader =
     (case pr_peers g leader of
        None \<Rightarrow> g
      | Some peer \<Rightarrow>
          if rp_role peer \<noteq> Leader then g
          else (case find (commit_candidate g peer) (rev [add64 (rp_commit_index peer) 1..<Suc (last_log_index peer)]) of
            None \<Rightarrow> g
          | Some n \<Rightarrow>
              if rp_commit_index peer < n
              then snd (flush_peer (set_peer g leader (peer\<lparr>rp_commit_index := n\<rparr>)) leader)
              else g))"

record propose_result =
  po_entry :: log_entry
  po_term :: nat
  po_position :: nat
  po_replica_acks :: nat
  po_acked_by :: "node_id list"
  po_committed :: bool
  po_commit_index :: nat

fun replicate_all :: "partition_raft \<Rightarrow> node_id \<Rightarrow> nat \<Rightarrow> node_id list \<Rightarrow> node_id list \<Rightarrow>
    (propose_error + node_id list) \<times> partition_raft" where
  "replicate_all g leader new_index [] acked = (Inr acked, g)"
| "replicate_all g leader new_index (f # fs) acked =
     (case replicate_to g leader f of
        (Inl e, g1) \<Rightarrow> (Inl e, g1)
      | (Inr _, g1) \<Rightarrow>
          let match_idx = (case pr_peers g1 leader of None \<Rightarrow> 0 | Some p \<Rightarrow> match_of p f)
          in replicate_all g1 leader new_index fs (if new_index \<le> match_idx then acked @ [f] else acked))"

fun push_commit :: "partition_raft \<Rightarrow> node_id \<Rightarrow> node_id list \<Rightarrow> node_id list \<Rightarrow> partition_raft" where
  "push_commit g leader [] online = g"
| "push_commit g leader (f # fs) online =
     push_commit (if f = leader \<or> f \<notin> set online then g else snd (replicate_to g leader f)) leader fs online"

definition commit_index_of :: "partition_raft \<Rightarrow> node_id \<Rightarrow> nat" where
  "commit_index_of g n = (case pr_peers g n of None \<Rightarrow> 0 | Some p \<Rightarrow> rp_commit_index p)"

text \<open>The part of a proposal after the leader's own entry is durable.\<close>

definition propose_replicate :: "partition_raft \<Rightarrow> node_id \<Rightarrow> log_entry \<Rightarrow> node_id list \<Rightarrow>
    (propose_error + propose_result) \<times> partition_raft" where
  "propose_replicate g leader entry online =
     (case replicate_all g leader (le_index entry)
         (filter (\<lambda>v. v \<noteq> leader \<and> v \<in> set online) (pr_voters g)) [leader] of
        (Inl e, g1) \<Rightarrow> (Inl e, g1)
      | (Inr acked, g1) \<Rightarrow>
          let g2 = advance_commit g1 leader;
              commit = commit_index_of g2 leader;
              g3 = (if le_index entry \<le> commit then push_commit g2 leader (pr_voters g2) online else g2)
          in (Inr \<lparr>po_entry = entry, po_term = le_term entry, po_position = le_index entry,
                   po_replica_acks = length acked, po_acked_by = acked,
                   po_committed = (le_index entry \<le> commit), po_commit_index = commit\<rparr>, g3))"

definition propose :: "partition_raft \<Rightarrow> node_id \<Rightarrow> log_command \<Rightarrow> node_id list \<Rightarrow>
    (propose_error + propose_result) \<times> partition_raft" where
  "propose g leader command online =
     (case pr_peers g leader of
        None \<Rightarrow> (Inl NotLeader, g)
      | Some peer \<Rightarrow>
          if rp_role peer \<noteq> Leader then (Inl NotLeader, g)
          else
            let new_index = add64 (last_log_index peer) 1;
                entry = \<lparr>le_term = rp_current_term peer, le_index = new_index, le_command = command\<rparr>;
                p1 = peer\<lparr>rp_log := rp_log peer @ [entry],
                  rp_match_index := (rp_match_index peer)(leader \<mapsto> new_index),
                  rp_next_index := (rp_next_index peer)(leader \<mapsto> add64 new_index 1)\<rparr>;
                (ok, g1) = flush_peer (set_peer g leader p1) leader
            in if \<not> ok then
                 (Inl ProposePersistFailed,
                  (case pr_peers g1 leader of
                     None \<Rightarrow> g1
                   | Some p \<Rightarrow>
                       let p2 = (if last_log_index p = new_index then p\<lparr>rp_log := butlast (rp_log p)\<rparr> else p)
                       in set_peer g1 leader (p2\<lparr>
                            rp_match_index := (rp_match_index p2)(leader \<mapsto> last_log_index p2),
                            rp_next_index := (rp_next_index p2)(leader \<mapsto> add64 (last_log_index p2) 1)\<rparr>)))
               else propose_replicate g1 leader entry online)"

section \<open>Applying\<close>

function apply_loop :: "raft_peer \<Rightarrow> log_entry list \<Rightarrow> log_entry list \<times> raft_peer" where
  "apply_loop p out =
     (if rp_last_applied p < rp_commit_index p then
        (case entry_at p (rp_last_applied p + 1) of
           None \<Rightarrow> (out, p)
         | Some e \<Rightarrow> apply_loop (p\<lparr>rp_last_applied := rp_last_applied p + 1\<rparr>)
             (if cmd_subject (le_command e) \<noteq> SNAPSHOT_BASE then out @ [e] else out))
      else (out, p))"
  by pat_completeness auto
termination apply_loop
  by (relation "measure (\<lambda>(p, _). rp_commit_index p - rp_last_applied p)") auto

definition take_apply_batch :: "partition_raft \<Rightarrow> node_id \<Rightarrow> log_entry list \<times> partition_raft" where
  "take_apply_batch g node =
     (case pr_peers g node of
        None \<Rightarrow> ([], g)
      | Some peer \<Rightarrow>
          let (out, p) = apply_loop peer [] in (out, snd (flush_peer (set_peer g node p) node)))"

definition sync_follower_commit :: "partition_raft \<Rightarrow> node_id \<Rightarrow> node_id \<Rightarrow> partition_raft" where
  "sync_follower_commit g leader follower =
     (case pr_peers g follower of
        None \<Rightarrow> g
      | Some f \<Rightarrow>
          if rp_commit_index f < commit_index_of g leader
          then set_peer g follower (f\<lparr>rp_commit_index := min (commit_index_of g leader) (last_log_index f)\<rparr>)
          else g)"

record commit_evidence =
  ce_partition :: nat
  ce_term :: nat
  ce_position :: nat
  ce_acked_by :: "node_id list"
  ce_committed :: bool

definition commit_evidence_of :: "partition_raft \<Rightarrow> node_id \<Rightarrow> nat \<Rightarrow> commit_evidence" where
  "commit_evidence_of g leader position =
     \<lparr>ce_partition = pr_partition g,
      ce_term = (case pr_peers g leader of None \<Rightarrow> 0
        | Some p \<Rightarrow> (case term_at p position of None \<Rightarrow> 0 | Some t \<Rightarrow> t)),
      ce_position = position,
      ce_acked_by = (case pr_peers g leader of None \<Rightarrow> []
        | Some p \<Rightarrow> filter (\<lambda>v. position \<le> match_of p v) (pr_voters g)),
      ce_committed = (case pr_peers g leader of None \<Rightarrow> False | Some p \<Rightarrow> position \<le> rp_commit_index p)\<rparr>"

end
