(* ===== verification/Raft_Ledger.thy ===== *)
theory Raft_Ledger
  imports Raft
begin

text \<open>
  The abstract account of replication that the consensus group implements. Every term with a leader
  has one \<^emph>\<open>ledger\<close>, the log of that leader; every log in the group is made of ledgers. A node
  acknowledges a length of a ledger once its log holds that much of it. An entry of its leader's own
  term is chosen when a majority acknowledged it, and the invariant below says that chosen entries are
  in every later ledger. A node has several \<^emph>\<open>views\<close>, its memory and its disk, and all of them
  must keep the promises the node made.
\<close>

section \<open>Quorums\<close>

locale quorum_system =
  fixes Q :: "node_id set \<Rightarrow> bool"
  assumes quorums_meet: "Q A \<Longrightarrow> Q B \<Longrightarrow> \<exists>n. n \<in> A \<and> n \<in> B"
begin

lemma quorum_nonempty: "Q A \<Longrightarrow> \<exists>n. n \<in> A"
  using quorums_meet by blast

end

definition is_quorum :: "node_id list \<Rightarrow> node_id set \<Rightarrow> bool" where
  "is_quorum voters A \<longleftrightarrow> A \<subseteq> set voters \<and> length voters div 2 + 1 \<le> card A"

interpretation majority: quorum_system "is_quorum voters" for voters
proof
  fix A B
  assume "is_quorum voters A" "is_quorum voters B"
  then have s: "A \<subseteq> set voters" "B \<subseteq> set voters" and c: "length voters < card A + card B"
    by (auto simp: is_quorum_def)
  have "card (A \<union> B) \<le> length voters"
    using s card_mono [of "set voters" "A \<union> B"] card_length [of voters] by auto
  moreover have "card (A \<union> B) + card (A \<inter> B) = card A + card B"
    using s by (metis card_Un_Int finite_set finite_subset)
  ultimately have "A \<inter> B \<noteq> {}" using c by auto
  then show "\<exists>n. n \<in> A \<and> n \<in> B" by blast
qed

section \<open>Ledgers and views\<close>

record raft_view =
  v_term :: nat
  v_vote :: "node_id option"
  v_log :: "log_entry list"
  v_commit :: nat

record ledgers =
  lg :: "nat \<rightharpoonup> log_entry list"
  ld :: "nat \<Rightarrow> node_id"
  ak :: "node_id \<Rightarrow> nat \<Rightarrow> nat"

type_synonym views = "node_id \<Rightarrow> raft_view set"

definition led :: "ledgers \<Rightarrow> nat \<Rightarrow> log_entry list" where
  "led H t = (case lg H t of None \<Rightarrow> [] | Some L \<Rightarrow> L)"

text \<open>A log is made of ledgers: up to each entry it is a prefix of the ledger of that entry's term.\<close>

definition islog :: "ledgers \<Rightarrow> log_entry list \<Rightarrow> bool" where
  "islog H l \<longleftrightarrow> (\<forall>i < length l. lg H (le_term (l ! i)) \<noteq> None \<and> prefix (take (Suc i) l) (led H (le_term (l ! i))))"

text \<open>The first \<open>k\<close> entries of the ledger of \<open>t\<close> end with an entry of \<open>t\<close> itself.\<close>

definition own :: "ledgers \<Rightarrow> nat \<Rightarrow> nat \<Rightarrow> bool" where
  "own H t k \<longleftrightarrow> lg H t \<noteq> None \<and> 0 < k \<and> k \<le> length (led H t) \<and> le_term (led H t ! (k - 1)) = t"

definition chosen :: "(node_id set \<Rightarrow> bool) \<Rightarrow> ledgers \<Rightarrow> nat \<Rightarrow> nat \<Rightarrow> bool" where
  "chosen Q H t k \<longleftrightarrow> own H t k \<and> (\<exists>A. Q A \<and> (\<forall>n \<in> A. k \<le> ak H n t))"

definition frozen :: "(node_id set \<Rightarrow> bool) \<Rightarrow> ledgers \<Rightarrow> views \<Rightarrow> nat \<Rightarrow> nat \<Rightarrow> bool" where
  "frozen Q H V t k \<longleftrightarrow> (\<exists>A. Q A \<and> (\<forall>n \<in> A. ak H n t < k \<and> (\<forall>v \<in> V n. t < v_term v)))"

definition promised :: "ledgers \<Rightarrow> raft_view \<Rightarrow> nat \<Rightarrow> bool" where
  "promised H v t \<longleftrightarrow> t < v_term v \<or> v_term v = t \<and> v_vote v = Some (ld H t)"

text \<open>A leader whose disk failed may leave one entry on its disk that its memory gave up.\<close>

definition dangling :: "ledgers \<Rightarrow> node_id \<Rightarrow> log_entry list \<Rightarrow> bool" where
  "dangling H n l \<longleftrightarrow> (\<exists>t e. lg H t \<noteq> None \<and> ld H t = n \<and> le_term e = t \<and> l = led H t @ [e])"

definition commit_ok :: "(node_id set \<Rightarrow> bool) \<Rightarrow> ledgers \<Rightarrow> raft_view \<Rightarrow> bool" where
  "commit_ok Q H v \<longleftrightarrow> v_commit v \<le> length (v_log v) \<and> (v_commit v = 0 \<or>
     (\<exists>t k. chosen Q H t k \<and> t \<le> v_term v \<and> prefix (take (v_commit v) (v_log v)) (take k (led H t))))"

definition acks_ok :: "(node_id set \<Rightarrow> bool) \<Rightarrow> ledgers \<Rightarrow> views \<Rightarrow> node_id \<Rightarrow> log_entry list \<Rightarrow> bool" where
  "acks_ok Q H V n l \<longleftrightarrow> (\<forall>t k. own H t k \<longrightarrow> k \<le> ak H n t \<longrightarrow> prefix (take k (led H t)) l \<or> frozen Q H V t k)"

definition ledgers_ok :: "ledgers \<Rightarrow> bool" where
  "ledgers_ok H \<longleftrightarrow> (\<forall>t. lg H t \<noteq> None \<longrightarrow> 0 < t \<and> islog H (led H t) \<and> (\<forall>e \<in> set (led H t). le_term e \<le> t))
     \<and> (\<forall>n t. ak H n t \<le> length (led H t))"

definition votes_ok :: "(node_id set \<Rightarrow> bool) \<Rightarrow> ledgers \<Rightarrow> views \<Rightarrow> bool" where
  "votes_ok Q H V \<longleftrightarrow> (\<forall>t. lg H t \<noteq> None \<longrightarrow>
     (\<exists>A. Q A \<and> ld H t \<in> A \<and> (\<forall>n \<in> A. \<forall>v \<in> V n. promised H v t)))"

definition safe_ok :: "(node_id set \<Rightarrow> bool) \<Rightarrow> ledgers \<Rightarrow> views \<Rightarrow> bool" where
  "safe_ok Q H V \<longleftrightarrow> (\<forall>t t' k. own H t k \<longrightarrow> lg H t' \<noteq> None \<longrightarrow> t < t' \<longrightarrow>
     prefix (take k (led H t)) (led H t') \<or> frozen Q H V t k)"

definition view_ok :: "(node_id set \<Rightarrow> bool) \<Rightarrow> ledgers \<Rightarrow> views \<Rightarrow> node_id \<Rightarrow> raft_view \<Rightarrow> bool" where
  "view_ok Q H V n v \<longleftrightarrow> (islog H (v_log v) \<or> dangling H n (v_log v)) \<and> commit_ok Q H v \<and> acks_ok Q H V n (v_log v)
     \<and> (\<forall>t. 0 < ak H n t \<longrightarrow> t \<le> v_term v)"

definition ledger_inv :: "(node_id set \<Rightarrow> bool) \<Rightarrow> ledgers \<Rightarrow> views \<Rightarrow> bool" where
  "ledger_inv Q H V \<longleftrightarrow> ledgers_ok H \<and> votes_ok Q H V \<and> safe_ok Q H V \<and> (\<forall>n. \<forall>v \<in> V n. view_ok Q H V n v)"

definition extends :: "ledgers \<Rightarrow> ledgers \<Rightarrow> bool" where
  "extends H H' \<longleftrightarrow> (\<forall>t. lg H t \<noteq> None \<longrightarrow> lg H' t \<noteq> None \<and> prefix (led H t) (led H' t) \<and> ld H' t = ld H t)
     \<and> (\<forall>n t. ak H n t \<le> ak H' n t)"

lemma extends_refl [simp]: "extends H H"
  by (simp add: extends_def)

lemma extends_trans: "extends H H' \<Longrightarrow> extends H' H'' \<Longrightarrow> extends H H''"
  unfolding extends_def by (metis le_trans prefix_order.trans)

section \<open>Logs\<close>

lemma led_some: "lg H t = Some L \<Longrightarrow> led H t = L"
  by (simp add: led_def)

lemma led_none [simp]: "lg H t = None \<Longrightarrow> led H t = []"
  by (simp add: led_def)

lemma prefix_take_iff: "prefix xs ys \<longleftrightarrow> length xs \<le> length ys \<and> take (length xs) ys = xs"
  by (auto simp: prefix_def) (metis append_take_drop_id)

lemma prefix_nth: "prefix xs ys \<Longrightarrow> i < length xs \<Longrightarrow> ys ! i = xs ! i"
  by (auto simp: prefix_def nth_append)

lemma islog_prefix: "islog H l \<Longrightarrow> prefix m l \<Longrightarrow> islog H m"
proof -
  assume l: "islog H l" and m: "prefix m l"
  have "m ! i = l ! i \<and> take (Suc i) m = take (Suc i) l" if "i < length m" for i
    using m that by (auto simp: prefix_def nth_append)
  moreover have "length m \<le> length l" using m by (rule prefix_length_le)
  ultimately show "islog H m" using l unfolding islog_def by (metis less_le_trans)
qed

lemma islog_Nil [simp]: "islog H []"
  by (simp add: islog_def)

lemma islog_match:
  assumes "islog H l" "islog H m" "i < length l" "i < length m" "le_term (l ! i) = le_term (m ! i)"
  shows "take (Suc i) l = take (Suc i) m"
proof -
  have "prefix (take (Suc i) l) (led H (le_term (l ! i)))" "prefix (take (Suc i) m) (led H (le_term (l ! i)))"
    using assms by (auto simp: islog_def)
  then show ?thesis using assms(3,4) by (simp add: prefix_take_iff)
qed

lemma islog_mono: "islog H l \<Longrightarrow> extends H H' \<Longrightarrow> islog H' l"
  unfolding islog_def extends_def by (meson prefix_order.trans)

lemma islog_sorted:
  assumes "ledgers_ok H" "islog H l" "i \<le> j" "j < length l"
  shows "le_term (l ! i) \<le> le_term (l ! j)"
proof -
  let ?t = "le_term (l ! j)"
  have p: "prefix (take (Suc j) l) (led H ?t)" "lg H ?t \<noteq> None" using assms by (auto simp: islog_def)
  have "take (Suc j) l ! i = led H ?t ! i" "i < length (led H ?t)"
    using prefix_nth [OF p(1), of i] prefix_length_le [OF p(1)] assms(3,4) by auto
  then have "l ! i \<in> set (led H ?t)" using assms(3) by (metis le_imp_less_Suc nth_mem nth_take)
  then show ?thesis using assms(1) p(2) by (auto simp: ledgers_ok_def)
qed

lemma own_lt: "own H t k \<Longrightarrow> k - 1 < length (led H t)"
  by (auto simp: own_def)

text \<open>A prefix that ends with an entry of an earlier term is a proper prefix of any log that
  reaches a later term.\<close>

lemma own_before:
  assumes ok: "ledgers_ok H" and own: "own H t k" and pre: "prefix (take k (led H t)) m"
    and m: "islog H m" and j: "j < length m" "t < le_term (m ! j)"
  shows "k \<le> j"
proof (rule ccontr)
  assume "\<not> k \<le> j"
  then have jk: "j \<le> k - 1" "k - 1 < k" using own by (auto simp: own_def)
  have "k \<le> length m" using prefix_length_le [OF pre] own by (auto simp: own_def)
  moreover have "m ! (k - 1) = led H t ! (k - 1)"
    using prefix_nth [OF pre, of "k - 1"] own by (auto simp: own_def)
  ultimately have "le_term (m ! j) \<le> t"
    using islog_sorted [OF ok m jk(1)] own by (auto simp: own_def)
  then show False using j(2) by simp
qed

lemma own_extends: "own H t k \<Longrightarrow> extends H H' \<Longrightarrow> own H' t k \<and> take k (led H' t) = take k (led H t)"
proof -
  assume o: "own H t k" and x: "extends H H'"
  then have p: "prefix (led H t) (led H' t)" "lg H' t \<noteq> None" by (auto simp: own_def extends_def)
  have "led H' t ! (k - 1) = led H t ! (k - 1)" using prefix_nth [OF p(1) own_lt [OF o]] .
  moreover have "take k (led H' t) = take k (led H t)" "k \<le> length (led H' t)"
    using p(1) o by (auto simp: own_def prefix_def)
  ultimately show ?thesis using o p(2) by (simp add: own_def)
qed

lemma chosen_extends: "chosen Q H t k \<Longrightarrow> extends H H' \<Longrightarrow> chosen Q H' t k"
  using own_extends unfolding chosen_def extends_def by (meson le_trans)

lemma commit_ok_extends:
  assumes "commit_ok Q H v" "extends H H'" shows "commit_ok Q H' v"
proof -
  have "take k (led H' t) = take k (led H t)" "chosen Q H' t k" if "chosen Q H t k" for t k
    using own_extends [OF _ assms(2)] chosen_extends [OF that assms(2)] that by (auto simp: chosen_def)
  then show ?thesis using assms(1) unfolding commit_ok_def by metis
qed

lemma frozen_views:
  assumes "frozen Q H V t k" "\<And>n v'. v' \<in> V' n \<Longrightarrow> (\<forall>v \<in> V n. t < v_term v) \<Longrightarrow> t < v_term v'"
  shows "frozen Q H V' t k"
  using assms unfolding frozen_def by meson

definition last_term :: "log_entry list \<Rightarrow> nat" where
  "last_term l = (if l = [] then 0 else le_term (last l))"

definition up_to_date :: "log_entry list \<Rightarrow> log_entry list \<Rightarrow> bool" where
  "up_to_date l m \<longleftrightarrow> last_term m < last_term l \<or> last_term m = last_term l \<and> length m \<le> length l"

text \<open>A later hard state keeps the promises of an earlier one.\<close>

definition hard_le :: "ledgers \<Rightarrow> raft_view \<Rightarrow> raft_view \<Rightarrow> bool" where
  "hard_le H v v' \<longleftrightarrow> v_term v < v_term v' \<or> v_term v = v_term v' \<and>
     (v_vote v' = v_vote v \<or> v_vote v = None \<or> v_vote v' = Some (ld H (v_term v')))"

lemma hard_le_promised: "hard_le H v v' \<Longrightarrow> promised H v t \<Longrightarrow> promised H v' t"
  by (auto simp: hard_le_def promised_def)

lemma ledger_invD:
  assumes "ledger_inv Q H V"
  shows "ledgers_ok H" "votes_ok Q H V" "safe_ok Q H V" "v \<in> V n \<Longrightarrow> view_ok Q H V n v"
  using assms by (auto simp: ledger_inv_def)

lemma ledgers_okD:
  assumes "ledgers_ok H"
  shows "lg H t \<noteq> None \<Longrightarrow> 0 < t" "lg H t \<noteq> None \<Longrightarrow> islog H (led H t)"
    "lg H t \<noteq> None \<Longrightarrow> e \<in> set (led H t) \<Longrightarrow> le_term e \<le> t" "ak H n t \<le> length (led H t)"
  using assms by (simp_all add: ledgers_ok_def)

lemma view_okD:
  assumes "view_ok Q H V n v"
  shows "islog H (v_log v) \<or> dangling H n (v_log v)" "commit_ok Q H v" "acks_ok Q H V n (v_log v)"
    "0 < ak H n t \<Longrightarrow> t \<le> v_term v"
  using assms by (auto simp: view_ok_def)

lemma last_term_islog:
  assumes "islog H l" "l \<noteq> []"
  shows "prefix l (led H (last_term l))" "lg H (last_term l) \<noteq> None"
proof -
  have "length l - 1 < length l" using assms(2) by simp
  then have "lg H (le_term (l ! (length l - 1))) \<noteq> None \<and>
      prefix (take (Suc (length l - 1)) l) (led H (le_term (l ! (length l - 1))))"
    using assms(1) unfolding islog_def by blast
  then show "prefix l (led H (last_term l))" "lg H (last_term l) \<noteq> None"
    using assms(2) by (simp_all add: last_term_def last_conv_nth)
qed

lemma prefix_takeI: "prefix (take k xs) ys \<Longrightarrow> k \<le> length xs \<Longrightarrow> prefix m ys \<Longrightarrow> k \<le> length m \<Longrightarrow> prefix (take k xs) m"
  using prefix_length_prefix by fastforce

lemma commit_okD:
  assumes "commit_ok Q H v" "v_commit v \<noteq> 0"
  shows "\<exists>t k. chosen Q H t k \<and> t \<le> v_term v \<and> prefix (take (v_commit v) (v_log v)) (take k (led H t))"
  using assms by (simp add: commit_ok_def)

text \<open>The ledger of a new leader, and when it may be opened: a majority is at the new term, voted for
  the candidate, and has no log more up to date than the candidate's.\<close>

definition elected :: "ledgers \<Rightarrow> node_id \<Rightarrow> nat \<Rightarrow> log_entry list \<Rightarrow> ledgers" where
  "elected H c t l = H\<lparr>lg := (lg H)(t \<mapsto> l), ld := (ld H)(t := c), ak := (ak H)(c := (ak H c)(t := length l))\<rparr>"

definition election :: "(node_id set \<Rightarrow> bool) \<Rightarrow> ledgers \<Rightarrow> views \<Rightarrow> node_id set \<Rightarrow> node_id \<Rightarrow> nat \<Rightarrow> log_entry list \<Rightarrow> bool" where
  "election Q H V A c t l \<longleftrightarrow> Q A \<and> c \<in> A
     \<and> (\<forall>n \<in> A. (\<forall>v \<in> V n. v_term v = t \<and> v_vote v = Some c) \<and> (\<exists>v \<in> V n. islog H (v_log v) \<and> up_to_date l (v_log v)))
     \<and> islog H l \<and> lg H t = None \<and> 0 < t"

lemma elected_simps:
  "led (elected H c t l) s = (if s = t then l else led H s)"
  "lg (elected H c t l) s = None \<longleftrightarrow> s \<noteq> t \<and> lg H s = None"
  "ld (elected H c t l) s = (if s = t then c else ld H s)"
  by (auto simp: elected_def led_def)

text \<open>The leader's ledger grows by one entry. The leader acknowledges it when it is on its disk, and
  does not when a restart brings back an entry its memory had given up.\<close>

definition grown :: "ledgers \<Rightarrow> node_id \<Rightarrow> nat \<Rightarrow> log_entry \<Rightarrow> nat \<Rightarrow> ledgers" where
  "grown H n t e a = H\<lparr>lg := (lg H)(t \<mapsto> led H t @ [e]), ak := (ak H)(n := (ak H n)(t := a))\<rparr>"

definition growth :: "ledgers \<Rightarrow> views \<Rightarrow> views \<Rightarrow> node_id \<Rightarrow> nat \<Rightarrow> log_entry \<Rightarrow> nat \<Rightarrow> bool" where
  "growth H V V' n t e a \<longleftrightarrow> lg H t \<noteq> None \<and> ld H t = n \<and> le_term e = t
     \<and> (\<forall>v \<in> V' n. \<exists>w \<in> V n. (v_log w = led H t \<or> v_log w = led H t @ [e]) \<and> v = w\<lparr>v_log := led H t @ [e]\<rparr>)
     \<and> (\<forall>m. m \<noteq> n \<longrightarrow> V' m = V m)
     \<and> (a = ak H n t \<or> a = Suc (length (led H t)) \<and> (\<exists>v \<in> V n. v_term v = t) \<and> (\<forall>v \<in> V' n. t \<le> v_term v))"

lemma grown_simps:
  "led (grown H n t e a) s = (if s = t then led H t @ [e] else led H s)"
  "lg (grown H n t e a) s = None \<longleftrightarrow> s \<noteq> t \<and> lg H s = None"
  "ld (grown H n t e a) = ld H"
  "ak (grown H n t e a) m s = (if m = n \<and> s = t then a else ak H m s)"
  by (auto simp: grown_def led_def)

lemma grown_extends:
  assumes "ledgers_ok H" "growth H V V' n t e a"
  shows "extends H (grown H n t e a)"
  using assms(2) ledgers_okD(4) [OF assms(1), of n t]
  unfolding extends_def growth_def by (auto simp: grown_simps)

lemma growth_hard:
  assumes "growth H V V' n t e a" "v \<in> V' m"
  shows "\<exists>w \<in> V m. v_term w = v_term v \<and> v_vote w = v_vote v"
  using assms unfolding growth_def by (cases "m = n") fastforce+

lemma grown_own:
  assumes "growth H V V' n t e a" "own (grown H n t e a) s k"
  shows "own H s k \<or> s = t \<and> k = Suc (length (led H t))"
  using assms by (auto simp: own_def growth_def grown_simps nth_append split: if_splits)

lemma grown_islog:
  assumes ok: "ledgers_ok H" and g: "growth H V V' n t e a"
  shows "islog (grown H n t e a) (led H t @ [e])"
  unfolding islog_def
proof (intro allI impI)
  let ?H = "grown H n t e a" and ?L = "led H t @ [e]"
  have l: "islog ?H (led H t)"
    using islog_mono [OF ledgers_okD(2) [OF ok] grown_extends [OF ok g]] g by (simp add: growth_def)
  fix i assume "i < length ?L"
  then consider "i < length (led H t)" | "i = length (led H t)" by fastforce
  then show "lg ?H (le_term (?L ! i)) \<noteq> None \<and> prefix (take (Suc i) ?L) (led ?H (le_term (?L ! i)))"
  proof cases
    case 1
    then show ?thesis using l by (simp add: islog_def nth_append)
  next
    case 2
    then show ?thesis using g by (simp add: grown_simps growth_def)
  qed
qed

section \<open>Consequences of the invariant\<close>

context quorum_system begin

lemma chosen_not_frozen: "chosen Q H t k \<Longrightarrow> \<not> frozen Q H V t k"
  unfolding chosen_def frozen_def using quorums_meet by (meson leD)

lemma chosen_later:
  assumes inv: "ledger_inv Q H V" and "chosen Q H t k" and "lg H t' \<noteq> None" and "t \<le> t'"
  shows "prefix (take k (led H t)) (led H t')"
proof (cases "t = t'")
  case True
  then show ?thesis by (simp add: take_is_prefix)
next
  case False
  then show ?thesis using assms chosen_not_frozen [OF assms(2)] ledger_invD(3) [OF inv]
    unfolding safe_ok_def chosen_def by (metis le_neq_implies_less)
qed

lemma chosen_comparable_le:
  assumes inv: "ledger_inv Q H V" and c: "chosen Q H t k" "chosen Q H t' k'" and le: "t \<le> t'"
  shows "prefix (take k (led H t)) (take k' (led H t')) \<or> prefix (take k' (led H t')) (take k (led H t))"
proof -
  have "lg H t' \<noteq> None" using c(2) by (auto simp: chosen_def own_def)
  from chosen_later [OF inv c(1) this le] show ?thesis
    by (metis prefix_same_cases take_is_prefix)
qed

lemma chosen_comparable:
  assumes inv: "ledger_inv Q H V" and c: "chosen Q H t k" "chosen Q H t' k'"
  shows "prefix (take k (led H t)) (take k' (led H t')) \<or> prefix (take k' (led H t')) (take k (led H t))"
  using chosen_comparable_le [OF inv c] chosen_comparable_le [OF inv c(2,1)] by (meson nat_le_linear)

lemma commit_comparable:
  assumes inv: "ledger_inv Q H V" and c: "commit_ok Q H v" "commit_ok Q H w"
  shows "prefix (take (v_commit v) (v_log v)) (take (v_commit w) (v_log w))
    \<or> prefix (take (v_commit w) (v_log w)) (take (v_commit v) (v_log v))"
proof (cases "v_commit v = 0 \<or> v_commit w = 0")
  case False
  then obtain t k t' k' where ch: "chosen Q H t k" "chosen Q H t' k'"
    and p: "prefix (take (v_commit v) (v_log v)) (take k (led H t))"
      "prefix (take (v_commit w) (v_log w)) (take k' (led H t'))"
    using commit_okD [OF c(1)] commit_okD [OF c(2)] by metis
  from chosen_comparable [OF inv ch] show ?thesis
    using p by (metis prefix_order.trans prefix_same_cases)
qed auto

lemma commit_keep:
  assumes inv: "ledger_inv Q H V" and c: "commit_ok Q H v" and le: "v_term v \<le> T" and T: "lg H T \<noteq> None"
  shows "prefix (take (v_commit v) (v_log v)) (led H T)"
proof (cases "v_commit v = 0")
  case False
  then obtain t k where ch: "chosen Q H t k" "t \<le> v_term v"
    and p: "prefix (take (v_commit v) (v_log v)) (take k (led H t))"
    using commit_okD [OF c] by metis
  from chosen_later [OF inv ch(1) T] ch(2) le have "prefix (take k (led H t)) (led H T)" by simp
  with p show ?thesis by (rule prefix_order.trans)
qed simp

lemma acks_keep:
  assumes inv: "ledger_inv Q H V" and v: "view_ok Q H V n v" and le: "v_term v \<le> T" and T: "lg H T \<noteq> None"
    and l: "prefix (led H T) l"
  shows "acks_ok Q H V n l"
  unfolding acks_ok_def
proof (intro allI impI)
  fix t k assume o: "own H t k" and k: "k \<le> ak H n t"
  then have "t \<le> T" using view_okD(4) [OF v, of t] le by (auto simp: own_def)
  show "prefix (take k (led H t)) l \<or> frozen Q H V t k"
  proof (cases "t = T")
    case True
    then show ?thesis using l by (meson prefix_order.trans take_is_prefix)
  next
    case False
    then have "t < T" using \<open>t \<le> T\<close> by simp
    then show ?thesis using ledger_invD(3) [OF inv] o T l unfolding safe_ok_def
      by (meson prefix_order.trans)
  qed
qed

lemma commit_mixed:
  assumes inv: "ledger_inv Q H V" and d: "commit_ok Q H d" and m: "commit_ok Q H m" and le: "v_commit d \<le> v_commit m"
  shows "commit_ok Q H (d\<lparr>v_log := v_log m\<rparr>)"
proof -
  have len: "length (take (v_commit d) (v_log d)) = v_commit d" "v_commit m \<le> length (v_log m)"
    using d m by (auto simp: commit_ok_def)
  have "prefix (take (v_commit d) (v_log d)) (take (v_commit m) (v_log m))"
    using commit_comparable [OF inv d m] len le
    by (metis length_take min.absorb2 prefix_length_prefix prefix_order.refl)
  then have "take (v_commit d) (v_log m) = take (v_commit d) (v_log d)"
    using len le by (metis min.absorb1 prefix_take_iff take_take)
  then show ?thesis using d le len by (auto simp: commit_ok_def)
qed

section \<open>Steps that keep the invariant\<close>

lemma inv_views:
  assumes inv: "ledger_inv Q H V"
    and new: "\<And>n v'. v' \<in> V' n \<Longrightarrow> view_ok Q H V n v' \<and> (\<exists>v \<in> V n. hard_le H v v')"
  shows "ledger_inv Q H V'"
proof -
  have mono: "t < v_term v'" if "v' \<in> V' n" "\<forall>v \<in> V n. t < v_term v" for n v' t
    using new [OF that(1)] that(2) by (fastforce simp: hard_le_def)
  have fr: "frozen Q H V' t k" if "frozen Q H V t k" for t k
    using frozen_views [OF that] mono by blast
  have "votes_ok Q H V'"
    using ledger_invD(2) [OF inv] new hard_le_promised unfolding votes_ok_def by meson
  moreover have "safe_ok Q H V'" using ledger_invD(3) [OF inv] fr unfolding safe_ok_def by blast
  moreover have "view_ok Q H V' n v'" if "v' \<in> V' n" for n v'
    using new [OF that] fr unfolding view_ok_def acks_ok_def by blast
  ultimately show ?thesis using inv unfolding ledger_inv_def by blast
qed

lemma elect_safe:
  assumes inv: "ledger_inv Q H V" and A: "Q A"
    and at: "\<And>n v. n \<in> A \<Longrightarrow> v \<in> V n \<Longrightarrow> v_term v = t"
    and upd: "\<And>n. n \<in> A \<Longrightarrow> \<exists>v \<in> V n. islog H (v_log v) \<and> up_to_date l (v_log v)"
    and l: "islog H l" and o: "own H s k" and st: "s < t"
  shows "prefix (take k (led H s)) l \<or> frozen Q H V s k"
proof (rule ccontr)
  assume neg: "\<not> ?thesis"
  have ok: "ledgers_ok H" by (rule ledger_invD(1) [OF inv])
  from neg A at st obtain n where n: "n \<in> A" "k \<le> ak H n s"
    unfolding frozen_def by (metis not_less)
  obtain v where v: "v \<in> V n" "islog H (v_log v)" "up_to_date l (v_log v)" using upd [OF n(1)] by blast
  have m: "prefix (take k (led H s)) (v_log v)"
    using view_okD(3) [OF ledger_invD(4) [OF inv v(1)]] o n(2) neg unfolding acks_ok_def by blast
  have k: "k \<le> length (v_log v)" "k - 1 < length (v_log v)" "le_term (v_log v ! (k - 1)) = s"
    using prefix_length_le [OF m] prefix_nth [OF m, of "k - 1"] o by (auto simp: own_def)
  have "s \<le> last_term (v_log v)"
    using islog_sorted [OF ok v(2), of "k - 1" "length (v_log v) - 1"] k
    by (auto simp: last_term_def last_conv_nth)
  moreover have s0: "0 < s" using ok o by (auto simp: ledgers_ok_def own_def)
  ultimately have ge: "s \<le> last_term l" "l \<noteq> []" using v(3) by (auto simp: up_to_date_def last_term_def)
  note pl = last_term_islog [OF l ge(2)]
  show False
  proof (cases "last_term l = s")
    case True
    then have "k \<le> length l" using v(3) k(1) \<open>s \<le> last_term (v_log v)\<close> by (auto simp: up_to_date_def)
    then have "prefix (take k (led H s)) l"
      using pl(1) True o by (metis own_def prefix_takeI take_is_prefix)
    then show False using neg by blast
  next
    case False
    then have lt: "s < last_term l" using ge(1) by simp
    have p: "prefix (take k (led H s)) (led H (last_term l))"
      using ledger_invD(3) [OF inv] o pl(2) lt neg unfolding safe_ok_def by blast
    have "le_term (led H (last_term l) ! (length l - 1)) = last_term l"
      using prefix_nth [OF pl(1), of "length l - 1"] ge(2) by (simp add: last_term_def last_conv_nth)
    moreover have "length l - 1 < length (led H (last_term l))"
      using prefix_length_le [OF pl(1)] ge(2) by (cases l) auto
    moreover have "islog H (led H (last_term l))" using ok pl(2) by (auto simp: ledgers_ok_def)
    ultimately have "k \<le> length l - 1" using own_before [OF ok o p] lt by metis
    then have "prefix (take k (led H s)) l" using prefix_takeI [OF p _ pl(1)] o by (auto simp: own_def)
    then show False using neg by blast
  qed
qed

lemma term_below:
  assumes inv: "ledger_inv Q H V" and A: "Q A" and at: "\<And>n v. n \<in> A \<Longrightarrow> v \<in> V n \<Longrightarrow> v_term v \<le> t"
    and ne: "\<And>n. n \<in> A \<Longrightarrow> V n \<noteq> {}" and s: "lg H s \<noteq> None"
  shows "s \<le> t"
proof -
  obtain B where B: "Q B" "\<forall>n \<in> B. \<forall>v \<in> V n. promised H v s"
    using ledger_invD(2) [OF inv] s unfolding votes_ok_def by blast
  obtain n where n: "n \<in> A" "n \<in> B" using quorums_meet [OF A B(1)] by blast
  obtain v where "v \<in> V n" using ne [OF n(1)] by blast
  then show ?thesis using at [OF n(1)] B(2) n(2) by (fastforce simp: promised_def)
qed

lemma elected_below:
  assumes inv: "ledger_inv Q H V" and el: "election Q H V A c t l" and e: "e \<in> set l"
  shows "le_term e < t"
proof -
  obtain i where i: "i < length l" "e = l ! i" using e by (auto simp: in_set_conv_nth)
  then have e: "lg H (le_term e) \<noteq> None" using el by (auto simp: islog_def election_def)
  have "le_term e \<le> t"
  proof (rule term_below [OF inv _ _ _ e])
    show "Q A" "\<And>n v. n \<in> A \<Longrightarrow> v \<in> V n \<Longrightarrow> v_term v \<le> t" "\<And>n. n \<in> A \<Longrightarrow> V n \<noteq> {}"
      using el unfolding election_def by auto
  qed
  moreover have "le_term e \<noteq> t" using e el by (auto simp: election_def)
  ultimately show ?thesis by simp
qed

lemma elected_ak:
  assumes "ledger_inv Q H V" "election Q H V A c t l"
  shows "ak (elected H c t l) n s = (if s = t then if n = c then length l else 0 else ak H n s)"
  using ledgers_okD(4) [OF ledger_invD(1) [OF assms(1)], of n t] assms(2) by (auto simp: elected_def election_def)

lemma elected_extends:
  assumes inv: "ledger_inv Q H V" and el: "election Q H V A c t l"
  shows "extends H (elected H c t l)"
  unfolding extends_def
proof (intro conjI allI impI)
  fix s assume s: "lg H s \<noteq> None"
  then have "s \<noteq> t" using el by (auto simp: election_def)
  then show "lg (elected H c t l) s \<noteq> None" "prefix (led H s) (led (elected H c t l) s)" "ld (elected H c t l) s = ld H s"
    using s by (simp_all add: elected_simps)
next
  fix n s show "ak H n s \<le> ak (elected H c t l) n s"
    using ledgers_okD(4) [OF ledger_invD(1) [OF inv], of n s] el by (cases "s = t") (auto simp: elected_ak [OF assms] election_def)
qed

lemma elected_own:
  assumes inv: "ledger_inv Q H V" and el: "election Q H V A c t l"
  shows "own (elected H c t l) s k \<longleftrightarrow> own H s k \<and> s \<noteq> t"
proof -
  have "le_term (l ! (k - 1)) \<noteq> t" if "0 < k" "k \<le> length l"
    using elected_below [OF assms, of "l ! (k - 1)"] that by (simp add: nth_mem)
  then show ?thesis by (cases "s = t") (auto simp: own_def elected_simps)
qed

lemma elected_frozen:
  assumes inv: "ledger_inv Q H V" and el: "election Q H V A c t l" and "frozen Q H V s k" "s \<noteq> t"
  shows "frozen Q (elected H c t l) V s k"
  using assms(3,4) unfolding frozen_def by (simp add: elected_ak [OF inv el])

lemma elected_ledgers_ok:
  assumes inv: "ledger_inv Q H V" and el: "election Q H V A c t l"
  shows "ledgers_ok (elected H c t l)"
  unfolding ledgers_ok_def
proof (intro conjI allI impI)
  let ?H = "elected H c t l"
  note ext = elected_extends [OF assms] and ok = ledger_invD(1) [OF inv]
  fix s assume s: "lg ?H s \<noteq> None"
  have l: "islog ?H l" "0 < t" using el islog_mono [OF _ ext] by (auto simp: election_def)
  show "0 < s" "islog ?H (led ?H s)" "\<forall>e \<in> set (led ?H s). le_term e \<le> s"
    using s l elected_below [OF assms] ledgers_okD(1,2,3) [OF ok, of s] islog_mono [OF _ ext, of "led H s"]
    by (cases "s = t"; simp add: elected_simps less_imp_le)+
next
  fix n s show "ak (elected H c t l) n s \<le> length (led (elected H c t l) s)"
    using ledgers_okD(4) [OF ledger_invD(1) [OF inv], of n s]
    by (cases "s = t") (simp_all add: elected_simps elected_ak [OF assms])
qed

lemma elected_votes_ok:
  assumes inv: "ledger_inv Q H V" and el: "election Q H V A c t l"
  shows "votes_ok Q (elected H c t l) V"
  unfolding votes_ok_def
proof (intro allI impI)
  let ?H = "elected H c t l"
  fix s assume s: "lg ?H s \<noteq> None"
  show "\<exists>A. Q A \<and> ld ?H s \<in> A \<and> (\<forall>n \<in> A. \<forall>v \<in> V n. promised ?H v s)"
  proof (cases "s = t")
    case True
    then show ?thesis using el by (intro exI [of _ A]) (auto simp: elected_simps promised_def election_def)
  next
    case False
    then have "lg H s \<noteq> None" "ld ?H s = ld H s" using s by (simp_all add: elected_simps)
    then show ?thesis using ledger_invD(2) [OF inv] unfolding votes_ok_def promised_def by metis
  qed
qed

lemma elected_safe_ok:
  assumes inv: "ledger_inv Q H V" and el: "election Q H V A c t l"
  shows "safe_ok Q (elected H c t l) V"
  unfolding safe_ok_def
proof (intro allI impI)
  let ?H = "elected H c t l"
  fix s s' k assume o: "own ?H s k" and s': "lg ?H s' \<noteq> None" "s < s'"
  have oo: "own H s k" "s \<noteq> t" using o elected_own [OF assms] by auto
  have "prefix (take k (led H s)) (led ?H s') \<or> frozen Q H V s k"
  proof (cases "s' = t")
    case True
    have "Q A" "islog H l" "\<And>n v. n \<in> A \<Longrightarrow> v \<in> V n \<Longrightarrow> v_term v = t"
      "\<And>n. n \<in> A \<Longrightarrow> \<exists>v \<in> V n. islog H (v_log v) \<and> up_to_date l (v_log v)"
      using el unfolding election_def by blast+
    from elect_safe [OF inv this(1,3,4,2) oo(1)] show ?thesis using s'(2) True by (simp add: elected_simps)
  next
    case False
    then show ?thesis using ledger_invD(3) [OF inv] oo(1) s' unfolding safe_ok_def by (simp add: elected_simps)
  qed
  then show "prefix (take k (led ?H s)) (led ?H s') \<or> frozen Q ?H V s k"
    using elected_frozen [OF assms _ oo(2)] elected_simps(1) [of H c t l s] oo(2) by auto
qed

lemma inv_elect:
  assumes inv: "ledger_inv Q H V" and el: "election Q H V A c t l"
  shows "ledger_inv Q (elected H c t l) V"
proof -
  let ?H = "elected H c t l"
  note ext = elected_extends [OF assms]
  have "view_ok Q ?H V n v" if v: "v \<in> V n" for n v
  proof -
    note vo = ledger_invD(4) [OF inv v]
    have "dangling ?H n (v_log v)" if "dangling H n (v_log v)"
      using that el unfolding dangling_def election_def by (metis elected_simps)
    moreover have "acks_ok Q ?H V n (v_log v)"
      using view_okD(3) [OF vo] elected_frozen [OF assms] elected_own [OF assms] elected_ak [OF assms] elected_simps(1)
      unfolding acks_ok_def by metis
    moreover have "s \<le> v_term v" if "0 < ak ?H n s" for s
      using view_okD(4) [OF vo, of s] that el v
      by (cases "s = t") (auto simp: elected_ak [OF assms] election_def split: if_splits)
    ultimately show ?thesis
      using view_okD(1,2) [OF vo] islog_mono [OF _ ext] commit_ok_extends [OF _ ext] unfolding view_ok_def by blast
  qed
  then show ?thesis
    using elected_ledgers_ok [OF assms] elected_votes_ok [OF assms] elected_safe_ok [OF assms]
    unfolding ledger_inv_def by blast
qed

lemma inv_ack:
  assumes inv: "ledger_inv Q H V" and t: "lg H t \<noteq> None"
    and vs: "\<And>v. v \<in> V n \<Longrightarrow> prefix (led H t) (v_log v) \<and> t \<le> v_term v" and v: "v \<in> V n" "v_term v = t"
    and H': "H' = H\<lparr>ak := (ak H)(n := (ak H n)(t := length (led H t)))\<rparr>"
  shows "ledger_inv Q H' V \<and> extends H H'"
proof -
  have ok: "ledgers_ok H" by (rule ledger_invD(1) [OF inv])
  have led': "lg H' = lg H" "led H' = led H" "ld H' = ld H" by (auto simp: H' led_def fun_eq_iff)
  have ak': "ak H' m s = (if m = n \<and> s = t then length (led H t) else ak H m s)" for m s by (simp add: H')
  have ext: "extends H H'" using ok unfolding extends_def by (auto simp: led' ak' ledgers_ok_def)
  have own': "own H' = own H" by (auto simp: own_def led' fun_eq_iff)
  have islog': "islog H' = islog H" by (auto simp: islog_def led' fun_eq_iff)
  have fr: "frozen Q H' V s k" if "frozen Q H V s k" for s k
  proof -
    obtain A where A: "Q A" "\<forall>n \<in> A. ak H n s < k \<and> (\<forall>v \<in> V n. s < v_term v)"
      using \<open>frozen Q H V s k\<close> unfolding frozen_def by blast
    have "\<not> (n \<in> A \<and> s = t)" using A(2) v by fastforce
    then show ?thesis using A unfolding frozen_def by (metis ak')
  qed
  have "ledgers_ok H'" using ok unfolding ledgers_ok_def by (simp add: led' ak' islog')
  moreover have "votes_ok Q H' V"
    using ledger_invD(2) [OF inv] unfolding votes_ok_def promised_def by (simp add: led')
  moreover have "safe_ok Q H' V"
    using ledger_invD(3) [OF inv] fr unfolding safe_ok_def by (metis led' own')
  moreover have "view_ok Q H' V m w" if w: "w \<in> V m" for m w
  proof -
    note wo = ledger_invD(4) [OF inv w]
    have "prefix (take k (led H s)) (v_log w)" if "m = n" "s = t" for s k
      using vs w that by (meson prefix_order.trans take_is_prefix)
    then have "acks_ok Q H' V m (v_log w)"
      using view_okD(3) [OF wo] fr unfolding acks_ok_def led' own' by (metis ak')
    moreover have "s \<le> v_term w" if "0 < ak H' m s" for s
      using view_okD(4) [OF wo, of s] that vs w by (auto simp: ak' split: if_splits)
    moreover have "dangling H' m = dangling H m" by (auto simp: dangling_def led' fun_eq_iff)
    ultimately show ?thesis
      using view_okD(1,2) [OF wo] commit_ok_extends [OF _ ext] unfolding view_ok_def by (simp add: islog')
  qed
  ultimately show ?thesis using ext unfolding ledger_inv_def by blast
qed

lemma grown_frozen:
  assumes g: "growth H V V' n t e a" and f: "frozen Q H V s k"
  shows "frozen Q (grown H n t e a) V' s k"
proof -
  obtain A where A: "Q A" "\<forall>m \<in> A. ak H m s < k \<and> (\<forall>v \<in> V m. s < v_term v)"
    using f unfolding frozen_def by blast
  have "ak (grown H n t e a) m s < k" if "m \<in> A" for m
    using A(2) that g unfolding growth_def by (fastforce simp: grown_simps)
  moreover have "\<forall>v \<in> V' m. s < v_term v" if "m \<in> A" for m
    using A(2) that growth_hard [OF g] by metis
  ultimately show ?thesis using A(1) unfolding frozen_def by blast
qed

lemma grown_frozen_new:
  assumes inv: "ledger_inv Q H V" and g: "growth H V V' n t e a" and s': "lg H s' \<noteq> None" "t < s'"
  shows "frozen Q (grown H n t e a) V' t (Suc (length (led H t)))"
proof (rule grown_frozen [OF g])
  obtain A where A: "Q A" "\<forall>m \<in> A. \<forall>v \<in> V m. promised H v s'"
    using ledger_invD(2) [OF inv] s'(1) unfolding votes_ok_def by blast
  have "\<forall>v \<in> V m. t < v_term v" if "m \<in> A" for m
    using A(2) that s'(2) by (fastforce simp: promised_def)
  then show "frozen Q H V t (Suc (length (led H t)))"
    using A(1) ledgers_okD(4) [OF ledger_invD(1) [OF inv]] unfolding frozen_def by (metis less_Suc_eq_le)
qed

lemma grown_ledgers_ok:
  assumes inv: "ledger_inv Q H V" and g: "growth H V V' n t e a"
  shows "ledgers_ok (grown H n t e a)"
  unfolding ledgers_ok_def
proof (intro conjI allI impI)
  let ?H = "grown H n t e a"
  note ok = ledger_invD(1) [OF inv] and ext = grown_extends [OF ledger_invD(1) [OF inv] g]
  fix s assume s: "lg ?H s \<noteq> None"
  show "0 < s" "islog ?H (led ?H s)" "\<forall>e \<in> set (led ?H s). le_term e \<le> s"
    using s g grown_islog [OF ok g] ledgers_okD(1,2,3) [OF ok, of s] islog_mono [OF _ ext, of "led H s"]
    unfolding growth_def by (cases "s = t"; simp add: grown_simps)+
next
  fix m s show "ak (grown H n t e a) m s \<le> length (led (grown H n t e a) s)"
    using ledgers_okD(4) [OF ledger_invD(1) [OF inv], of m s] ledgers_okD(4) [OF ledger_invD(1) [OF inv], of n t] g
    unfolding growth_def by (auto simp: grown_simps)
qed

lemma grown_votes_ok:
  assumes inv: "ledger_inv Q H V" and g: "growth H V V' n t e a"
  shows "votes_ok Q (grown H n t e a) V'"
  unfolding votes_ok_def
proof (intro allI impI)
  let ?H = "grown H n t e a"
  fix s assume "lg ?H s \<noteq> None"
  then have "lg H s \<noteq> None" using g by (auto simp: grown_simps growth_def)
  then obtain A where A: "Q A" "ld H s \<in> A" "\<forall>m \<in> A. \<forall>v \<in> V m. promised H v s"
    using ledger_invD(2) [OF inv] unfolding votes_ok_def by blast
  have "promised ?H v s" if "m \<in> A" "v \<in> V' m" for m v
    using A(3) that growth_hard [OF g that(2)] unfolding promised_def grown_simps by metis
  then show "\<exists>A. Q A \<and> ld ?H s \<in> A \<and> (\<forall>n \<in> A. \<forall>v \<in> V' n. promised ?H v s)"
    using A(1,2) unfolding grown_simps by metis
qed

lemma grown_safe_ok:
  assumes inv: "ledger_inv Q H V" and g: "growth H V V' n t e a"
  shows "safe_ok Q (grown H n t e a) V'"
  unfolding safe_ok_def
proof (intro allI impI)
  let ?H = "grown H n t e a"
  note ext = grown_extends [OF ledger_invD(1) [OF inv] g]
  fix s s' k assume o: "own ?H s k" and s': "lg ?H s' \<noteq> None" "s < s'"
  have lg: "lg H s' \<noteq> None" using s'(1) g by (auto simp: grown_simps growth_def)
  show "prefix (take k (led ?H s)) (led ?H s') \<or> frozen Q ?H V' s k"
  proof (cases "own H s k")
    case True
    then have "prefix (take k (led H s)) (led H s') \<or> frozen Q H V s k"
      using ledger_invD(3) [OF inv] lg s'(2) unfolding safe_ok_def by blast
    moreover have "prefix (led H s') (led ?H s')" using ext lg by (simp add: extends_def)
    ultimately show ?thesis using grown_frozen [OF g] own_extends [OF True ext] by (metis prefix_order.trans)
  next
    case False
    then show ?thesis using grown_own [OF g o] grown_frozen_new [OF inv g] lg s'(2) by blast
  qed
qed

lemma grown_view_self:
  assumes inv: "ledger_inv Q H V" and g: "growth H V V' n t e a" and v: "v \<in> V' n"
  shows "view_ok Q (grown H n t e a) V' n v"
proof -
  let ?H = "grown H n t e a" and ?L = "led H t @ [e]"
  note ext = grown_extends [OF ledger_invD(1) [OF inv] g]
  obtain w where w: "w \<in> V n" "v_log w = led H t \<or> v_log w = ?L" "v = w\<lparr>v_log := ?L\<rparr>"
    using g v unfolding growth_def by blast
  note wo = ledger_invD(4) [OF inv w(1)]
  have pw: "prefix (v_log w) ?L" using w(2) by auto
  have "v_commit w \<le> length (v_log w)" using view_okD(2) [OF wo] by (simp add: commit_ok_def)
  then have "take (v_commit w) ?L = take (v_commit w) (v_log w)" "v_commit w \<le> length ?L" using w(2) by auto
  then have "commit_ok Q H v" using view_okD(2) [OF wo] unfolding commit_ok_def w(3) by simp
  moreover have "acks_ok Q ?H V' n ?L"
    unfolding acks_ok_def
  proof (intro allI impI)
    fix s k assume o: "own ?H s k" and k: "k \<le> ak ?H n s"
    show "prefix (take k (led ?H s)) ?L \<or> frozen Q ?H V' s k"
    proof (cases "s = t")
      case True
      then have "led ?H s = ?L" by (simp add: grown_simps)
      then show ?thesis by (metis take_is_prefix)
    next
      case False
      then have "own H s k" "k \<le> ak H n s" using grown_own [OF g o] k by (simp_all add: grown_simps)
      then have "prefix (take k (led H s)) (v_log w) \<or> frozen Q H V s k"
        using view_okD(3) [OF wo] unfolding acks_ok_def by blast
      moreover have "led ?H s = led H s" using False by (simp add: grown_simps)
      ultimately show ?thesis using pw grown_frozen [OF g] by (metis prefix_order.trans)
    qed
  qed
  moreover have "s \<le> v_term v" if "0 < ak ?H n s" for s
    using view_okD(4) [OF wo, of s] that g v w(3) by (auto simp: grown_simps growth_def split: if_splits)
  ultimately show ?thesis
    using grown_islog [OF ledger_invD(1) [OF inv] g] commit_ok_extends [OF _ ext] w(3) unfolding view_ok_def by simp
qed

lemma grown_view_other:
  assumes inv: "ledger_inv Q H V" and g: "growth H V V' n t e a" and v: "v \<in> V' m" "m \<noteq> n"
  shows "view_ok Q (grown H n t e a) V' m v"
proof -
  let ?H = "grown H n t e a"
  note ok = ledger_invD(1) [OF inv] and ext = grown_extends [OF ledger_invD(1) [OF inv] g]
  have "v \<in> V m" using v g by (simp add: growth_def)
  note vo = ledger_invD(4) [OF inv this]
  have "dangling ?H m (v_log v)" if d: "dangling H m (v_log v)"
  proof -
    obtain s e' where s: "lg H s \<noteq> None" "ld H s = m" "le_term e' = s" "v_log v = led H s @ [e']"
      using d unfolding dangling_def by blast
    then have "s \<noteq> t" using g v(2) by (auto simp: growth_def)
    then show ?thesis using s unfolding dangling_def by (intro exI [of _ s] exI [of _ e']) (simp add: grown_simps)
  qed
  moreover have "acks_ok Q ?H V' m (v_log v)"
    unfolding acks_ok_def
  proof (intro allI impI)
    fix s k assume o: "own ?H s k" and k: "k \<le> ak ?H m s"
    have km: "k \<le> ak H m s" using k v(2) by (simp add: grown_simps)
    then have os: "own H s k" using grown_own [OF g o] ledgers_okD(4) [OF ok, of m t] by auto
    then have "prefix (take k (led H s)) (v_log v) \<or> frozen Q H V s k"
      using view_okD(3) [OF vo] km unfolding acks_ok_def by blast
    then show "prefix (take k (led ?H s)) (v_log v) \<or> frozen Q ?H V' s k"
      using grown_frozen [OF g] own_extends [OF os ext] by metis
  qed
  ultimately show ?thesis
    using view_okD(1,2) [OF vo] view_okD(4) [OF vo] islog_mono [OF _ ext] commit_ok_extends [OF _ ext] v(2)
    unfolding view_ok_def by (auto simp: grown_simps)
qed

lemma inv_grown:
  assumes inv: "ledger_inv Q H V" and g: "growth H V V' n t e a"
  shows "ledger_inv Q (grown H n t e a) V'"
  using grown_ledgers_ok [OF assms] grown_votes_ok [OF assms] grown_safe_ok [OF assms]
    grown_view_self [OF assms] grown_view_other [OF assms]
  unfolding ledger_inv_def by metis

end

end
