(* ===== verification/Raft_Election.thy ===== *)
theory Raft_Election
  imports Raft_Ledger
begin

text \<open>
  The invariant of a consensus group: its memory and disk states are views of ledgers. Flushes, votes
  and elections keep it, with disk failures at any point.
\<close>

section \<open>The invariant of a group\<close>

definition mem_view :: "raft_peer \<Rightarrow> raft_view" where
  "mem_view p = \<lparr>v_term = rp_current_term p, v_vote = rp_voted_for p, v_log = rp_log p, v_commit = rp_commit_index p\<rparr>"

definition disk_view :: "raft_peer_store \<Rightarrow> raft_view" where
  "disk_view st = \<lparr>v_term = hs_current_term (st_hard_state st), v_vote = hs_voted_for (st_hard_state st),
     v_log = st_log st, v_commit = hs_commit_index (st_hard_state st)\<rparr>"

definition group_views :: "partition_raft \<Rightarrow> views" where
  "group_views g n = (case pr_peers g n of None \<Rightarrow> {} | Some p \<Rightarrow> {mem_view p})
     \<union> (case pr_stores g n of None \<Rightarrow> {} | Some st \<Rightarrow> {disk_view st})"

definition wf_log :: "log_entry list \<Rightarrow> bool" where
  "wf_log l \<longleftrightarrow> (\<forall>i < length l. le_index (l ! i) = Suc i \<and> cmd_subject (le_command (l ! i)) \<noteq> SNAPSHOT_BASE)"

definition peer_ok :: "ledgers \<Rightarrow> node_id \<Rightarrow> raft_peer \<Rightarrow> bool" where
  "peer_ok H n p \<longleftrightarrow> rp_node_id p = n \<and> wf_log (rp_log p) \<and> islog H (rp_log p)
     \<and> (rp_role p = Leader \<longrightarrow> lg H (rp_current_term p) \<noteq> None \<and> ld H (rp_current_term p) = n
        \<and> rp_log p = led H (rp_current_term p) \<and> length (rp_log p) \<le> ak H n (rp_current_term p)
        \<and> (\<forall>m i. rp_match_index p m = Some i \<longrightarrow> i \<le> ak H m (rp_current_term p)))"

definition store_ok :: "node_id list \<Rightarrow> node_id \<Rightarrow> raft_peer \<Rightarrow> raft_peer_store \<Rightarrow> bool" where
  "store_ok voters n p st \<longleftrightarrow> st_node st = n \<and> st_snapshot st = None \<and> wf_log (st_log st)
     \<and> (\<forall>m. st_membership st = Some m \<longrightarrow> ms_voters m = voters)
     \<and> hs_commit_index (st_hard_state st) \<le> length (st_log st)
     \<and> hs_commit_index (st_hard_state st) \<le> rp_commit_index p"

definition raft_inv :: "ledgers \<Rightarrow> partition_raft \<Rightarrow> bool" where
  "raft_inv H g \<longleftrightarrow> distinct (pr_voters g) \<and> length (pr_voters g) < 2 ^ 32
     \<and> (\<forall>n. pr_peers g n \<noteq> None \<longleftrightarrow> n \<in> set (pr_voters g))
     \<and> (\<forall>n p. pr_peers g n = Some p \<longrightarrow> peer_ok H n p)
     \<and> (\<forall>n st. pr_stores g n = Some st \<longrightarrow> (\<exists>p. pr_peers g n = Some p \<and> store_ok (pr_voters g) n p st))
     \<and> ledger_inv (is_quorum (pr_voters g)) H (group_views g)"

lemma raft_invD:
  assumes "raft_inv H g"
  shows "distinct (pr_voters g)" "length (pr_voters g) < 2 ^ 32"
    "pr_peers g n = Some p \<Longrightarrow> n \<in> set (pr_voters g)" "n \<in> set (pr_voters g) \<Longrightarrow> \<exists>p. pr_peers g n = Some p"
    "pr_peers g n = Some p \<Longrightarrow> peer_ok H n p"
    "pr_stores g n = Some st \<Longrightarrow> pr_peers g n = Some p \<Longrightarrow> store_ok (pr_voters g) n p st"
    "pr_stores g n = Some st \<Longrightarrow> \<exists>p. pr_peers g n = Some p"
    "ledger_inv (is_quorum (pr_voters g)) H (group_views g)"
  using assms unfolding raft_inv_def by (fastforce)+

lemma peer_okD:
  assumes "peer_ok H n p"
  shows "rp_node_id p = n" "wf_log (rp_log p)" "islog H (rp_log p)"
    "rp_role p = Leader \<Longrightarrow> lg H (rp_current_term p) \<noteq> None"
    "rp_role p = Leader \<Longrightarrow> ld H (rp_current_term p) = n"
    "rp_role p = Leader \<Longrightarrow> led H (rp_current_term p) = rp_log p"
    "rp_role p = Leader \<Longrightarrow> rp_match_index p m = Some i \<Longrightarrow> i \<le> ak H m (rp_current_term p)"
    "rp_role p = Leader \<Longrightarrow> length (rp_log p) \<le> ak H n (rp_current_term p)"
  using assms by (auto simp: peer_ok_def)

lemma view_simps [simp]:
  "v_term (mem_view p) = rp_current_term p" "v_vote (mem_view p) = rp_voted_for p"
  "v_log (mem_view p) = rp_log p" "v_commit (mem_view p) = rp_commit_index p"
  "v_term (disk_view st) = hs_current_term (st_hard_state st)" "v_vote (disk_view st) = hs_voted_for (st_hard_state st)"
  "v_log (disk_view st) = st_log st" "v_commit (disk_view st) = hs_commit_index (st_hard_state st)"
  by (simp_all add: mem_view_def disk_view_def)

lemma group_views_mem: "pr_peers g n = Some p \<Longrightarrow> mem_view p \<in> group_views g n"
  by (simp add: group_views_def)

lemma group_views_disk: "pr_stores g n = Some st \<Longrightarrow> disk_view st \<in> group_views g n"
  by (simp add: group_views_def)

lemma group_views_cases:
  "v \<in> group_views g n \<Longrightarrow> (\<exists>p. pr_peers g n = Some p \<and> v = mem_view p) \<or> (\<exists>st. pr_stores g n = Some st \<and> v = disk_view st)"
  by (auto simp: group_views_def split: option.splits)

section \<open>Well-formed logs\<close>

lemma wf_log_Nil [simp]: "wf_log []"
  by (simp add: wf_log_def)

lemma wf_log_take: "wf_log l \<Longrightarrow> wf_log (take k l)"
  by (simp add: wf_log_def)

lemma wf_log_prefix: "wf_log l \<Longrightarrow> prefix m l \<Longrightarrow> wf_log m"
  by (metis wf_log_take prefix_take_iff)

lemma wf_log_snoc: "wf_log (l @ [e]) \<longleftrightarrow> wf_log l \<and> le_index e = Suc (length l) \<and> cmd_subject (le_command e) \<noteq> SNAPSHOT_BASE"
  by (auto simp: wf_log_def nth_append less_Suc_eq)

lemma wf_last_index: "wf_log (rp_log p) \<Longrightarrow> last_log_index p = length (rp_log p)"
  by (auto simp: last_log_index_def wf_log_def last_conv_nth)

lemma last_log_term_eq: "last_log_term p = last_term (rp_log p)"
  by (simp add: last_log_term_def last_term_def)

lemma wf_saved: "wf_log (rp_log p) \<Longrightarrow> st_snapshot st = None \<Longrightarrow> saved_entries st p = rp_log p"
  by (auto simp: saved_entries_def wf_log_def filter_id_conv in_set_conv_nth)

lemma wf_filter: "wf_log l \<Longrightarrow> filter (\<lambda>e. k \<le> le_index e) l = drop (k - 1) l"
proof (induction l rule: rev_induct)
  case (snoc e l)
  then show ?case by (auto simp: wf_log_snoc)
qed simp

lemma up_to_date_iff:
  "wf_log (rp_log p) \<Longrightarrow> log_at_least_as_up_to_date p t i \<longleftrightarrow>
     last_term (rp_log p) < t \<or> last_term (rp_log p) = t \<and> length (rp_log p) \<le> i"
  by (auto simp: log_at_least_as_up_to_date_def wf_last_index last_log_term_eq)

section \<open>Changing one node\<close>

text \<open>Two groups that differ at most in one node.\<close>

definition only_at :: "node_id \<Rightarrow> partition_raft \<Rightarrow> partition_raft \<Rightarrow> bool" where
  "only_at n g g' \<longleftrightarrow> pr_voters g' = pr_voters g \<and> (\<forall>m. m \<noteq> n \<longrightarrow> pr_peers g' m = pr_peers g m \<and> pr_stores g' m = pr_stores g m)"

lemma only_at_refl [simp]: "only_at n g g"
  by (simp add: only_at_def)

lemma only_at_trans: "only_at n g g' \<Longrightarrow> only_at n g' g'' \<Longrightarrow> only_at n g g''"
  by (simp add: only_at_def)

lemma set_peer_simps [simp]:
  "pr_peers (set_peer g n p) m = (if m = n then Some p else pr_peers g m)"
  "pr_stores (set_peer g n p) = pr_stores g" "pr_voters (set_peer g n p) = pr_voters g"
  "pr_flushes (set_peer g n p) = pr_flushes g"
  by (simp_all add: set_peer_def)

lemma only_at_set_peer [simp]: "only_at n g (set_peer g n p)"
  by (simp add: only_at_def)

text \<open>The views of a changed node must follow from its former views.\<close>

lemma raft_inv_node:
  assumes inv: "raft_inv H g" and at: "only_at n g g'"
    and p: "pr_peers g n = Some p" "pr_peers g' n = Some p'" and ok: "peer_ok H n p'"
    and st: "\<And>st. pr_stores g' n = Some st \<Longrightarrow> store_ok (pr_voters g) n p' st"
    and vs: "\<And>v'. v' \<in> group_views g' n \<Longrightarrow> view_ok (is_quorum (pr_voters g)) H (group_views g) n v'
      \<and> (\<exists>v \<in> group_views g n. hard_le H v v')"
  shows "raft_inv H g'"
proof -
  have voters: "pr_voters g' = pr_voters g" and other: "m \<noteq> n \<Longrightarrow> pr_peers g' m = pr_peers g m \<and> pr_stores g' m = pr_stores g m" for m
    using at by (auto simp: only_at_def)
  have V: "group_views g' m = group_views g m" if "m \<noteq> n" for m
    using other [OF that] by (simp add: group_views_def)
  have "ledger_inv (is_quorum (pr_voters g)) H (group_views g')"
  proof (rule majority.inv_views [OF raft_invD(8) [OF inv]])
    fix m v' assume v': "v' \<in> group_views g' m"
    show "view_ok (is_quorum (pr_voters g)) H (group_views g) m v' \<and> (\<exists>v \<in> group_views g m. hard_le H v v')"
    proof (cases "m = n")
      case False
      then have "v' \<in> group_views g m" using v' V by simp
      then show ?thesis using ledger_invD(4) [OF raft_invD(8) [OF inv]] by (fastforce simp: hard_le_def)
    qed (use vs v' in simp)
  qed
  moreover have "\<forall>m. pr_peers g' m \<noteq> None \<longleftrightarrow> m \<in> set (pr_voters g)"
    using inv other p unfolding raft_inv_def by (metis option.distinct(1))
  moreover have "peer_ok H m q" if "pr_peers g' m = Some q" for m q
    using that ok p(2) other raft_invD(5) [OF inv] by (cases "m = n") auto
  moreover have "\<exists>q. pr_peers g' m = Some q \<and> store_ok (pr_voters g) m q s" if "pr_stores g' m = Some s" for m s
    using that st p(2) other inv unfolding raft_inv_def by (cases "m = n") auto
  ultimately show ?thesis using inv unfolding raft_inv_def voters by blast
qed

lemma hard_le_refl [simp]: "hard_le H v v"
  by (simp add: hard_le_def)

lemma inv_set_peer:
  assumes inv: "raft_inv H g" and p: "pr_peers g n = Some p" and ok: "peer_ok H n p'"
    and vo: "view_ok (is_quorum (pr_voters g)) H (group_views g) n (mem_view p')"
    and hl: "hard_le H (mem_view p) (mem_view p')" and cm: "rp_commit_index p \<le> rp_commit_index p'"
  shows "raft_inv H (set_peer g n p')"
proof (rule raft_inv_node [OF inv _ p])
  fix st assume "pr_stores (set_peer g n p') n = Some st"
  then show "store_ok (pr_voters g) n p' st"
    using raft_invD(6) [OF inv _ p] cm by (fastforce simp: store_ok_def)
next
  fix v' assume "v' \<in> group_views (set_peer g n p') n"
  then consider "v' = mem_view p'" | "v' \<in> group_views g n"
    by (auto simp: group_views_def split: option.splits)
  then show "view_ok (is_quorum (pr_voters g)) H (group_views g) n v' \<and> (\<exists>v \<in> group_views g n. hard_le H v v')"
  proof cases
    case 1
    then show ?thesis using vo hl group_views_mem [OF p] by blast
  next
    case 2
    then show ?thesis using ledger_invD(4) [OF raft_invD(8) [OF inv]] hard_le_refl by blast
  qed
qed (simp_all add: ok)

lemma mem_view_ok:
  assumes "raft_inv H g" "pr_peers g n = Some p"
  shows "view_ok (is_quorum (pr_voters g)) H (group_views g) n (mem_view p)"
  using ledger_invD(4) [OF raft_invD(8) [OF assms(1)] group_views_mem [OF assms(2)]] .

lemma disk_view_ok:
  assumes "raft_inv H g" "pr_stores g n = Some st"
  shows "view_ok (is_quorum (pr_voters g)) H (group_views g) n (disk_view st)"
  using ledger_invD(4) [OF raft_invD(8) [OF assms(1)] group_views_disk [OF assms(2)]] .

lemma inv_set_soft:
  assumes inv: "raft_inv H g" and p: "pr_peers g n = Some p" and same: "mem_view p' = mem_view p" "rp_node_id p' = rp_node_id p"
    and role: "rp_role p' = Leader \<Longrightarrow> rp_role p = Leader \<and> (\<forall>m i. rp_match_index p' m = Some i \<longrightarrow> i \<le> ak H m (rp_current_term p))"
  shows "raft_inv H (set_peer g n p')"
proof (rule inv_set_peer [OF inv p])
  show "peer_ok H n p'"
    using raft_invD(5) [OF inv p] same role by (auto simp: peer_ok_def mem_view_def)
qed (use same mem_view_ok [OF inv p] in \<open>auto simp: mem_view_def\<close>)

lemma view_ok_raise:
  assumes "view_ok Q H V n v" "v_term v \<le> t"
  shows "view_ok Q H V n (v\<lparr>v_term := t, v_vote := w\<rparr>)"
  using assms unfolding view_ok_def commit_ok_def by (auto intro: le_trans)

text \<open>A change of term, vote and role that keeps the log.\<close>

definition hard_upd :: "ledgers \<Rightarrow> raft_peer \<Rightarrow> raft_peer \<Rightarrow> bool" where
  "hard_upd H p p' \<longleftrightarrow> rp_log p' = rp_log p \<and> rp_commit_index p' = rp_commit_index p \<and> rp_node_id p' = rp_node_id p
     \<and> (rp_role p' = Leader \<longrightarrow> rp_role p = Leader \<and> rp_current_term p' = rp_current_term p \<and> rp_match_index p' = rp_match_index p)
     \<and> hard_le H (mem_view p) (mem_view p')"

lemma hard_upd_refl [simp]: "hard_upd H p p"
  by (simp add: hard_upd_def)

lemma hard_upd_peer_ok: "peer_ok H n p \<Longrightarrow> hard_upd H p p' \<Longrightarrow> peer_ok H n p'"
  by (auto simp: peer_ok_def hard_upd_def)

lemma hard_upd_view_ok:
  assumes "view_ok Q H V n (mem_view p)" "hard_upd H p p'"
  shows "view_ok Q H V n (mem_view p')"
proof -
  have "mem_view p' = (mem_view p)\<lparr>v_term := rp_current_term p', v_vote := rp_voted_for p'\<rparr>" "rp_current_term p \<le> rp_current_term p'"
    using assms(2) by (auto simp: mem_view_def hard_upd_def hard_le_def)
  then show ?thesis using view_ok_raise [OF assms(1)] by simp
qed

lemma inv_set_hard:
  assumes inv: "raft_inv H g" and p: "pr_peers g n = Some p" and h: "hard_upd H p p'"
  shows "raft_inv H (set_peer g n p')"
  using inv_set_peer [OF inv p hard_upd_peer_ok [OF raft_invD(5) [OF inv p] h] hard_upd_view_ok [OF mem_view_ok [OF inv p] h]] h
  by (simp add: hard_upd_def)

section \<open>Flushing\<close>

lemma view_ok_mixed:
  assumes inv: "ledger_inv (is_quorum vs) H V" and d: "view_ok (is_quorum vs) H V n d" and m: "view_ok (is_quorum vs) H V n m"
    and le: "v_commit d \<le> v_commit m"
  shows "view_ok (is_quorum vs) H V n (d\<lparr>v_log := v_log m\<rparr>)"
  using majority.commit_mixed [OF inv view_okD(2) [OF d] view_okD(2) [OF m] le] view_okD(1,3) [OF m] view_okD(4) [OF d]
  unfolding view_ok_def by simp

lemma save_peer_cases:
  assumes "wf_log (rp_log p)" "st_snapshot st = None" "save_peer oc st p = (ok, st')"
  shows "st' = st \<and> \<not> ok \<or> st' = st\<lparr>st_log := rp_log p\<rparr> \<and> \<not> ok
    \<or> st' = st\<lparr>st_log := rp_log p, st_hard_state := saved_hard_state p\<rparr>"
  using assms wf_saved [OF assms(1,2)] by (cases oc) auto

lemma flush_views:
  assumes "st' = st \<or> st' = st\<lparr>st_log := rp_log p\<rparr> \<or> st' = st\<lparr>st_log := rp_log p, st_hard_state := saved_hard_state p\<rparr>"
  shows "disk_view st' = disk_view st \<or> disk_view st' = (disk_view st)\<lparr>v_log := rp_log p\<rparr> \<or> disk_view st' = mem_view p"
  using assms by (auto simp: disk_view_def mem_view_def saved_hard_state_def)

definition save_step :: "raft_peer \<Rightarrow> bool \<Rightarrow> raft_peer_store \<Rightarrow> raft_peer_store \<Rightarrow> bool" where
  "save_step p ok st st' \<longleftrightarrow> (st' = st \<or> st' = st\<lparr>st_log := rp_log p\<rparr>
      \<or> st' = st\<lparr>st_log := rp_log p, st_hard_state := saved_hard_state p\<rparr>)
    \<and> (ok \<longrightarrow> st' = st\<lparr>st_log := rp_log p, st_hard_state := saved_hard_state p\<rparr>)"

lemma save_step_flushed:
  assumes "save_step p ok st st'" "ok" shows "disk_view st' = mem_view p"
proof -
  have "st' = st\<lparr>st_log := rp_log p, st_hard_state := saved_hard_state p\<rparr>" using assms unfolding save_step_def by blast
  then show ?thesis by (simp add: disk_view_def mem_view_def saved_hard_state_def)
qed

lemma flush_peer_step:
  assumes f: "flush_peer g n = (ok, g')" and p: "pr_peers g n = Some p" "wf_log (rp_log p)"
    and sn: "\<forall>st. pr_stores g n = Some st \<longrightarrow> st_snapshot st = None"
  shows "only_at n g g'" "pr_peers g' = pr_peers g"
    "pr_stores g' n = Some st' \<Longrightarrow> \<exists>st. pr_stores g n = Some st \<and> save_step p ok st st'"
proof -
  have *: "only_at n g g' \<and> pr_peers g' = pr_peers g \<and> (pr_stores g' n = Some st' \<longrightarrow> (\<exists>st. pr_stores g n = Some st \<and> save_step p ok st st'))" for st'
  proof (cases "pr_stores g n")
    case None
    then show ?thesis using f by (auto simp: flush_peer_def)
  next
    case (Some s)
    obtain oc where oc: "oc = (case pr_flushes g of [] \<Rightarrow> Flushed | o' # _ \<Rightarrow> o')" by simp
    obtain s' where s': "save_peer oc s p = (ok, s')" and g': "g' = g\<lparr>pr_stores := (pr_stores g)(n \<mapsto> s'), pr_flushes := tl (pr_flushes g)\<rparr>"
      using f Some p(1) oc by (auto simp: flush_peer_def Let_def split: prod.splits)
    have "st_snapshot s = None" using sn Some by simp
    from save_peer_cases [OF p(2) this s'] have "save_step p ok s s'" unfolding save_step_def by blast
    then show ?thesis using Some by (auto simp: g' only_at_def)
  qed
  show "only_at n g g'" "pr_peers g' = pr_peers g"
    "pr_stores g' n = Some st' \<Longrightarrow> \<exists>st. pr_stores g n = Some st \<and> save_step p ok st st'"
    using * by blast+
qed

lemma save_step_ok:
  assumes inv: "raft_inv H g" and p: "pr_peers g n = Some p" and h: "hard_upd H p q" and st: "pr_stores g n = Some st"
    and s: "save_step q ok st st'" and r: "rp_commit_index r = rp_commit_index p"
  shows "store_ok (pr_voters g) n r st'" "view_ok (is_quorum (pr_voters g)) H (group_views g) n (disk_view st')"
    "\<exists>v \<in> group_views g n. hard_le H v (disk_view st')"
proof -
  let ?V = "group_views g" and ?Q = "is_quorum (pr_voters g)"
  have q: "rp_log q = rp_log p" "rp_commit_index q = rp_commit_index p" and hl: "hard_le H (mem_view p) (mem_view q)"
    using h by (auto simp: hard_upd_def)
  note m = mem_view_ok [OF inv p] and d = disk_view_ok [OF inv st] and c = flush_views [of st' st q]
  have "commit_ok ?Q H (mem_view p)" by (rule view_okD(2) [OF m])
  then show "store_ok (pr_voters g) n r st'"
    using raft_invD(6) [OF inv st p] peer_okD(2) [OF raft_invD(5) [OF inv p]] s
    by (auto simp: save_step_def store_ok_def commit_ok_def saved_hard_state_def q r)
  have le: "v_commit (disk_view st) \<le> v_commit (mem_view p)" using raft_invD(6) [OF inv st p] by (simp add: store_ok_def)
  have mixed: "view_ok ?Q H ?V n ((disk_view st)\<lparr>v_log := rp_log q\<rparr>)"
    using view_ok_mixed [OF raft_invD(8) [OF inv] d m le] by (simp add: q)
  have hd: "hard_le H (disk_view st) ((disk_view st)\<lparr>v_log := rp_log q\<rparr>)" by (simp add: hard_le_def)
  show "view_ok ?Q H ?V n (disk_view st')" using c s d mixed hard_upd_view_ok [OF m h] unfolding save_step_def by metis
  show "\<exists>v \<in> ?V n. hard_le H v (disk_view st')"
    using c s hd hl hard_le_refl group_views_mem [OF p] group_views_disk [OF st] unfolding save_step_def by metis
qed

text \<open>A change of the hard state, a flush of it, and a change that takes it back or keeps it.\<close>

lemma inv_hard_flush:
  assumes inv: "raft_inv H g" and p: "pr_peers g n = Some p" and h: "hard_upd H p q" "hard_upd H p r"
    and f: "flush_peer (set_peer g n q) n = (ok, g1)"
  shows "raft_inv H (set_peer g1 n r)"
proof -
  have wf: "wf_log (rp_log q)" using peer_okD(2) [OF raft_invD(5) [OF inv p]] h(1) by (simp add: hard_upd_def)
  have sn: "\<forall>st. pr_stores g n = Some st \<longrightarrow> st_snapshot st = None"
    using raft_invD(6) [OF inv _ p] by (simp add: store_ok_def)
  have fs: "only_at n (set_peer g n q) g1" "pr_stores g1 n = Some st' \<Longrightarrow> \<exists>st. pr_stores g n = Some st \<and> save_step q ok st st'" for st'
    using flush_peer_step [OF f _ wf] sn by simp_all
  show ?thesis
  proof (rule raft_inv_node [OF inv _ p])
    show "only_at n g (set_peer g1 n r)" using fs(1) by (auto simp: only_at_def)
    show "pr_peers (set_peer g1 n r) n = Some r" "peer_ok H n r"
      using hard_upd_peer_ok [OF raft_invD(5) [OF inv p] h(2)] by simp_all
  next
    fix st assume "pr_stores (set_peer g1 n r) n = Some st"
    then obtain s where "pr_stores g n = Some s" "save_step q ok s st" using fs(2) by fastforce
    from save_step_ok(1) [OF inv p h(1) this] show "store_ok (pr_voters g) n r st" using h(2) by (simp add: hard_upd_def)
  next
    fix v' assume "v' \<in> group_views (set_peer g1 n r) n"
    then consider "v' = mem_view r" | st where "pr_stores g1 n = Some st" "v' = disk_view st"
      using group_views_cases [of v' "set_peer g1 n r" n] by auto
    then show "view_ok (is_quorum (pr_voters g)) H (group_views g) n v' \<and> (\<exists>v \<in> group_views g n. hard_le H v v')"
    proof cases
      case 1
      then show ?thesis using hard_upd_view_ok [OF mem_view_ok [OF inv p] h(2)] group_views_mem [OF p] h(2)
        by (auto simp: hard_upd_def)
    next
      case 2
      then obtain s where "pr_stores g n = Some s" "save_step q ok s st" using fs(2) by fastforce
      from save_step_ok(2,3) [OF inv p h(1) this] 2(2) show ?thesis by auto
    qed
  qed
qed

lemma set_peer_same: "pr_peers g n = Some p \<Longrightarrow> set_peer g n p = g"
  by (simp add: set_peer_def fun_upd_idem)

lemma inv_flush:
  assumes inv: "raft_inv H g" and f: "flush_peer g n = (ok, g')"
  shows "raft_inv H g'" "only_at n g g'" "pr_peers g' = pr_peers g"
    "ok \<Longrightarrow> pr_stores g' n = Some st \<Longrightarrow> pr_peers g n = Some p \<Longrightarrow> disk_view st = mem_view p"
proof -
  have *: "raft_inv H g' \<and> only_at n g g' \<and> pr_peers g' = pr_peers g \<and>
    (ok \<longrightarrow> pr_stores g' n = Some st \<longrightarrow> pr_peers g n = Some p \<longrightarrow> disk_view st = mem_view p)" for st p
  proof (cases "pr_peers g n")
    case None
    then show ?thesis using inv f by (auto simp: flush_peer_def split: option.splits)
  next
    case (Some q)
    have wf: "wf_log (rp_log q)" using peer_okD(2) [OF raft_invD(5) [OF inv Some]] .
    have sn: "\<forall>st. pr_stores g n = Some st \<longrightarrow> st_snapshot st = None"
      using raft_invD(6) [OF inv _ Some] by (simp add: store_ok_def)
    note fs = flush_peer_step [OF f Some wf sn]
    have "raft_inv H (set_peer g' n q)"
      using inv_hard_flush [OF inv Some, of q q ok g'] f by (simp add: set_peer_same [OF Some])
    moreover have "set_peer g' n q = g'" using fs(2) Some by (simp add: set_peer_same)
    moreover have "disk_view st = mem_view q" if "ok" "pr_stores g' n = Some st"
      using fs(3) [OF that(2)] that(1) save_step_flushed by blast
    ultimately show ?thesis using fs(1,2) Some by auto
  qed
  show "raft_inv H g'" "only_at n g g'" "pr_peers g' = pr_peers g"
    "ok \<Longrightarrow> pr_stores g' n = Some st \<Longrightarrow> pr_peers g n = Some p \<Longrightarrow> disk_view st = mem_view p"
    using * by blast+
qed

section \<open>Votes\<close>

text \<open>A voter that granted its vote, in memory and on disk.\<close>

definition voted :: "partition_raft \<Rightarrow> node_id \<Rightarrow> node_id \<Rightarrow> nat \<Rightarrow> nat \<Rightarrow> nat \<Rightarrow> bool" where
  "voted g v c t li lt \<longleftrightarrow> (\<exists>p. pr_peers g v = Some p
     \<and> (last_term (rp_log p) < lt \<or> last_term (rp_log p) = lt \<and> length (rp_log p) \<le> li))
     \<and> (\<forall>w \<in> group_views g v. v_term w = t \<and> v_vote w = Some c)"

definition terms_le :: "partition_raft \<Rightarrow> nat \<Rightarrow> bool" where
  "terms_le g M \<longleftrightarrow> (\<forall>n p. pr_peers g n = Some p \<longrightarrow> rp_current_term p \<le> M)"

lemma terms_leD: "terms_le g M \<Longrightarrow> pr_peers g n = Some p \<Longrightarrow> rp_current_term p \<le> M"
  by (auto simp: terms_le_def)

lemma terms_le_mono: "terms_le g M \<Longrightarrow> M \<le> N \<Longrightarrow> terms_le g N"
  by (auto simp: terms_le_def intro: le_trans)

lemma terms_le_at:
  assumes "terms_le g M" "only_at n g g'" "\<And>p. pr_peers g' n = Some p \<Longrightarrow> rp_current_term p \<le> M"
  shows "terms_le g' M"
  using assms unfolding terms_le_def only_at_def by metis

text \<open>What a call on one node may do: keep the invariant, touch only that node, and not run ahead
  of the given term.\<close>

definition node_step :: "ledgers \<Rightarrow> node_id \<Rightarrow> nat \<Rightarrow> partition_raft \<Rightarrow> partition_raft \<Rightarrow> bool" where
  "node_step H n t g g' \<longleftrightarrow> raft_inv H g' \<and> only_at n g g' \<and> (\<forall>M. terms_le g M \<longrightarrow> t \<le> M \<longrightarrow> terms_le g' M)"

lemma inv_hard_flush_keep:
  assumes inv: "raft_inv H g" and p: "pr_peers g n = Some p" and h: "hard_upd H p q"
    and f: "flush_peer (set_peer g n q) n = (ok, g1)"
  shows "raft_inv H g1" "only_at n g g1" "pr_peers g1 n = Some q" "ok \<Longrightarrow> v \<in> group_views g1 n \<Longrightarrow> v = mem_view q"
proof -
  have i: "raft_inv H (set_peer g n q)" by (rule inv_set_hard [OF inv p h])
  note fl = inv_flush [OF i f]
  show "raft_inv H g1" by (rule fl(1))
  show "only_at n g g1" using only_at_trans [OF only_at_set_peer fl(2)] .
  show q: "pr_peers g1 n = Some q" using fl(3) by simp
  show "v = mem_view q" if "ok" "v \<in> group_views g1 n"
    using group_views_cases [OF that(2)] fl(4) [OF that(1)] q by auto
qed

lemma hard_updI:
  assumes "rp_log p' = rp_log p" "rp_commit_index p' = rp_commit_index p" "rp_node_id p' = rp_node_id p"
    and "rp_current_term p < rp_current_term p' \<and> rp_role p' \<noteq> Leader \<or> rp_current_term p' = rp_current_term p \<and>
      (rp_voted_for p' = rp_voted_for p \<or> rp_voted_for p = None \<or> rp_voted_for p' = Some (ld H (rp_current_term p)))
      \<and> (rp_role p' = Leader \<longrightarrow> rp_role p = Leader \<and> rp_match_index p' = rp_match_index p)"
  shows "hard_upd H p p'"
  using assms by (auto simp: hard_upd_def hard_le_def)

lemma request_vote_step:
  assumes inv: "raft_inv H g" and r: "request_vote g v c t li lt = (res, g')"
  shows "node_step H v t g g'" "vr_vote_granted res \<Longrightarrow> voted g' v c t li lt"
    "terms_le g M \<Longrightarrow> t \<le> M \<Longrightarrow> vr_term res \<le> M"
proof -
  have "node_step H v t g g' \<and> (vr_vote_granted res \<longrightarrow> voted g' v c t li lt) \<and> (terms_le g M \<longrightarrow> t \<le> M \<longrightarrow> vr_term res \<le> M)" for M
  proof (cases "pr_peers g v")
    case None
    then show ?thesis using r inv by (auto simp: request_vote_def node_step_def)
  next
    case (Some p)
    show ?thesis
    proof (cases "t < rp_current_term p")
      case True
      then show ?thesis using r inv Some by (auto simp: request_vote_def node_step_def dest: terms_leD)
    next
      case False
      define p1 where "p1 = (if rp_current_term p < t then become_follower p t else p)"
      define p2 where "p2 = p1\<lparr>rp_voted_for := Some c, rp_current_term := t\<rparr>"
      define yes where "yes \<longleftrightarrow> (rp_voted_for p1 = None \<or> rp_voted_for p1 = Some c) \<and> log_at_least_as_up_to_date p1 lt li"
      have h1: "hard_upd H p p1" using False by (intro hard_updI) (auto simp: p1_def become_follower_def)
      have t1: "rp_current_term p1 = t" using False by (auto simp: p1_def become_follower_def)
      have h2: "hard_upd H p p2" if yes
        using False that by (intro hard_updI) (auto simp: p2_def p1_def yes_def become_follower_def split: if_splits)
      show ?thesis
      proof (cases yes)
        case False
        obtain ok g1 where f: "flush_peer (set_peer g v p1) v = (ok, g1)" by fastforce
        note k = inv_hard_flush_keep [OF inv Some h1 f]
        have "res = \<lparr>vr_term = t, vr_vote_granted = False\<rparr>" "g' = g1"
          using r Some \<open>\<not> t < rp_current_term p\<close> False f t1
          by (auto simp: request_vote_def Let_def p1_def [symmetric] yes_def)
        then show ?thesis using k terms_le_at [OF _ k(2)] t1 by (auto simp: node_step_def)
      next
        case True
        obtain ok g1 where f: "flush_peer (set_peer g v p2) v = (ok, g1)" by fastforce
        have t2: "rp_current_term p2 = t" by (simp add: p2_def)
        note k = inv_hard_flush_keep [OF inv Some h2 [OF True] f]
        have res: "res = \<lparr>vr_term = t, vr_vote_granted = ok\<rparr>" "g' = (if ok then g1 else set_peer g1 v (p2\<lparr>rp_voted_for := rp_voted_for p1, rp_current_term := rp_current_term p1\<rparr>))"
          using r Some \<open>\<not> t < rp_current_term p\<close> True f k(3)
          by (auto simp: request_vote_def Let_def p1_def [symmetric] p2_def [symmetric] yes_def t2 split: if_splits)
        have undo: "p2\<lparr>rp_voted_for := rp_voted_for p1, rp_current_term := rp_current_term p1\<rparr> = p1"
          by (simp add: p2_def)
        have "voted g' v c t li lt" if ok
        proof -
          have "wf_log (rp_log p)" using peer_okD(2) [OF raft_invD(5) [OF inv Some]] .
          moreover have "rp_log p2 = rp_log p" "rp_log p1 = rp_log p" by (simp_all add: p2_def p1_def become_follower_def)
          ultimately have "last_term (rp_log p2) < lt \<or> last_term (rp_log p2) = lt \<and> length (rp_log p2) \<le> li"
            using True by (simp add: yes_def up_to_date_iff)
          moreover have "v_term w = t \<and> v_vote w = Some c" if "w \<in> group_views g1 v" for w
            using k(4) [OF \<open>ok\<close> that] by (simp add: p2_def)
          ultimately show ?thesis using k(3) res(2) that by (simp add: voted_def)
        qed
        moreover have "raft_inv H g'" using k(1) inv_hard_flush [OF inv Some h2 [OF True] h1 f] res(2) undo by simp
        moreover have "only_at v g g'" using only_at_trans [OF k(2) only_at_set_peer] k(2) res(2) by simp
        moreover have "rp_current_term q = t" if "pr_peers g' v = Some q" for q
          using that res(2) k(3) t1 undo by (auto simp: p2_def split: if_splits)
        ultimately show ?thesis using terms_le_at [of g _ v g'] res(1) by (auto simp: node_step_def)
      qed
    qed
  qed
  then show "node_step H v t g g'" "vr_vote_granted res \<Longrightarrow> voted g' v c t li lt"
    "terms_le g M \<Longrightarrow> t \<le> M \<Longrightarrow> vr_term res \<le> M" by blast+
qed

definition kept :: "node_id set \<Rightarrow> partition_raft \<Rightarrow> partition_raft \<Rightarrow> bool" where
  "kept S g g' \<longleftrightarrow> pr_voters g' = pr_voters g \<and> (\<forall>m. m \<notin> S \<longrightarrow> pr_peers g' m = pr_peers g m \<and> pr_stores g' m = pr_stores g m)"

lemma kept_refl [simp]: "kept S g g"
  by (simp add: kept_def)

lemma kept_trans: "kept S g g' \<Longrightarrow> kept T g' g'' \<Longrightarrow> S \<subseteq> U \<Longrightarrow> T \<subseteq> U \<Longrightarrow> kept U g g''"
  unfolding kept_def by (metis subsetD)

lemma kept_mono: "kept S g g' \<Longrightarrow> S \<subseteq> T \<Longrightarrow> kept T g g'"
  unfolding kept_def by (metis subsetD)

lemma only_at_kept: "only_at n g g' \<Longrightarrow> n \<in> S \<Longrightarrow> kept S g g'"
  by (auto simp: only_at_def kept_def)

lemma kept_views: "kept S g g' \<Longrightarrow> v \<notin> S \<Longrightarrow> group_views g' v = group_views g v"
  by (simp add: kept_def group_views_def)

lemma voted_kept: "kept S g g' \<Longrightarrow> v \<notin> S \<Longrightarrow> voted g v c t li lt \<Longrightarrow> voted g' v c t li lt"
  using kept_views [of S g g' v] by (simp add: voted_def kept_def)

text \<open>The same for a call that touches several nodes.\<close>

definition group_step :: "ledgers \<Rightarrow> node_id set \<Rightarrow> nat \<Rightarrow> partition_raft \<Rightarrow> partition_raft \<Rightarrow> bool" where
  "group_step H S t g g' \<longleftrightarrow> raft_inv H g' \<and> kept S g g' \<and> (\<forall>M. terms_le g M \<longrightarrow> t \<le> M \<longrightarrow> terms_le g' M)"

lemma node_group_step: "node_step H n t g g' \<Longrightarrow> n \<in> S \<Longrightarrow> group_step H S t g g'"
  by (auto simp: node_step_def group_step_def only_at_kept)

lemma group_step_mono: "group_step H S t g g' \<Longrightarrow> S \<subseteq> T \<Longrightarrow> group_step H T t g g'"
  using kept_mono by (auto simp: group_step_def)

lemma group_step_trans:
  "group_step H S t g g' \<Longrightarrow> group_step H T t g' g'' \<Longrightarrow> S \<subseteq> U \<Longrightarrow> T \<subseteq> U \<Longrightarrow> group_step H U t g g''"
  unfolding group_step_def using kept_trans by blast

text \<open>\<open>k' - k\<close> voters of a set granted their votes.\<close>

definition granted :: "partition_raft \<Rightarrow> node_id set \<Rightarrow> node_id \<Rightarrow> nat \<Rightarrow> nat \<Rightarrow> nat \<Rightarrow> nat \<Rightarrow> nat \<Rightarrow> bool" where
  "granted g S c t li lt k k' \<longleftrightarrow> (\<exists>G. G \<subseteq> S \<and> k' = k + card G \<and> (\<forall>v \<in> G. voted g v c t li lt))"

lemma granted_refl: "granted g S c t li lt k k"
  unfolding granted_def by (intro exI [of _ "{}"]) simp

lemma granted_mono: "granted g S c t li lt k k' \<Longrightarrow> S \<subseteq> T \<Longrightarrow> granted g T c t li lt k k'"
proof -
  assume "granted g S c t li lt k k'" and st: "S \<subseteq> T"
  then obtain G where "G \<subseteq> S" "k' = k + card G" "\<forall>v \<in> G. voted g v c t li lt" unfolding granted_def by (elim exE conjE)
  then show ?thesis using st unfolding granted_def by (intro exI [of _ G]) simp
qed

lemma granted_insert:
  assumes "granted g S c t li lt (k + 1) k'" "voted g v c t li lt" "v \<notin> S" "finite S"
  shows "granted g (insert v S) c t li lt k k'"
proof -
  obtain G where G: "G \<subseteq> S" "k' = k + 1 + card G" "\<forall>v \<in> G. voted g v c t li lt"
    using assms(1) unfolding granted_def by blast
  have "finite G" "v \<notin> G" using G(1) assms(3,4) finite_subset by blast+
  then show ?thesis using G assms(2) unfolding granted_def by (intro exI [of _ "insert v G"]) auto
qed

lemma solicit_step:
  assumes "raft_inv H g" "solicit_votes g vs c online t li lt k = (k', higher, g')" "distinct vs"
  shows "group_step H (set vs - {c}) t g g'" "higher = None \<Longrightarrow> granted g' (set vs - {c}) c t li lt k k'"
    "higher = Some h \<Longrightarrow> t < h \<and> (\<forall>M. terms_le g M \<longrightarrow> t \<le> M \<longrightarrow> h \<le> M)"
proof -
  have "group_step H (set vs - {c}) t g g' \<and> (higher = None \<longrightarrow> granted g' (set vs - {c}) c t li lt k k')
    \<and> (higher = Some h \<longrightarrow> t < h \<and> (\<forall>M. terms_le g M \<longrightarrow> t \<le> M \<longrightarrow> h \<le> M))" for h
    using assms
  proof (induction vs arbitrary: g k)
    case Nil
    then show ?case by (auto simp: group_step_def granted_refl)
  next
    case (Cons v vs)
    have sub: "set vs - {c} \<subseteq> set (v # vs) - {c}" and dv: "distinct vs" "v \<notin> set vs" using Cons.prems(3) by auto
    show ?case
    proof (cases "v = c \<or> v \<notin> set online")
      case True
      then have "solicit_votes g vs c online t li lt k = (k', higher, g')" using Cons.prems(2) by simp
      note ih = Cons.IH [OF Cons.prems(1) this dv(1)]
      show ?thesis using group_step_mono [OF conjunct1 [OF ih] sub] granted_mono [OF _ sub] conjunct2 [OF ih] by blast
    next
      case False
      obtain res g1 where r: "request_vote g v c t li lt = (res, g1)" by fastforce
      note rv = request_vote_step [OF Cons.prems(1) r]
      have ns: "raft_inv H g1" "\<And>M. terms_le g M \<Longrightarrow> t \<le> M \<Longrightarrow> terms_le g1 M" using rv(1) by (auto simp: node_step_def)
      show ?thesis
      proof (cases "t < vr_term res")
        case True
        then have "higher = Some (vr_term res)" "g' = g1" using Cons.prems(2) False r by auto
        moreover have "group_step H (set (v # vs) - {c}) t g g1" by (rule node_group_step [OF rv(1)]) (use False in simp)
        ultimately show ?thesis using True rv(3) by auto
      next
        case n: False
        let ?k = "if vr_vote_granted res then k + 1 else k"
        have "solicit_votes g1 vs c online t li lt ?k = (k', higher, g')" using Cons.prems(2) False n r by simp
        note ih = Cons.IH [OF ns(1) this dv(1)]
        have st: "group_step H (set (v # vs) - {c}) t g g'"
          by (rule group_step_trans [OF node_group_step [OF rv(1) singletonI] conjunct1 [OF ih]]) (use False in auto)
        have "voted g' v c t li lt" if "vr_vote_granted res"
          using voted_kept [OF _ _ rv(2) [OF that]] ih dv(2) by (auto simp: group_step_def)
        then have "granted g' (set (v # vs) - {c}) c t li lt k k'" if "higher = None"
        proof (cases "vr_vote_granted res")
          case True
          have "granted g' (insert v (set vs - {c})) c t li lt k k'"
            by (rule granted_insert) (use True ih that dv(2) \<open>vr_vote_granted res \<Longrightarrow> voted g' v c t li lt\<close> in simp_all)
          then show ?thesis using False by (simp add: insert_Diff_if)
        next
          case False
          then show ?thesis using granted_mono [OF _ sub] ih that by simp
        qed
        then show ?thesis using conjunct2 [OF ih] st ns(2) by blast
      qed
    qed
  qed
  then show "group_step H (set vs - {c}) t g g'" "higher = None \<Longrightarrow> granted g' (set vs - {c}) c t li lt k k'"
    "higher = Some h \<Longrightarrow> t < h \<and> (\<forall>M. terms_le g M \<longrightarrow> t \<le> M \<longrightarrow> h \<le> M)" by blast+
qed

section \<open>Elections\<close>

lemma step_soft:
  assumes inv: "raft_inv H g" and p: "pr_peers g n = Some p" and role: "r \<noteq> Leader"
  shows "raft_inv H (set_peer g n (p\<lparr>rp_role := r\<rparr>))" "group_views (set_peer g n (p\<lparr>rp_role := r\<rparr>)) = group_views g"
proof -
  show "raft_inv H (set_peer g n (p\<lparr>rp_role := r\<rparr>))"
    by (rule inv_set_soft [OF inv p]) (use role in \<open>simp_all add: mem_view_def\<close>)
  show "group_views (set_peer g n (p\<lparr>rp_role := r\<rparr>)) = group_views g"
    using p by (auto simp: group_views_def mem_view_def fun_eq_iff)
qed

lemma terms_le_role: "terms_le g M \<Longrightarrow> pr_peers g n = Some p \<Longrightarrow> terms_le (set_peer g n (p\<lparr>rp_role := r\<rparr>)) M"
  by (auto simp: terms_le_def)

lemma set_role_step:
  assumes "raft_inv H g" "r \<noteq> Leader" "n \<in> S"
  shows "group_step H S t g (set_role g n r)"
  using assms step_soft(1) terms_le_role only_at_kept [OF only_at_set_peer]
  by (auto simp: set_role_def group_step_def split: option.split)

lemma rivals_step:
  assumes "raft_inv H g"
  shows "group_step H (set vs - {c}) t g (step_down_rivals c u vs g)" "group_views (step_down_rivals c u vs g) = group_views g"
proof -
  have "group_step H (set vs - {c}) t g (step_down_rivals c u vs g) \<and> group_views (step_down_rivals c u vs g) = group_views g"
    using assms
  proof (induction vs arbitrary: g)
    case Nil
    then show ?case by (simp add: group_step_def)
  next
    case (Cons v vs)
    let ?g = "if v = c then g else case pr_peers g v of None \<Rightarrow> g
      | Some p \<Rightarrow> if (rp_role p = Leader \<or> rp_role p = Candidate) \<and> rp_current_term p \<le> u
          then set_peer g v (p\<lparr>rp_role := Follower\<rparr>) else g"
    have s: "group_step H ({v} - {c}) t g ?g" "group_views ?g = group_views g"
      using Cons.prems step_soft [OF Cons.prems, of v _ Follower] terms_le_role only_at_kept [OF only_at_set_peer]
      by (auto simp: group_step_def split: option.split)
    then have "raft_inv H ?g" by (simp add: group_step_def)
    note ih = Cons.IH [OF this]
    have "group_step H (set (v # vs) - {c}) t g (step_down_rivals c u vs ?g)"
      by (rule group_step_trans [OF s(1) conjunct1 [OF ih]]) auto
    then show ?case using ih s(2) by simp
  qed
  then show "group_step H (set vs - {c}) t g (step_down_rivals c u vs g)" "group_views (step_down_rivals c u vs g) = group_views g" by blast+
qed

text \<open>The ledgers may grow as long as no sitting leader's ledger changes.\<close>

lemma raft_inv_extend:
  assumes inv: "raft_inv H g" and l: "ledger_inv (is_quorum (pr_voters g)) H' (group_views g)" and ext: "extends H H'"
    and same: "\<And>n p. pr_peers g n = Some p \<Longrightarrow> rp_role p = Leader \<Longrightarrow> led H' (rp_current_term p) = led H (rp_current_term p)"
  shows "raft_inv H' g"
proof -
  have "peer_ok H' n p" if p: "pr_peers g n = Some p" for n p
  proof -
    note ok = raft_invD(5) [OF inv p]
    have "i \<le> ak H' m (rp_current_term p)" if "rp_role p = Leader" "rp_match_index p m = Some i" for m i
      using peer_okD(7) [OF ok that] ext by (meson extends_def le_trans)
    moreover have "lg H' (rp_current_term p) \<noteq> None \<and> ld H' (rp_current_term p) = n
        \<and> length (rp_log p) \<le> ak H' n (rp_current_term p)" if "rp_role p = Leader"
      using peer_okD(4,5,8) [OF ok that] ext unfolding extends_def by (metis le_trans)
    ultimately show ?thesis
      using ok same [OF p] islog_mono [OF peer_okD(3) [OF ok] ext] unfolding peer_ok_def by simp
  qed
  then show ?thesis using inv l unfolding raft_inv_def by blast
qed

lemma fold_const_upd: "fold (\<lambda>v m. m(v \<mapsto> k)) vs m x = (if x \<in> set vs then Some k else m x)"
  by (induction vs arbitrary: m) auto

lemma inv_become_leader:
  assumes inv: "raft_inv H g" and p: "pr_peers g c = Some p"
    and l: "lg H (rp_current_term p) \<noteq> None" "ld H (rp_current_term p) = c" "led H (rp_current_term p) = rp_log p"
      "length (rp_log p) \<le> ak H c (rp_current_term p)"
  shows "raft_inv H (set_peer g c (become_leader p vs))"
proof (rule inv_set_peer [OF inv p])
  let ?p = "become_leader p vs"
  have id: "rp_node_id p = c" and wf: "wf_log (rp_log p)" and il: "islog H (rp_log p)" using peer_okD(1,2,3) [OF raft_invD(5) [OF inv p]] .
  have mv: "mem_view ?p = mem_view p" by (simp add: become_leader_def Let_def mem_view_def)
  have "i \<le> ak H m (rp_current_term p)" if "rp_match_index ?p m = Some i" for m i
    using that l(4) id wf by (auto simp: become_leader_def Let_def fold_const_upd wf_last_index split: if_splits)
  then show "peer_ok H c ?p" using l id wf il by (simp add: peer_ok_def become_leader_def Let_def)
  show "view_ok (is_quorum (pr_voters g)) H (group_views g) c (mem_view ?p)" using mem_view_ok [OF inv p] mv by simp
  show "hard_le H (mem_view p) (mem_view ?p)" using mv by simp
  show "rp_commit_index p \<le> rp_commit_index ?p" by (simp add: become_leader_def Let_def)
qed

lemma raft_quorum_eq: "raft_inv H g \<Longrightarrow> raft_quorum g = length (pr_voters g) div 2 + 1"
  using raft_invD(2) by (simp add: raft_quorum_def)

text \<open>No ledger is open for the term a candidate just started.\<close>

lemma fresh_term:
  assumes inv0: "ledger_inv (is_quorum vs) H V0" and v0: "v0 \<in> V0 c" "v_term v0 < t"
    and inv: "ledger_inv (is_quorum vs) H V" and A: "is_quorum vs A"
    and at: "\<And>n v. n \<in> A \<Longrightarrow> v \<in> V n \<Longrightarrow> v_term v = t \<and> v_vote v = Some c" and ne: "\<And>n. n \<in> A \<Longrightarrow> V n \<noteq> {}"
  shows "lg H t = None"
proof (rule ccontr)
  assume t: "lg H t \<noteq> None"
  obtain B where B: "is_quorum vs B" "\<forall>n \<in> B. \<forall>v \<in> V n. promised H v t" using ledger_invD(2) [OF inv] t unfolding votes_ok_def by blast
  obtain n where n: "n \<in> A" "n \<in> B" using majority.quorums_meet [OF A B(1)] by blast
  obtain v where "v \<in> V n" using ne [OF n(1)] by blast
  then have "ld H t = c" using at [OF n(1)] B(2) n(2) by (fastforce simp: promised_def)
  moreover obtain B0 where "ld H t \<in> B0" "\<forall>n \<in> B0. \<forall>v \<in> V0 n. promised H v t"
    using ledger_invD(2) [OF inv0] t unfolding votes_ok_def by blast
  ultimately show False using v0 by (fastforce simp: promised_def)
qed

lemma granted_quorum:
  assumes "granted g (set vs - {c}) c t li lt 1 k" "length vs div 2 + 1 \<le> k" "c \<in> set vs"
  obtains G where "is_quorum vs (insert c G)" "c \<notin> G" "G \<subseteq> set vs" "\<forall>v \<in> G. voted g v c t li lt"
proof -
  obtain G where G: "G \<subseteq> set vs - {c}" "k = 1 + card G" "\<forall>v \<in> G. voted g v c t li lt"
    using assms(1) unfolding granted_def by (elim exE conjE)
  have "finite G" using G(1) finite_subset by blast
  moreover have "c \<notin> G" using G(1) by blast
  ultimately have "card (insert c G) = k" using G(2) by simp
  then have "is_quorum vs (insert c G)" using G(1) assms(2,3) by (auto simp: is_quorum_def)
  with that G(1,3) show ?thesis by blast
qed

lemma elect_win:
  assumes inv0: "raft_inv H g0" and p0: "pr_peers g0 c = Some p0" "rp_current_term p0 < t"
    and inv: "raft_inv H g" and vs: "pr_voters g0 = pr_voters g" and p: "pr_peers g c = Some p"
    and cv: "\<forall>v \<in> group_views g c. v = mem_view p" and t: "rp_current_term p = t" "rp_voted_for p = Some c"
    and gr: "granted g (set (pr_voters g) - {c}) c t (length (rp_log p)) (last_term (rp_log p)) 1 k"
    and q: "raft_quorum g \<le> k"
  shows "\<exists>H'. extends H H' \<and> raft_inv H' g \<and> lg H' t \<noteq> None \<and> ld H' t = c \<and> led H' t = rp_log p \<and> length (rp_log p) \<le> ak H' c t"
proof -
  let ?Q = "is_quorum (pr_voters g)" and ?V = "group_views g" and ?l = "rp_log p"
  have c: "c \<in> set (pr_voters g)" by (rule raft_invD(3) [OF inv p])
  obtain G where G: "?Q (insert c G)" "c \<notin> G" "G \<subseteq> set (pr_voters g)" "\<forall>v \<in> G. voted g v c t (length ?l) (last_term ?l)"
    using granted_quorum [OF gr _ c] q raft_quorum_eq [OF inv] by metis
  have at: "v_term v = t \<and> v_vote v = Some c" if "n \<in> insert c G" "v \<in> ?V n" for n v
    using that G(4) cv t by (auto simp: voted_def)
  have upd: "\<exists>v \<in> ?V n. islog H (v_log v) \<and> up_to_date ?l (v_log v)" if n: "n \<in> insert c G" for n
  proof -
    obtain q where q: "pr_peers g n = Some q" "up_to_date ?l (rp_log q)"
      using n G(4) p by (cases "n = c") (auto simp: voted_def up_to_date_def)
    then show ?thesis using group_views_mem [OF q(1)] peer_okD(3) [OF raft_invD(5) [OF inv q(1)]] by (intro bexI [of _ "mem_view q"]) auto
  qed
  have ne: "?V n \<noteq> {}" if "n \<in> insert c G" for n using upd [OF that] by blast
  have none: "lg H t = None"
  proof (rule fresh_term [of "pr_voters g" H "group_views g0" "mem_view p0" c t ?V "insert c G"])
    show "ledger_inv ?Q H (group_views g0)" using raft_invD(8) [OF inv0] vs by simp
  qed (use group_views_mem [OF p0(1)] raft_invD(8) [OF inv] G(1) at ne p0(2) in auto)
  have el: "election ?Q H ?V (insert c G) c t ?l"
    unfolding election_def
  proof (intro conjI ballI)
    show "?Q (insert c G)" "lg H t = None" "islog H ?l" using G(1) none peer_okD(3) [OF raft_invD(5) [OF inv p]] .
  qed (use at upd p0(2) in auto)
  let ?H = "elected H c t ?l"
  note linv = raft_invD(8) [OF inv]
  note ext = majority.elected_extends [OF linv el]
  have "led ?H (rp_current_term q) = led H (rp_current_term q)" if "pr_peers g n = Some q" "rp_role q = Leader" for n q
    using peer_okD(4) [OF raft_invD(5) [OF inv that(1)] that(2)] none by (auto simp: elected_simps)
  then have "raft_inv ?H g" using raft_inv_extend [OF inv majority.inv_elect [OF linv el] ext] by blast
  then show ?thesis using ext by (intro exI [of _ ?H]) (simp add: elected_simps majority.elected_ak [OF linv el])
qed

definition fits_term :: "partition_raft \<Rightarrow> nat \<Rightarrow> bool" where
  "fits_term g k \<longleftrightarrow> (\<forall>n p. pr_peers g n = Some p \<longrightarrow> rp_current_term p + k < 2 ^ 64)"

text \<open>What any call on the group does to the ledgers and the terms.\<close>

definition raft_next :: "ledgers \<Rightarrow> nat \<Rightarrow> partition_raft \<Rightarrow> partition_raft \<Rightarrow> bool" where
  "raft_next H k g g' \<longleftrightarrow> (\<exists>H'. extends H H' \<and> raft_inv H' g') \<and> pr_voters g' = pr_voters g
     \<and> (\<forall>M. terms_le g M \<longrightarrow> terms_le g' (M + k))"

lemma raft_next_step:
  assumes "group_step H S t g g'" "\<And>M. terms_le g M \<Longrightarrow> t \<le> M + k"
  shows "raft_next H k g g'"
proof -
  have "terms_le g' (M + k)" if "terms_le g M" for M
  proof -
    have "terms_le g (M + k)" using that by (auto simp: terms_le_def intro: trans_le_add1)
    then show ?thesis using assms that by (simp add: group_step_def)
  qed
  then show ?thesis using assms(1) extends_refl unfolding raft_next_def group_step_def kept_def by blast
qed

lemma raft_next_trans:
  assumes "raft_next H k g g'" "\<And>H'. extends H H' \<Longrightarrow> raft_inv H' g' \<Longrightarrow> raft_next H' j g' g''"
  shows "raft_next H (k + j) g g''"
proof -
  obtain H' where H': "extends H H'" "raft_inv H' g'" using assms(1) unfolding raft_next_def by blast
  from assms(2) [OF this] have n: "raft_next H' j g' g''" .
  then obtain H'' where H'': "extends H' H''" "raft_inv H'' g''" unfolding raft_next_def by blast
  have "\<exists>H''. extends H H'' \<and> raft_inv H'' g''" using extends_trans [OF H'(1) H''(1)] H''(2) by blast
  then show ?thesis using assms(1) n unfolding raft_next_def by (metis add.assoc)
qed

lemma raft_next_refl: "raft_inv H g \<Longrightarrow> raft_next H k g g"
  by (rule raft_next_step [of H "{}" 0]) (simp_all add: group_step_def)

lemma flush_step:
  assumes "raft_inv H g" shows "group_step H {n} 0 g (snd (flush_peer g n))"
proof -
  obtain ok g1 where f: "flush_peer g n = (ok, g1)" by fastforce
  note fl = inv_flush [OF assms f]
  then show ?thesis using f only_at_kept [OF fl(2)] by (auto simp: group_step_def terms_le_def)
qed

lemma become_follower_step:
  assumes inv: "raft_inv H g" and p: "pr_peers g n = Some p" and t: "rp_current_term p < t"
  shows "group_step H {n} t g (set_peer g n (become_follower p t))"
proof -
  have "hard_upd H p (become_follower p t)" by (rule hard_updI) (simp_all add: become_follower_def t)
  from inv_set_hard [OF inv p this] show ?thesis
    by (auto simp: group_step_def kept_def terms_le_def become_follower_def)
qed

lemma conclude_win:
  assumes inv: "raft_inv H g" and p: "pr_peers g c = Some p" "rp_current_term p = t"
    and l: "lg H t \<noteq> None" "ld H t = c" "led H t = rp_log p" "length (rp_log p) \<le> ak H c t" and q: "raft_quorum g \<le> k"
    and e: "elect_conclude g c t k None = (res, g')"
  shows "\<exists>S. group_step H S t g g'"
proof -
  let ?g1 = "step_down_rivals c t (pr_voters g) g"
  let ?g2 = "set_peer ?g1 c (become_leader p (pr_voters ?g1))"
  have s1: "group_step H (set (pr_voters g) - {c}) t g ?g1" by (rule rivals_step(1) [OF inv])
  then have inv1: "raft_inv H ?g1" and p1: "pr_peers ?g1 c = Some p" using p(1) by (simp_all add: group_step_def kept_def)
  have "p\<lparr>rp_current_term := t\<rparr> = p" using p(2) by simp
  then have g': "g' = snd (flush_peer ?g2 c)" using e q p1 by (simp add: elect_conclude_def Let_def)
  have "raft_inv H ?g2" by (rule inv_become_leader [OF inv1 p1]) (use l p(2) in simp_all)
  then have s2: "group_step H {c} t ?g1 ?g2"
    using p1 by (auto simp: group_step_def kept_def terms_le_def become_leader_def Let_def)
  from flush_step [OF \<open>raft_inv H ?g2\<close>, of c] have s3: "group_step H {c} t ?g2 g'" using g' by (auto simp: group_step_def)
  show ?thesis using group_step_trans [OF group_step_trans [OF s1 s2 subset_UNIV subset_UNIV] s3 subset_UNIV subset_UNIV] by blast
qed

lemma conclude_next:
  assumes inv0: "raft_inv H g0" and p0: "pr_peers g0 c = Some p0" "rp_current_term p0 < t"
    and inv: "raft_inv H g" and vs: "pr_voters g0 = pr_voters g" and p: "pr_peers g c = Some p"
    and cv: "\<forall>v \<in> group_views g c. v = mem_view p" and t: "rp_current_term p = t" "rp_voted_for p = Some c"
    and gr: "higher = None \<Longrightarrow> granted g (set (pr_voters g) - {c}) c t (length (rp_log p)) (last_term (rp_log p)) 1 k"
    and hi: "\<And>h. higher = Some h \<Longrightarrow> t < h" and e: "elect_conclude g c t k higher = (res, g')"
  shows "\<exists>H' S u. extends H H' \<and> group_step H' S u g g' \<and> (u = t \<or> higher = Some u)"
proof (cases higher)
  case (Some h)
  then have "group_step H {c} h g g'" using become_follower_step [OF inv p, of h] hi t(1) e p by (auto simp: elect_conclude_def)
  then show ?thesis using Some extends_refl by blast
next
  case None
  show ?thesis
  proof (cases "raft_quorum g \<le> k")
    case True
    obtain H' where H': "extends H H'" "raft_inv H' g" "lg H' t \<noteq> None" "ld H' t = c" "led H' t = rp_log p" "length (rp_log p) \<le> ak H' c t"
      using elect_win [OF inv0 p0 inv vs p cv t gr [OF None] True] by (elim exE conjE)
    from conclude_win [OF H'(2) p t(1) H'(3-6) True] e None H'(1) show ?thesis by blast
  next
    case False
    let ?g1 = "set_role g c Follower"
    have g': "g' = snd (flush_peer ?g1 c)" using e None False by (simp add: elect_conclude_def Let_def)
    have s1: "group_step H {c} t g ?g1" by (rule set_role_step [OF inv]) simp_all
    then have "raft_inv H ?g1" by (simp add: group_step_def)
    from flush_step [OF this, of c] have "group_step H {c} t ?g1 g'" using g' by (auto simp: group_step_def)
    from group_step_trans [OF s1 this subset_UNIV subset_UNIV] show ?thesis using extends_refl by blast
  qed
qed

lemma elect_next:
  assumes inv: "raft_inv H g" and fit: "fits_term g 1" and e: "elect g c online = (res, g')"
  shows "raft_next H 1 g g'"
proof (cases "c \<notin> set (pr_voters g) \<or> c \<notin> set online \<or> pr_peers g c = None")
  case True
  then show ?thesis using e raft_next_refl [OF inv] by (auto simp: elect_def split: if_splits)
next
  case False
  then obtain p where p: "pr_peers g c = Some p" and c: "c \<in> set (pr_voters g)" "c \<in> set online" by auto
  define t where "t = Suc (rp_current_term p)"
  define p1 where "p1 = p\<lparr>rp_current_term := t, rp_role := Candidate, rp_voted_for := Some c\<rparr>"
  have add: "add64 (rp_current_term p) 1 = t" using fit p by (auto simp: fits_term_def add64_def t_def)
  have tM: "t \<le> M + 1" if "terms_le g M" for M using terms_leD [OF that p] by (simp add: t_def)
  have h: "hard_upd H p p1" by (rule hard_updI) (simp_all add: p1_def t_def)
  obtain ok g1 where f: "flush_peer (set_peer g c p1) c = (ok, g1)" by fastforce
  note k1 = inv_hard_flush_keep [OF inv p h f]
  have n1: "node_step H c t g g1"
    using k1(1,2) terms_le_at [OF _ k1(2)] k1(3) by (auto simp: node_step_def p1_def)
  have s1: "group_step H {c} t g g1" by (rule node_group_step [OF n1]) simp
  obtain k higher g2 where sv: "solicit_votes g1 (pr_voters g1) c online t (last_log_index p1) (last_log_term p1) 1 = (k, higher, g2)"
    using prod_cases3 by blast
  have el: "elect g c online = (if \<not> ok then (Inl ElectPersistFailed, set_role g1 c Follower) else elect_conclude g2 c t k higher)"
    using p c f sv add by (simp add: elect_def Let_def p1_def [symmetric] del: One_nat_def)
  show ?thesis
  proof (cases ok)
    case False
    then have "g' = set_role g1 c Follower" using e el by simp
    then have "group_step H {c} t g g'" using group_step_trans [OF s1 set_role_step [OF k1(1), of Follower c "{c}"]] by auto
    then show ?thesis by (rule raft_next_step) (rule tM)
  next
    case True
    have vs: "pr_voters g1 = pr_voters g" using k1(2) by (simp add: only_at_def)
    note so = solicit_step [OF k1(1) sv raft_invD(1) [OF k1(1)]]
    have k2: "raft_inv H g2" "kept (set (pr_voters g1) - {c}) g1 g2" using so(1) by (simp_all add: group_step_def)
    have p2: "pr_peers g2 c = Some p1" "pr_voters g2 = pr_voters g" using k2(2) k1(3) vs by (simp_all add: kept_def)
    have wf: "wf_log (rp_log p1)" using peer_okD(2) [OF raft_invD(5) [OF k1(1) k1(3)]] .
    have cv: "\<forall>v \<in> group_views g2 c. v = mem_view p1" using kept_views [OF k2(2)] k1(4) [OF True] by simp
    have ec: "elect_conclude g2 c t k higher = (res, g')" using el e True by simp
    have "\<exists>H' S u. extends H H' \<and> group_step H' S u g2 g' \<and> (u = t \<or> higher = Some u)"
    proof (rule conclude_next [OF inv p _ k2(1) _ p2(1) cv _ _ _ _ ec])
      show "higher = None \<Longrightarrow> granted g2 (set (pr_voters g2) - {c}) c t (length (rp_log p1)) (last_term (rp_log p1)) 1 k"
        using so(2) p2(2) vs wf by (simp add: wf_last_index last_log_term_eq)
    qed (use so(3) p2(2) in \<open>simp_all add: t_def p1_def\<close>)
    then obtain H' S u where H': "extends H H'" "group_step H' S u g2 g'" "u = t \<or> higher = Some u" by blast
    have "terms_le g' (M + 1)" if M: "terms_le g M" for M
    proof -
      have g1: "terms_le g1 (M + 1)" using s1 tM [OF M] terms_le_mono [OF M, of "M + 1"] by (simp add: group_step_def)
      then have "terms_le g2 (M + 1)" using so(1) tM [OF M] by (simp add: group_step_def)
      moreover have "u \<le> M + 1" using H'(3) tM [OF M] so(3) g1 by blast
      ultimately show ?thesis using H'(2) by (simp add: group_step_def)
    qed
    moreover have "raft_inv H' g'" "pr_voters g' = pr_voters g" using H'(2) p2(2) by (simp_all add: group_step_def kept_def)
    ultimately show ?thesis using H'(1) unfolding raft_next_def by blast
  qed
qed

lemma fits_next:
  assumes inv: "raft_inv H g" and fit: "fits_term g (j + k)" and n: "raft_next H j g g'"
  shows "fits_term g' k"
proof (cases "j + k < 2 ^ 64")
  case True
  then have "terms_le g (2 ^ 64 - 1 - (j + k))" using fit by (fastforce simp: terms_le_def fits_term_def)
  then have "terms_le g' (2 ^ 64 - 1 - (j + k) + j)" using n unfolding raft_next_def by blast
  then show ?thesis using True unfolding terms_le_def fits_term_def by fastforce
next
  case False
  then have "pr_peers g m = None" for m using fit by (cases "pr_peers g m") (auto simp: fits_term_def)
  then have "set (pr_voters g) = {}" using raft_invD(4) [OF inv] by fastforce
  then have "pr_peers g' m = None" for m
    using n raft_invD(3) unfolding raft_next_def by (metis empty_iff option.exhaust)
  then show ?thesis by (simp add: fits_term_def)
qed

lemma raft_next_mono: "raft_next H j g g' \<Longrightarrow> j \<le> k \<Longrightarrow> raft_next H k g g'"
  unfolding raft_next_def by (meson add_left_mono terms_le_mono)

lemma fits_term_mono: "fits_term g k \<Longrightarrow> j \<le> k \<Longrightarrow> fits_term g j"
  unfolding fits_term_def by fastforce

lemma try_next:
  assumes "raft_inv H g" "fits_term g (length cs)" "try_candidates g cs online err = (res, g')"
  shows "raft_next H (length cs) g g'"
  using assms
proof (induction cs arbitrary: H g err)
  case Nil
  then show ?case using raft_next_refl by simp
next
  case (Cons c cs)
  obtain r g1 where e: "elect g c online = (r, g1)" by fastforce
  have n: "raft_next H 1 g g1" by (rule elect_next [OF Cons.prems(1) _ e]) (rule fits_term_mono [OF Cons.prems(2)], simp)
  have fit: "fits_term g1 (length cs)" using fits_next [OF Cons.prems(1) _ n, of "length cs"] Cons.prems(2) by simp
  show ?case
  proof (cases r)
    case (Inl x)
    then have t: "try_candidates g1 cs online x = (res, g')" using Cons.prems(3) e by simp
    have "raft_next H (1 + length cs) g g'" by (rule raft_next_trans [OF n]) (rule Cons.IH [OF _ fit t])
    then show ?thesis by simp
  next
    case (Inr y)
    then have "g' = g1" using Cons.prems(3) e by simp
    then show ?thesis using raft_next_mono [OF n] by simp
  qed
qed

lemma length_insert_cand [simp]: "length (insert_cand g pref x ys) = Suc (length ys)"
  by (induction ys) auto

lemma length_sort_candidates [simp]: "length (sort_candidates g pref xs) = length xs"
  by (induction xs) (simp_all add: sort_candidates_def)

lemma among_next:
  assumes inv: "raft_inv H g" and fit: "fits_term g (length online)" and e: "elect_among g online pref = (res, g')"
  shows "raft_next H (length online) g g'"
proof -
  let ?cs = "sort_candidates g pref (filter (\<lambda>n. n \<in> set (pr_voters g)) online)"
  have le: "length ?cs \<le> length online" by simp
  from e consider "g' = g" | "try_candidates g ?cs online (NoQuorum 0 (raft_quorum g)) = (res, g')"
    by (auto simp: elect_among_def Let_def split: if_splits)
  then show ?thesis
  proof cases
    case 1
    then show ?thesis using raft_next_refl [OF inv] by simp
  next
    case 2
    then show ?thesis using raft_next_mono [OF try_next [OF inv fits_term_mono [OF fit le] 2] le] by simp
  qed
qed

lemma ensure_next:
  assumes inv: "raft_inv H g" and fit: "fits_term g (length online)" and e: "ensure_leader_preferring g online pref = (res, g')"
  shows "raft_next H (length online) g g'"
proof (cases "current_leader g")
  case None
  then show ?thesis using e among_next [OF inv fit] by (simp add: ensure_leader_preferring_def)
next
  case (Some lt)
  obtain l t where lt: "lt = (l, t)" by fastforce
  show ?thesis
  proof (cases "l \<in> set online")
    case True
    then show ?thesis using e Some lt raft_next_refl [OF inv] by (simp add: ensure_leader_preferring_def)
  next
    case False
    let ?g = "set_role g l Follower"
    have n: "raft_next H 0 g ?g" by (rule raft_next_step [OF set_role_step [OF inv, of _ l UNIV 0]]) simp_all
    have "fits_term ?g (length online)" using fits_next [OF inv _ n] fit by simp
    moreover have "elect_among ?g online pref = (res, g')" using e Some lt False by (simp add: ensure_leader_preferring_def)
    ultimately show ?thesis using raft_next_trans [OF n among_next] by fastforce
  qed
qed

end
