(* ===== verification/Raft_Replication.thy ===== *)
theory Raft_Replication
  imports Raft_Election
begin

text \<open>
  Replication, proposals and restarts of a consensus group keep its invariant: an accepted append makes
  the follower's log extend the leader's, an advanced commit index is a chosen prefix, and an entry
  that only reached the leader's disk is taken into its ledger when the leader restarts.
\<close>

section \<open>The append loop\<close>

lemma take_snoc_eq: "take k xs = take k ys \<Longrightarrow> k < length ys \<Longrightarrow> k \<le> length xs \<Longrightarrow> take k xs @ [ys ! k] = take (Suc k) ys"
  by (simp add: take_Suc_conv_app_nth)

lemma append_loop_log:
  assumes "wf_log (rp_log p)" "wf_log L" "islog H (rp_log p)" "islog H L" "length L < 2 ^ 64"
    and "k \<le> length (rp_log p)" "k \<le> length L" "take k (rp_log p) = take k L"
  shows "append_loop p (drop k L) = (p\<lparr>rp_log := (if prefix L (rp_log p) then rp_log p else L)\<rparr>, None)"
  using assms
proof (induction "length L - k" arbitrary: k p)
  case 0
  then have "k = length L" by simp
  then have "prefix L (rp_log p)" using 0 by (simp add: prefix_take_iff)
  then show ?case using \<open>k = length L\<close> by simp
next
  case (Suc n)
  let ?F = "rp_log p"
  have k: "k < length L" "n = length L - Suc k" using Suc.hyps(2) by auto
  have d: "drop k L = L ! k # drop (Suc k) L" using k(1) by (simp add: Cons_nth_drop_Suc)
  have ix: "le_index (L ! k) = Suc k" using Suc.prems(2) k(1) by (simp add: wf_log_def)
  have grow: "append_loop (p\<lparr>rp_log := take (Suc k) L\<rparr>) (drop (Suc k) L) = (p\<lparr>rp_log := L\<rparr>, None)"
  proof -
    have "take (Suc k) L = L" if "prefix L (take (Suc k) L)"
      using that by (meson prefix_order.antisym take_is_prefix)
    then show ?thesis
      using Suc.hyps(1) [OF k(2), of "p\<lparr>rp_log := take (Suc k) L\<rparr>"] Suc.prems k(1)
        wf_log_take islog_prefix [OF Suc.prems(4) take_is_prefix]
      by (simp split: if_splits)
  qed
  show ?case
  proof (cases "k < length ?F")
    case True
    then have en: "entry_at p (Suc k) = Some (?F ! k)" by (simp add: entry_at_def)
    show ?thesis
    proof (cases "le_term (?F ! k) = le_term (L ! k)")
      case same: True
      have "take (Suc k) ?F = take (Suc k) L" using islog_match [OF Suc.prems(3,4) True k(1) same] .
      then show ?thesis using Suc.hyps(1) [OF k(2), of p] Suc.prems True k(1) d ix en same by simp
    next
      case False
      then have "\<not> prefix L ?F" using prefix_nth [of L ?F k] k(1) by auto
      then show ?thesis using grow d ix en False take_snoc_eq [OF Suc.prems(8) k(1) Suc.prems(6)] by simp
    qed
  next
    case False
    then have kF: "k = length ?F" using Suc.prems(6) by simp
    then have "\<not> prefix L ?F" using k(1) prefix_length_le by fastforce
    moreover have "entry_at p (Suc k) = None" "add64 (last_log_index p) 1 = Suc k"
      using kF k(1) Suc.prems(1,5) by (simp_all add: entry_at_def wf_last_index add64_def)
    ultimately show ?thesis using grow d ix take_snoc_eq [OF Suc.prems(8) k(1) Suc.prems(6)] kF by simp
  qed
qed

text \<open>The log of the follower after an accepted append from a leader with log \<open>L\<close>.\<close>

definition merged :: "log_entry list \<Rightarrow> log_entry list \<Rightarrow> log_entry list" where
  "merged L F = (if prefix L F then F else L)"

lemma merged_prefix: "prefix L (merged L F)"
  by (simp add: merged_def)

lemma merged_ok: "wf_log L \<Longrightarrow> wf_log F \<Longrightarrow> wf_log (merged L F)" "islog H L \<Longrightarrow> islog H F \<Longrightarrow> islog H (merged L F)"
  by (simp_all add: merged_def)

section \<open>Appending at a follower\<close>

text \<open>The follower adopts the leader's log and its commit index.\<close>

lemma merged_view_ok:
  assumes inv: "raft_inv H g" and f: "pr_peers g f = Some p" and l: "pr_peers g l = Some lp" "rp_role lp = Leader"
    and t: "rp_current_term p \<le> rp_current_term lp" and cm: "c = rp_commit_index p \<or> c = rp_commit_index lp"
  shows "view_ok (is_quorum (pr_voters g)) H (group_views g) f
    \<lparr>v_term = rp_current_term lp, v_vote = w, v_log = merged (rp_log lp) (rp_log p), v_commit = c\<rparr>"
proof -
  let ?Q = "is_quorum (pr_voters g)" and ?T = "rp_current_term lp" and ?L = "rp_log lp" and ?F = "rp_log p"
  let ?v = "\<lparr>v_term = ?T, v_vote = w, v_log = merged ?L ?F, v_commit = c\<rparr>"
  note linv = raft_invD(8) [OF inv] and pv = mem_view_ok [OF inv f] and lv = mem_view_ok [OF inv l(1)]
  note lok = raft_invD(5) [OF inv l(1)]
  have T: "lg H ?T \<noteq> None" "led H ?T = ?L" using peer_okD(4,6) [OF lok l(2)] .
  have "islog H (merged ?L ?F)" using merged_ok(2) peer_okD(3) [OF lok] peer_okD(3) [OF raft_invD(5) [OF inv f]] .
  moreover have "acks_ok ?Q H (group_views g) f (merged ?L ?F)"
    by (rule majority.acks_keep [OF linv pv _ T(1)]) (use t T(2) merged_prefix in simp_all)
  moreover have "commit_ok ?Q H ?v"
    using cm
  proof
    assume c: "c = rp_commit_index lp"
    have "take c (merged ?L ?F) = take c ?L" "c \<le> length (merged ?L ?F)"
      using view_okD(2) [OF lv] merged_prefix [of ?L ?F] c by (auto simp: commit_ok_def prefix_def)
    then show ?thesis using view_okD(2) [OF lv] c by (simp add: commit_ok_def)
  next
    assume c: "c = rp_commit_index p"
    have keep: "prefix (take c ?F) ?L" using majority.commit_keep [OF linv view_okD(2) [OF pv] _ T(1)] t T(2) c by simp
    have cF: "c \<le> length ?F" using view_okD(2) [OF pv] c by (simp add: commit_ok_def)
    have "prefix (take c ?F) (merged ?L ?F)" using keep take_is_prefix by (auto simp: merged_def)
    then have "take c (merged ?L ?F) = take c ?F" "c \<le> length (merged ?L ?F)"
      using cF by (simp_all add: prefix_take_iff)
    then show ?thesis using view_okD(2) [OF pv] c t by (auto simp: commit_ok_def intro: le_trans)
  qed
  moreover have "s \<le> ?T" if "0 < ak H f s" for s using view_okD(4) [OF pv that] t by simp
  ultimately show ?thesis by (simp add: view_ok_def)
qed

lemma inv_append:
  assumes inv: "raft_inv H g" and f: "pr_peers g f = Some p" and l: "pr_peers g l = Some lp" "rp_role lp = Leader"
    and t: "rp_current_term p \<le> rp_current_term lp"
    and q: "rp_log q = merged (rp_log lp) (rp_log p)" "rp_current_term q = rp_current_term lp" "rp_voted_for q = Some l"
      "rp_role q = Follower" "rp_node_id q = f"
    and cm: "rp_commit_index q = (if rp_commit_index p < rp_commit_index lp then rp_commit_index lp else rp_commit_index p)"
  shows "raft_inv H (set_peer g f q)"
proof (rule inv_set_peer [OF inv f])
  note lok = raft_invD(5) [OF inv l(1)] and pok = raft_invD(5) [OF inv f]
  show "peer_ok H f q" using merged_ok peer_okD(2,3) [OF lok] peer_okD(2,3) [OF pok] q by (simp add: peer_ok_def)
  show "view_ok (is_quorum (pr_voters g)) H (group_views g) f (mem_view q)"
    using merged_view_ok [OF inv f l t, of "rp_commit_index q" "Some l"] q cm by (auto simp: mem_view_def)
  show "hard_le H (mem_view p) (mem_view q)" using t q peer_okD(5) [OF lok l(2)] by (auto simp: hard_le_def)
qed (simp add: cm)

lemma inv_acked:
  assumes inv: "raft_inv H g" and t: "lg H t \<noteq> None" and f: "pr_peers g f = Some q" "rp_current_term q = t"
    and vs: "\<And>v. v \<in> group_views g f \<Longrightarrow> v = mem_view q" and pre: "prefix (led H t) (rp_log q)"
  shows "\<exists>H'. extends H H' \<and> raft_inv H' g \<and> led H' = led H \<and> length (led H t) \<le> ak H' f t"
proof -
  let ?H = "H\<lparr>ak := (ak H)(f := (ak H f)(t := length (led H t)))\<rparr>"
  have "prefix (led H t) (v_log v) \<and> t \<le> v_term v" if "v \<in> group_views g f" for v using vs [OF that] pre f(2) by simp
  then have "ledger_inv (is_quorum (pr_voters g)) ?H (group_views g) \<and> extends H ?H"
    using majority.inv_ack [OF raft_invD(8) [OF inv] t _ group_views_mem [OF f(1)]] f(2) by simp
  moreover have "led ?H = led H" by (simp add: led_def fun_eq_iff)
  ultimately show ?thesis using raft_inv_extend [OF inv, of ?H] by (intro exI [of _ ?H]) auto
qed

text \<open>What a leader sends to a follower, computed from its next index.\<close>

definition sends :: "raft_peer \<Rightarrow> nat \<Rightarrow> nat \<Rightarrow> log_entry list \<Rightarrow> bool" where
  "sends lp prev prev_term entries \<longleftrightarrow> prev_term = (case term_at lp prev of None \<Rightarrow> 0 | Some t \<Rightarrow> t) \<and> entries = drop prev (rp_log lp)"

text \<open>The outcome of a call to a follower: the group keeps the invariant, the follower alone changes,
  and a success is acknowledged for the whole log of the leader.\<close>

definition append_done :: "ledgers \<Rightarrow> partition_raft \<Rightarrow> node_id \<Rightarrow> raft_peer \<Rightarrow> append_result \<Rightarrow> partition_raft \<Rightarrow> bool" where
  "append_done H g f lp res g' \<longleftrightarrow> (\<exists>H'. extends H H' \<and> raft_inv H' g'
       \<and> (ar_success res \<longrightarrow> length (rp_log lp) \<le> ak H' f (rp_current_term lp)))
     \<and> kept {f} g g' \<and> (\<forall>M. terms_le g M \<longrightarrow> rp_current_term lp \<le> M \<longrightarrow> terms_le g' M \<and> ar_term res \<le> M)"

lemma append_doneI:
  assumes "raft_inv H g'" "kept {f} g g'" "\<not> ar_success res"
    and "\<And>M. terms_le g M \<Longrightarrow> rp_current_term lp \<le> M \<Longrightarrow> terms_le g' M \<and> ar_term res \<le> M"
  shows "append_done H g f lp res g'"
  using assms extends_refl unfolding append_done_def by blast

lemma adopt_leader:
  assumes inv: "raft_inv H g" and f: "pr_peers g f = Some p" and l: "pr_peers g l = Some lp" "rp_role lp = Leader"
    and t: "rp_current_term p \<le> rp_current_term lp"
    and p1: "p1 = (if (rp_current_term p < rp_current_term lp \<or> rp_role p \<noteq> Follower \<or> rp_voted_for p \<noteq> Some l)
        \<and> rp_current_term p \<le> rp_current_term lp
      then p\<lparr>rp_current_term := rp_current_term lp, rp_role := Follower, rp_voted_for := Some l\<rparr> else p)"
  shows "hard_upd H p p1" "rp_role p1 = Follower" "rp_current_term p1 = rp_current_term lp" "rp_voted_for p1 = Some l"
    "rp_log p1 = rp_log p" "rp_commit_index p1 = rp_commit_index p" "rp_node_id p1 = f"
proof -
  have "ld H (rp_current_term lp) = l" using peer_okD(5) [OF raft_invD(5) [OF inv l(1)] l(2)] .
  then show "hard_upd H p p1" using t by (intro hard_updI) (auto simp: p1)
qed (use t peer_okD(1) [OF raft_invD(5) [OF inv f]] in \<open>auto simp: p1\<close>)

lemma matched_done:
  assumes inv: "raft_inv H g" and f: "pr_peers g f = Some p" and l: "pr_peers g l = Some lp" "rp_role lp = Leader"
    and t: "rp_current_term p \<le> rp_current_term lp" and len: "length (rp_log lp) < 2 ^ 64"
    and p1: "rp_role p1 = Follower" "rp_current_term p1 = rp_current_term lp" "rp_voted_for p1 = Some l"
      "rp_log p1 = rp_log p" "rp_commit_index p1 = rp_commit_index p" "rp_node_id p1 = f"
    and k: "k \<le> length (rp_log p)" "k \<le> length (rp_log lp)" "take k (rp_log p) = take k (rp_log lp)"
    and a: "append_matched g f p1 (drop k (rp_log lp)) (rp_commit_index lp) = (res, g')"
  shows "append_done H g f lp res g'"
proof -
  note lok = raft_invD(5) [OF inv l(1)] and pok = raft_invD(5) [OF inv f]
  let ?F = "merged (rp_log lp) (rp_log p)" and ?T = "rp_current_term lp"
  define p3 where "p3 = (if rp_commit_index p < rp_commit_index lp
    then p1\<lparr>rp_log := ?F, rp_commit_index := rp_commit_index lp\<rparr> else p1\<lparr>rp_log := ?F\<rparr>)"
  have loop: "append_loop p1 (drop k (rp_log lp)) = (p1\<lparr>rp_log := ?F\<rparr>, None)"
    using append_loop_log [of p1 "rp_log lp" H k] peer_okD(2,3) [OF lok] peer_okD(2,3) [OF pok] len k p1(4) by (simp add: merged_def)
  have wf: "wf_log ?F" using merged_ok(1) peer_okD(2) [OF lok] peer_okD(2) [OF pok] .
  have "rp_commit_index lp \<le> length (rp_log lp)" using view_okD(2) [OF mem_view_ok [OF inv l(1)]] by (simp add: commit_ok_def)
  then have "rp_commit_index lp \<le> length ?F" using prefix_length_le [OF merged_prefix] le_trans by blast
  then have min: "min (rp_commit_index lp) (last_log_index (p1\<lparr>rp_log := ?F\<rparr>)) = rp_commit_index lp"
    using wf by (simp add: wf_last_index)
  obtain ok g1 where fl: "flush_peer (set_peer g f p3) f = (ok, g1)" by fastforce
  have res: "res = \<lparr>ar_term = ?T, ar_success = ok, ar_conflict_index = None\<rparr>" "g' = g1"
    using a loop min p1 fl by (auto simp: append_matched_def Let_def p3_def split: if_splits)
  have i: "raft_inv H (set_peer g f p3)"
    by (rule inv_append [OF inv f l t]) (simp_all add: p3_def p1)
  note k1 = inv_flush [OF i fl]
  have p3: "pr_peers g1 f = Some p3" "rp_current_term p3 = ?T" using k1(3) by (auto simp: p3_def p1)
  have kept: "kept {f} g g1" using only_at_kept [OF only_at_trans [OF only_at_set_peer k1(2)]] by simp
  have "terms_le g1 M" if "terms_le g M" "?T \<le> M" for M
    using that k1(3) p3 by (auto simp: terms_le_def)
  moreover have "\<exists>H'. extends H H' \<and> raft_inv H' g1 \<and> (ok \<longrightarrow> length (rp_log lp) \<le> ak H' f ?T)"
  proof (cases ok)
    case True
    have "v = mem_view p3" if "v \<in> group_views g1 f" for v
      using group_views_cases [OF that] k1(4) [OF True] p3 k1(3) by auto
    moreover have "prefix (led H ?T) (rp_log p3)" using peer_okD(6) [OF lok l(2)] merged_prefix by (simp add: p3_def)
    ultimately show ?thesis
      using inv_acked [OF k1(1) peer_okD(4) [OF lok l(2)] p3] peer_okD(6) [OF lok l(2)] by auto
  qed (use k1(1) extends_refl in blast)
  ultimately show ?thesis using kept res unfolding append_done_def by auto
qed

lemma reject_done:
  assumes inv: "raft_inv H g" and f: "pr_peers g f = Some p" and h: "hard_upd H p p1"
    and t: "rp_current_term p1 = rp_current_term lp" "ar_term res = rp_current_term lp" "\<not> ar_success res"
  shows "append_done H g f lp res (set_peer g f p1)"
  by (rule append_doneI) (use inv_set_hard [OF inv f h] t in \<open>auto simp: kept_def terms_le_def\<close>)

text \<open>A follower whose term at the previous index equals the leader's has the leader's log up to
  there.\<close>

lemma prev_match:
  assumes inv: "raft_inv H g" and f: "pr_peers g f = Some p" and l: "pr_peers g l = Some lp"
    and s: "sends lp prev prev_term entries" and m: "\<not> (0 < prev \<and> term_at p prev \<noteq> Some prev_term)"
  shows "prev \<le> length (rp_log p)" "prev \<le> length (rp_log lp)" "take prev (rp_log p) = take prev (rp_log lp)"
proof -
  note lok = raft_invD(5) [OF inv l] and pok = raft_invD(5) [OF inv f]
  have "prev \<le> length (rp_log p) \<and> prev \<le> length (rp_log lp) \<and> take prev (rp_log p) = take prev (rp_log lp)"
  proof (cases "prev = 0")
    case False
    then have tp: "prev - 1 < length (rp_log p)" "le_term (rp_log p ! (prev - 1)) = prev_term"
      using m by (auto simp: term_at_def split: if_splits)
    then have "lg H prev_term \<noteq> None" using peer_okD(3) [OF pok] by (auto simp: islog_def)
    then have "prev_term \<noteq> 0" using ledgers_okD(1) [OF ledger_invD(1) [OF raft_invD(8) [OF inv]]] by blast
    then have tl: "prev - 1 < length (rp_log lp)" "le_term (rp_log lp ! (prev - 1)) = prev_term"
      using s False by (auto simp: sends_def term_at_def split: if_splits)
    have "take (Suc (prev - 1)) (rp_log p) = take (Suc (prev - 1)) (rp_log lp)"
      by (rule islog_match [OF peer_okD(3) [OF pok] peer_okD(3) [OF lok]]) (use tp tl in auto)
    then show ?thesis using False tp(1) tl(1) by auto
  qed simp
  then show "prev \<le> length (rp_log p)" "prev \<le> length (rp_log lp)" "take prev (rp_log p) = take prev (rp_log lp)" by auto
qed

lemma append_step:
  assumes inv: "raft_inv H g" and l: "pr_peers g l = Some lp" "rp_role lp = Leader"
    and len: "length (rp_log lp) < 2 ^ 64" and s: "sends lp prev prev_term entries"
    and a: "append_entries g f l (rp_current_term lp) prev prev_term entries (rp_commit_index lp) = (res, g')"
  shows "append_done H g f lp res g'" "ar_success res \<Longrightarrow> prev \<le> length (rp_log lp)"
proof -
  have "append_done H g f lp res g' \<and> (ar_success res \<longrightarrow> prev \<le> length (rp_log lp))"
  proof (cases "pr_peers g f")
    case None
    then show ?thesis using a inv by (auto simp: append_entries_def intro!: append_doneI)
  next
    case (Some p)
    show ?thesis
    proof (cases "rp_current_term lp < rp_current_term p")
      case True
      then show ?thesis using a inv Some by (auto simp: append_entries_def dest: terms_leD intro!: append_doneI)
    next
      case False
      define p1 where "p1 = (if (rp_current_term p < rp_current_term lp \<or> rp_role p \<noteq> Follower \<or> rp_voted_for p \<noteq> Some l)
          \<and> rp_current_term p \<le> rp_current_term lp
        then p\<lparr>rp_current_term := rp_current_term lp, rp_role := Follower, rp_voted_for := Some l\<rparr> else p)"
      have t: "rp_current_term p \<le> rp_current_term lp" using False by simp
      note ad = adopt_leader [OF inv Some l t p1_def]
      have term1: "term_at p1 prev = term_at p prev" using ad(5) by (simp add: term_at_def)
      have a1: "(if 0 < prev \<and> term_at p1 prev = None
          then (\<lparr>ar_term = rp_current_term p1, ar_success = False,
            ar_conflict_index = Some (max (min (2 ^ 64 - 1) (last_log_index p1 + 1)) 1)\<rparr>, set_peer g f p1)
          else if 0 < prev \<and> term_at p1 prev \<noteq> Some prev_term
          then (\<lparr>ar_term = rp_current_term p1, ar_success = False, ar_conflict_index = Some prev\<rparr>, set_peer g f p1)
          else append_matched g f p1 entries (rp_commit_index lp)) = (res, g')"
        using a [unfolded append_entries_def Let_def, folded p1_def] Some False by (simp only: option.case if_False p1_def)
      show ?thesis
      proof (cases "0 < prev \<and> term_at p prev \<noteq> Some prev_term")
        case True
        then have "g' = set_peer g f p1" "ar_term res = rp_current_term lp" "\<not> ar_success res"
          using a1 ad(3) term1 by (auto split: if_splits)
        then show ?thesis using reject_done [OF inv Some ad(1,3)] by simp
      next
        case m: False
        note pm = prev_match [OF inv Some l(1) s m]
        have "append_matched g f p1 (drop prev (rp_log lp)) (rp_commit_index lp) = (res, g')"
          using a1 m term1 s by (auto simp: sends_def split: if_splits)
        from matched_done [OF inv Some l t len ad(2-7) pm this] pm(2) show ?thesis by simp
      qed
    qed
  qed
  then show "append_done H g f lp res g'" "ar_success res \<Longrightarrow> prev \<le> length (rp_log lp)" by blast+
qed

section \<open>Replicating to a follower\<close>

definition log_kept :: "node_id \<Rightarrow> partition_raft \<Rightarrow> partition_raft \<Rightarrow> bool" where
  "log_kept l g g' \<longleftrightarrow> (\<forall>p. pr_peers g l = Some p \<longrightarrow>
     (\<exists>p'. pr_peers g' l = Some p' \<and> rp_log p' = rp_log p \<and> rp_commit_index p' = rp_commit_index p))"

definition small_log :: "partition_raft \<Rightarrow> node_id \<Rightarrow> bool" where
  "small_log g l \<longleftrightarrow> (\<forall>p. pr_peers g l = Some p \<longrightarrow> length (rp_log p) < 2 ^ 64)"

definition rep_next :: "ledgers \<Rightarrow> node_id \<Rightarrow> partition_raft \<Rightarrow> partition_raft \<Rightarrow> bool" where
  "rep_next H l g g' \<longleftrightarrow> raft_next H 0 g g' \<and> log_kept l g g' \<and> small_log g' l"

lemma rep_nextD:
  assumes "rep_next H l g g'"
  shows "\<exists>H'. extends H H' \<and> raft_inv H' g'" "small_log g' l" "raft_next H 0 g g'" "log_kept l g g'" "pr_voters g' = pr_voters g"
  using assms unfolding rep_next_def raft_next_def by auto

lemma rep_next_refl: "raft_inv H g \<Longrightarrow> small_log g l \<Longrightarrow> rep_next H l g g"
  by (simp add: rep_next_def raft_next_refl log_kept_def)

lemma rep_next_trans:
  assumes "rep_next H l g g'" "\<And>H'. extends H H' \<Longrightarrow> raft_inv H' g' \<Longrightarrow> small_log g' l \<Longrightarrow> rep_next H' l g' g''"
  shows "rep_next H l g g''"
proof -
  obtain H' where H': "extends H H'" "raft_inv H' g'" using rep_nextD(1) [OF assms(1)] by blast
  have "raft_next H (0 + 0) g g''"
    by (rule raft_next_trans [OF rep_nextD(3) [OF assms(1)]]) (use assms(2) rep_nextD(2,3) assms(1) in blast)
  moreover have "rep_next H' l g' g''" using assms(2) H' rep_nextD(2) [OF assms(1)] by blast
  ultimately show ?thesis using rep_nextD(4) [OF assms(1)] unfolding rep_next_def log_kept_def by fastforce
qed

text \<open>A call to a follower, then a change of the leader's soft state.\<close>

lemma rep_next_soft:
  assumes a: "append_done H g f lp res g1" and l: "pr_peers g l = Some lp" "l \<noteq> f" and sm: "small_log g l"
    and p': "mem_view p' = mem_view lp" "rp_node_id p' = rp_node_id lp" "rp_role lp = Leader"
    and m: "rp_match_index p' = rp_match_index lp \<or>
        rp_match_index p' = (rp_match_index lp)(f \<mapsto> length (rp_log lp)) \<and> ar_success res"
  shows "rep_next H l g (set_peer g1 l p')"
proof -
  obtain H' where H': "extends H H'" "raft_inv H' g1" "ar_success res \<longrightarrow> length (rp_log lp) \<le> ak H' f (rp_current_term lp)"
    and k: "kept {f} g g1" and t: "\<forall>M. terms_le g M \<longrightarrow> rp_current_term lp \<le> M \<longrightarrow> terms_le g1 M \<and> ar_term res \<le> M"
    using a unfolding append_done_def by blast
  have l1: "pr_peers g1 l = Some lp" using k l by (simp add: kept_def)
  have view: "rp_current_term p' = rp_current_term lp" "rp_log p' = rp_log lp" "rp_commit_index p' = rp_commit_index lp"
    using p'(1) by (simp_all add: mem_view_def)
  have "raft_inv H' (set_peer g1 l p')"
  proof (rule inv_set_soft [OF H'(2) l1 p'(1,2)])
    show "rp_role lp = Leader \<and> (\<forall>n i. rp_match_index p' n = Some i \<longrightarrow> i \<le> ak H' n (rp_current_term lp))"
      using p'(3) m H'(3) peer_okD(7) [OF raft_invD(5) [OF H'(2) l1] p'(3)] by (auto split: if_splits)
  qed
  moreover have "terms_le (set_peer g1 l p') M" if "terms_le g M" for M
  proof -
    have "terms_le g1 M" using t that terms_leD [OF that l(1)] by blast
    then show ?thesis using terms_leD [OF that l(1)] view by (auto simp: terms_le_def)
  qed
  ultimately have "raft_next H 0 g (set_peer g1 l p')"
    using H'(1) k unfolding raft_next_def by (auto simp: kept_def)
  then show ?thesis using sm l view by (auto simp: rep_next_def log_kept_def small_log_def)
qed

lemma rep_next_down:
  assumes a: "append_done H g f lp res g1" and l: "pr_peers g l = Some lp" "l \<noteq> f" and sm: "small_log g l"
    and t: "rp_current_term lp < ar_term res"
  shows "rep_next H l g (set_peer g1 l (become_follower lp (ar_term res)))"
proof -
  obtain H' where H': "extends H H'" "raft_inv H' g1"
    and k: "kept {f} g g1" and T: "\<forall>M. terms_le g M \<longrightarrow> rp_current_term lp \<le> M \<longrightarrow> terms_le g1 M \<and> ar_term res \<le> M"
    using a unfolding append_done_def by blast
  have l1: "pr_peers g1 l = Some lp" using k l by (simp add: kept_def)
  note st = become_follower_step [OF H'(2) l1 t]
  have "terms_le (set_peer g1 l (become_follower lp (ar_term res))) M" if "terms_le g M" for M
    using that T terms_leD [OF that l(1)] st by (auto simp: group_step_def)
  moreover have "raft_inv H' (set_peer g1 l (become_follower lp (ar_term res)))" using st by (simp add: group_step_def)
  ultimately have "raft_next H 0 g (set_peer g1 l (become_follower lp (ar_term res)))"
    using H'(1) k unfolding raft_next_def by (auto simp: kept_def)
  then show ?thesis using sm l by (auto simp: rep_next_def log_kept_def small_log_def become_follower_def)
qed

lemma back_off_soft:
  assumes "back_off p f c b = (m, p')"
  shows "mem_view p' = mem_view p" "rp_node_id p' = rp_node_id p" "rp_match_index p' = rp_match_index p"
  using assms by (auto simp: back_off_def Let_def mem_view_def split: if_splits)

lemma replicate_once_next:
  assumes inv: "raft_inv H g" and f: "f \<noteq> l" and sm: "small_log g l" and r: "replicate_once g l f = (res, g')"
  shows "rep_next H l g g'"
proof (cases "\<exists>p. pr_peers g l = Some p \<and> rp_role p = Leader")
  case False
  then have "g' = g" using r by (auto simp: replicate_once_def split: option.splits)
  then show ?thesis using rep_next_refl [OF inv sm] by simp
next
  case True
  then obtain lp where l: "pr_peers g l = Some lp" "rp_role lp = Leader" by blast
  define nx where "nx = (case rp_next_index lp f of None \<Rightarrow> 1 | Some n \<Rightarrow> n)"
  define pt where "pt = (case term_at lp (nx - 1) of None \<Rightarrow> 0 | Some t \<Rightarrow> t)"
  note wf = peer_okD(2) [OF raft_invD(5) [OF inv l(1)]]
  have len: "length (rp_log lp) < 2 ^ 64" using sm l by (simp add: small_log_def)
  obtain ar g1 where a: "append_entries g f l (rp_current_term lp) (nx - 1) pt (drop (nx - 1) (rp_log lp)) (rp_commit_index lp) = (ar, g1)"
    by fastforce
  note step = append_step [OF inv l len _ a]
  have sends: "sends lp (nx - 1) pt (drop (nx - 1) (rp_log lp))" by (simp add: sends_def pt_def)
  note ad = step(1) [OF sends]
  have l1: "pr_peers g1 l = Some lp" using ad l f unfolding append_done_def kept_def by auto
  let ?m = "if drop (nx - 1) (rp_log lp) = [] then nx - 1 else le_index (last (drop (nx - 1) (rp_log lp)))"
  have g': "g' = (if rp_current_term lp < ar_term ar then set_peer g1 l (become_follower lp (ar_term ar))
    else if ar_success ar then set_peer g1 l (lp\<lparr>rp_match_index := (rp_match_index lp)(f \<mapsto> ?m),
      rp_next_index := (rp_next_index lp)(f \<mapsto> add64 ?m 1)\<rparr>)
    else set_peer g1 l (snd (back_off lp f (ar_conflict_index ar) (drop (nx - 1) (rp_log lp) = [] \<and> nx - 1 = 0))))"
    using r l l1 a wf_filter [OF wf] by (auto simp: replicate_once_def Let_def nx_def pt_def split: prod.splits if_splits)
  have match: "?m = length (rp_log lp)" if "ar_success ar"
    using step(2) [OF sends that] wf by (auto simp: last_conv_nth wf_log_def)
  consider "rp_current_term lp < ar_term ar" | "\<not> rp_current_term lp < ar_term ar" "ar_success ar"
    | "\<not> rp_current_term lp < ar_term ar" "\<not> ar_success ar" by blast
  then show ?thesis
  proof cases
    case 1
    then show ?thesis using rep_next_down [OF ad l(1) f [symmetric] sm] g' by simp
  next
    case 2
    then show ?thesis using g' match by (auto simp: mem_view_def l(2) intro!: rep_next_soft [OF ad l(1) f [symmetric] sm])
  next
    case 3
    obtain m p' where b: "back_off lp f (ar_conflict_index ar) (drop (nx - 1) (rp_log lp) = [] \<and> nx - 1 = 0) = (m, p')" by fastforce
    show ?thesis using 3 g' rep_next_soft [OF ad l(1) f [symmetric] sm back_off_soft(1,2) [OF b] l(2)] back_off_soft(3) [OF b] b by simp
  qed
qed

lemma replicate_rounds_next:
  "raft_inv H g \<Longrightarrow> f \<noteq> l \<Longrightarrow> small_log g l \<Longrightarrow> replicate_rounds k g l f = (res, g') \<Longrightarrow> rep_next H l g g'"
proof (induction k arbitrary: H g)
  case 0
  then show ?case by (simp add: rep_next_refl)
next
  case (Suc k)
  obtain r g1 where r: "replicate_once g l f = (r, g1)" by fastforce
  note one = replicate_once_next [OF Suc.prems(1-3) r]
  show ?case
  proof (cases "r = Inr False")
    case True
    show ?thesis by (rule rep_next_trans [OF one]) (use Suc r True in auto)
  qed (use Suc.prems(4) r one in \<open>auto split: sum.splits bool.splits\<close>)
qed

lemma replicate_to_next:
  "raft_inv H g \<Longrightarrow> f \<noteq> l \<Longrightarrow> small_log g l \<Longrightarrow> replicate_to g l f = (res, g') \<Longrightarrow> rep_next H l g g'"
  unfolding replicate_to_def by (rule replicate_rounds_next)

lemma replicate_all_next:
  "raft_inv H g \<Longrightarrow> l \<notin> set fs \<Longrightarrow> small_log g l \<Longrightarrow> replicate_all g l i fs acked = (res, g') \<Longrightarrow> rep_next H l g g'"
proof (induction fs arbitrary: H g acked)
  case (Cons f fs)
  obtain r g1 where r: "replicate_to g l f = (r, g1)" by fastforce
  have one: "rep_next H l g g1" using replicate_to_next [OF Cons.prems(1) _ Cons.prems(3) r] Cons.prems(2) by auto
  show ?case
  proof (cases r)
    case (Inr u)
    show ?thesis by (rule rep_next_trans [OF one]) (use Cons r Inr in auto)
  qed (use Cons.prems(4) r one in auto)
qed (simp add: rep_next_refl)

lemma push_commit_next:
  "raft_inv H g \<Longrightarrow> small_log g l \<Longrightarrow> rep_next H l g (push_commit g l fs online)"
proof (induction fs arbitrary: H g)
  case (Cons f fs)
  let ?g1 = "if f = l \<or> f \<notin> set online then g else snd (replicate_to g l f)"
  have "rep_next H l g ?g1"
    using Cons.prems rep_next_refl replicate_to_next [OF Cons.prems(1) _ Cons.prems(2)] by (cases "replicate_to g l f") auto
  then show ?case using Cons.IH by (auto intro: rep_next_trans)
qed (simp add: rep_next_refl)

section \<open>Advancing the commit index\<close>

lemma candidate_chosen:
  assumes inv: "raft_inv H g" and p: "pr_peers g l = Some p" "rp_role p = Leader"
    and c: "commit_candidate g p n" and n: "0 < n" "n \<le> length (rp_log p)"
  shows "chosen (is_quorum (pr_voters g)) H (rp_current_term p) n"
proof -
  note ok = raft_invD(5) [OF inv p(1)]
  let ?A = "{v \<in> set (pr_voters g). n \<le> match_of p v}"
  have "card ?A = length (filter (\<lambda>v. n \<le> match_of p v) (pr_voters g))"
    using distinct_card [OF distinct_filter [OF raft_invD(1) [OF inv]]] by simp
  then have "is_quorum (pr_voters g) ?A"
    using c raft_quorum_eq [OF inv] by (auto simp: commit_candidate_def is_quorum_def)
  moreover have "n \<le> ak H v (rp_current_term p)" if "v \<in> ?A" for v
    using that n(1) peer_okD(7) [OF ok p(2)] by (fastforce simp: match_of_def split: option.splits)
  moreover have "own H (rp_current_term p) n"
    using c n peer_okD(4,6) [OF ok p(2)] by (auto simp: own_def commit_candidate_def term_at_def entry_at_def split: if_splits)
  ultimately show ?thesis unfolding chosen_def by blast
qed

lemma inv_commit:
  assumes inv: "raft_inv H g" and p: "pr_peers g l = Some p" "rp_role p = Leader"
    and c: "commit_candidate g p n" and n: "rp_commit_index p < n" "n \<le> length (rp_log p)"
  shows "raft_inv H (set_peer g l (p\<lparr>rp_commit_index := n\<rparr>))"
proof (rule inv_set_peer [OF inv p(1)])
  note ok = raft_invD(5) [OF inv p(1)] and v = mem_view_ok [OF inv p(1)]
  show "peer_ok H l (p\<lparr>rp_commit_index := n\<rparr>)" using ok by (auto simp: peer_ok_def)
  have "chosen (is_quorum (pr_voters g)) H (rp_current_term p) n" using candidate_chosen [OF inv p c] n by simp
  then have "commit_ok (is_quorum (pr_voters g)) H (mem_view (p\<lparr>rp_commit_index := n\<rparr>))"
    using n(2) peer_okD(6) [OF ok p(2)] unfolding commit_ok_def
    by (intro conjI disjI2 exI [of _ "rp_current_term p"] exI [of _ n]) simp_all
  then show "view_ok (is_quorum (pr_voters g)) H (group_views g) l (mem_view (p\<lparr>rp_commit_index := n\<rparr>))"
    using v by (simp add: view_ok_def)
qed (use n(1) in \<open>auto simp: hard_le_def\<close>)

lemma find_SomeD: "find P xs = Some x \<Longrightarrow> P x \<and> x \<in> set xs"
  by (auto simp: find_Some_iff)

lemma advance_commit_step:
  assumes inv: "raft_inv H g"
  shows "group_step H {l} 0 g (advance_commit g l)"
    "pr_peers g l = Some p \<Longrightarrow> \<exists>p'. pr_peers (advance_commit g l) l = Some p' \<and> rp_log p' = rp_log p
       \<and> (rp_commit_index p' = rp_commit_index p \<or> rp_commit_index p' \<le> length (rp_log p) \<and> led H (rp_current_term p) = rp_log p
          \<and> chosen (is_quorum (pr_voters g)) H (rp_current_term p) (rp_commit_index p'))"
proof -
  have "group_step H {l} 0 g (advance_commit g l) \<and> (pr_peers g l = Some p \<longrightarrow>
    (\<exists>p'. pr_peers (advance_commit g l) l = Some p' \<and> rp_log p' = rp_log p
       \<and> (rp_commit_index p' = rp_commit_index p \<or> rp_commit_index p' \<le> length (rp_log p) \<and> led H (rp_current_term p) = rp_log p
          \<and> chosen (is_quorum (pr_voters g)) H (rp_current_term p) (rp_commit_index p'))))"
  proof (cases "advance_commit g l = g")
    case True
    then show ?thesis using inv by (auto simp: group_step_def)
  next
    case False
    then obtain q n where p: "pr_peers g l = Some q" "rp_role q = Leader" "rp_commit_index q < n"
      and fd: "find (commit_candidate g q) (rev [add64 (rp_commit_index q) 1..<Suc (last_log_index q)]) = Some n"
      and g': "advance_commit g l = snd (flush_peer (set_peer g l (q\<lparr>rp_commit_index := n\<rparr>)) l)"
      by (auto simp: advance_commit_def split: option.splits if_splits)
    have "commit_candidate g q n" "n \<in> set [add64 (rp_commit_index q) 1..<Suc (last_log_index q)]"
      using find_SomeD [OF fd] by (simp_all only: set_rev)
    then have n: "commit_candidate g q n" "n \<le> length (rp_log q)"
      using wf_last_index [OF peer_okD(2) [OF raft_invD(5) [OF inv p(1)]]] by auto
    obtain ok g1 where f: "flush_peer (set_peer g l (q\<lparr>rp_commit_index := n\<rparr>)) l = (ok, g1)" by fastforce
    note k = inv_flush [OF inv_commit [OF inv p(1,2) n(1) p(3) n(2)] f]
    have "terms_le g1 M" if "terms_le g M" for M using that k(3) p(1) by (auto simp: terms_le_def)
    then have "group_step H {l} 0 g g1"
      using k(1) only_at_kept [OF only_at_trans [OF only_at_set_peer k(2)]] by (simp add: group_step_def)
    moreover have "chosen (is_quorum (pr_voters g)) H (rp_current_term q) n" using candidate_chosen [OF inv p(1,2) n(1) _ n(2)] p(3) by simp
    ultimately show ?thesis using p(1) k(3) g' f n(2) peer_okD(6) [OF raft_invD(5) [OF inv p(1)] p(2)] by auto
  qed
  then show "group_step H {l} 0 g (advance_commit g l)"
    "pr_peers g l = Some p \<Longrightarrow> \<exists>p'. pr_peers (advance_commit g l) l = Some p' \<and> rp_log p' = rp_log p
       \<and> (rp_commit_index p' = rp_commit_index p \<or> rp_commit_index p' \<le> length (rp_log p) \<and> led H (rp_current_term p) = rp_log p
          \<and> chosen (is_quorum (pr_voters g)) H (rp_current_term p) (rp_commit_index p'))"
    by blast+
qed

section \<open>Proposing\<close>

text \<open>The ledger of a term grows by an entry of its leader.\<close>

lemma raft_inv_grown:
  assumes inv: "raft_inv H g" and at: "only_at n g g'" and gr: "growth H (group_views g) (group_views g') n t e a"
    and p': "pr_peers g' n = Some p'" "peer_ok (grown H n t e a) n p'"
    and st: "\<And>st. pr_stores g' n = Some st \<Longrightarrow> store_ok (pr_voters g) n p' st" and p: "pr_peers g n = Some p"
  shows "raft_inv (grown H n t e a) g'" "extends H (grown H n t e a)"
proof -
  let ?H = "grown H n t e a"
  have voters: "pr_voters g' = pr_voters g" and other: "m \<noteq> n \<Longrightarrow> pr_peers g' m = pr_peers g m \<and> pr_stores g' m = pr_stores g m" for m
    using at by (auto simp: only_at_def)
  note lok = ledger_invD(1) [OF raft_invD(8) [OF inv]]
  show ext: "extends H ?H" by (rule grown_extends [OF lok gr])
  have "ledger_inv (is_quorum (pr_voters g)) ?H (group_views g')" by (rule majority.inv_grown [OF raft_invD(8) [OF inv] gr])
  moreover have "peer_ok ?H m q" if "pr_peers g' m = Some q" for m q
  proof (cases "m = n")
    case False
    have "peer_ok H m q" using that False other raft_invD(5) [OF inv] by simp
    then show ?thesis using gr False islog_mono [OF _ ext]
      unfolding peer_ok_def growth_def by (auto simp: grown_simps simp del: not_None_eq)
  qed (use that p' in simp)
  moreover have "\<forall>m. pr_peers g' m \<noteq> None \<longleftrightarrow> m \<in> set (pr_voters g)"
    using inv other p p' unfolding raft_inv_def by (metis option.distinct(1))
  moreover have "\<exists>q. pr_peers g' m = Some q \<and> store_ok (pr_voters g) m q s" if "pr_stores g' m = Some s" for m s
    using that st p' other inv unfolding raft_inv_def by (cases "m = n") auto
  ultimately show "raft_inv ?H g'" using raft_invD(1,2) [OF inv] unfolding raft_inv_def voters by blast
qed

lemma view_ok_snoc:
  assumes "view_ok Q H V n v" "v_log v = led H t" "lg H t \<noteq> None" "ld H t = n" "le_term e = t"
  shows "view_ok Q H V n (v\<lparr>v_log := led H t @ [e]\<rparr>)"
proof -
  have "dangling H n (led H t @ [e])" using assms(3-5) unfolding dangling_def by blast
  moreover have "acks_ok Q H V n (led H t @ [e])"
    using view_okD(3) [OF assms(1)] assms(2) prefix_prefix unfolding acks_ok_def by metis
  moreover have "commit_ok Q H (v\<lparr>v_log := led H t @ [e]\<rparr>)"
    using view_okD(2) [OF assms(1)] assms(2) unfolding commit_ok_def by auto
  ultimately show ?thesis using view_okD(4) [OF assms(1)] unfolding view_ok_def by simp
qed

text \<open>The leader with a new entry, and the group once it tried to flush it.\<close>

definition with_entry :: "raft_peer \<Rightarrow> log_command \<Rightarrow> log_entry \<Rightarrow> raft_peer \<Rightarrow> bool" where
  "with_entry p c e p1 \<longleftrightarrow> e = \<lparr>le_term = rp_current_term p, le_index = Suc (length (rp_log p)), le_command = c\<rparr>
     \<and> p1 = p\<lparr>rp_log := rp_log p @ [e], rp_match_index := (rp_match_index p)(rp_node_id p \<mapsto> Suc (length (rp_log p))),
         rp_next_index := rp_next_index p1\<rparr>"

lemma with_entryD:
  assumes "with_entry p c e p1"
  shows "rp_log p1 = rp_log p @ [e]" "rp_current_term p1 = rp_current_term p" "rp_voted_for p1 = rp_voted_for p"
    "rp_commit_index p1 = rp_commit_index p" "rp_role p1 = rp_role p" "rp_node_id p1 = rp_node_id p"
    "rp_match_index p1 = (rp_match_index p)(rp_node_id p \<mapsto> Suc (length (rp_log p)))"
    "le_term e = rp_current_term p" "le_index e = Suc (length (rp_log p))" "le_command e = c"
    "mem_view p1 = (mem_view p)\<lparr>v_log := rp_log p @ [e]\<rparr>"
proof -
  have e: "e = \<lparr>le_term = rp_current_term p, le_index = Suc (length (rp_log p)), le_command = c\<rparr>"
    and p1: "p1 = p\<lparr>rp_log := rp_log p @ [e], rp_match_index := (rp_match_index p)(rp_node_id p \<mapsto> Suc (length (rp_log p))),
         rp_next_index := rp_next_index p1\<rparr>"
    using assms unfolding with_entry_def by blast+
  show "le_term e = rp_current_term p" "le_index e = Suc (length (rp_log p))" "le_command e = c" by (simp_all add: e)
  show "rp_log p1 = rp_log p @ [e]" "rp_current_term p1 = rp_current_term p" "rp_voted_for p1 = rp_voted_for p"
    "rp_commit_index p1 = rp_commit_index p" "rp_role p1 = rp_role p" "rp_node_id p1 = rp_node_id p"
    "rp_match_index p1 = (rp_match_index p)(rp_node_id p \<mapsto> Suc (length (rp_log p)))"
    by (subst p1, simp)+
  then show "mem_view p1 = (mem_view p)\<lparr>v_log := rp_log p @ [e]\<rparr>" by (simp add: mem_view_def)
qed

lemma inv_entry_durable:
  assumes inv: "raft_inv H g" and p: "pr_peers g l = Some p" "rp_role p = Leader" and c: "cmd_subject c \<noteq> SNAPSHOT_BASE"
    and w: "with_entry p c e p1" and f: "flush_peer (set_peer g l p1) l = (True, g1)"
  shows "\<exists>H'. extends H H' \<and> raft_inv H' g1" "only_at l g g1" "pr_peers g1 l = Some p1"
proof -
  note ok = raft_invD(5) [OF inv p(1)] and w = with_entryD [OF w]
  let ?T = "rp_current_term p" and ?L = "rp_log p"
  note L = peer_okD(4,5,6) [OF ok p(2)]
  have wf1: "wf_log (rp_log p1)" using peer_okD(2) [OF ok] w c by (simp add: wf_log_snoc)
  have sn: "\<forall>st. pr_stores (set_peer g l p1) l = Some st \<longrightarrow> st_snapshot st = None"
    using raft_invD(6) [OF inv _ p(1)] by (auto simp: store_ok_def)
  have p1: "pr_peers (set_peer g l p1) l = Some p1" by simp
  note fs = flush_peer_step [OF f p1 wf1 sn]
  show at: "only_at l g g1" using only_at_trans [OF only_at_set_peer fs(1)] .
  show p1: "pr_peers g1 l = Some p1" using fs(2) by simp
  have views: "v = (mem_view p)\<lparr>v_log := ?L @ [e]\<rparr>" if "v \<in> group_views g1 l" for v
    using group_views_cases [OF that] p1 fs(3) save_step_flushed w(11) by auto
  let ?H = "grown H l ?T e (Suc (length ?L))"
  have gr: "growth H (group_views g) (group_views g1) l ?T e (Suc (length ?L))"
    unfolding growth_def
  proof (intro conjI ballI allI impI disjI2)
    fix v assume "v \<in> group_views g1 l"
    then show "\<exists>u \<in> group_views g l. (v_log u = led H ?T \<or> v_log u = led H ?T @ [e]) \<and> v = u\<lparr>v_log := led H ?T @ [e]\<rparr>"
      using views group_views_mem [OF p(1)] L(3) by (intro bexI [of _ "mem_view p"]) auto
  next
    fix m assume "m \<noteq> l" then show "group_views g1 m = group_views g m" using at by (simp add: only_at_def group_views_def)
  qed (use L w group_views_mem [OF p(1)] views in \<open>auto intro!: bexI [of _ "mem_view p"]\<close>)
  have "islog ?H (?L @ [e])" using grown_islog [OF ledger_invD(1) [OF raft_invD(8) [OF inv]] gr] L(3) by simp
  then have ok1: "peer_ok ?H l p1" using L wf1 w peer_okD(1) [OF ok] peer_okD(7) [OF ok p(2)] p(2)
    unfolding peer_ok_def by (auto simp: grown_simps simp del: not_None_eq)
  have st1: "store_ok (pr_voters g) l p1 st" if st: "pr_stores g1 l = Some st" for st
  proof -
    obtain s where s: "pr_stores g l = Some s" "st = s\<lparr>st_log := rp_log p1, st_hard_state := saved_hard_state p1\<rparr>"
      using fs(3) [OF st] by (auto simp: save_step_def)
    have "rp_commit_index p \<le> length ?L" using view_okD(2) [OF mem_view_ok [OF inv p(1)]] by (simp add: commit_ok_def)
    then show ?thesis using raft_invD(6) [OF inv s(1) p(1)] wf1 s(2) w by (simp add: store_ok_def saved_hard_state_def)
  qed
  show "\<exists>H'. extends H H' \<and> raft_inv H' g1" using raft_inv_grown [OF inv at gr p1 ok1 st1 p(1)] by blast
qed

text \<open>A flush that failed: the disk may hold the entry, the memory gave it up.\<close>

lemma inv_entry_lost:
  assumes inv: "raft_inv H g" and p: "pr_peers g l = Some p" "rp_role p = Leader" and c: "cmd_subject c \<noteq> SNAPSHOT_BASE"
    and w: "with_entry p c e p1" and f: "flush_peer (set_peer g l p1) l = (False, g1)"
    and p2: "mem_view p2 = mem_view p" "rp_node_id p2 = rp_node_id p"
      "rp_match_index p2 = (rp_match_index p)(l \<mapsto> length (rp_log p))"
  shows "raft_inv H (set_peer g1 l p2)" "only_at l g (set_peer g1 l p2)"
proof -
  note ok = raft_invD(5) [OF inv p(1)] and w = with_entryD [OF w] and m = mem_view_ok [OF inv p(1)]
  note L = peer_okD(4,5,6) [OF ok p(2)]
  let ?Q = "is_quorum (pr_voters g)"
  have wf1: "wf_log (rp_log p1)" using peer_okD(2) [OF ok] w c by (simp add: wf_log_snoc)
  have sn: "\<forall>st. pr_stores (set_peer g l p1) l = Some st \<longrightarrow> st_snapshot st = None"
    using raft_invD(6) [OF inv _ p(1)] by (auto simp: store_ok_def)
  have p1: "pr_peers (set_peer g l p1) l = Some p1" by simp
  note fs = flush_peer_step [OF f p1 wf1 sn]
  show at: "only_at l g (set_peer g1 l p2)" using only_at_trans [OF only_at_trans [OF only_at_set_peer fs(1)] only_at_set_peer] .
  have view: "rp_current_term p2 = rp_current_term p" "rp_log p2 = rp_log p" "rp_commit_index p2 = rp_commit_index p"
    using p2(1) by (simp_all add: mem_view_def)
  have le: "rp_commit_index p \<le> length (rp_log p)" using view_okD(2) [OF m] by (simp add: commit_ok_def)
  have ok2: "peer_ok H l p2"
    using ok view p2(2,3) peer_okD(7,8) [OF ok p(2)] p(2) by (auto simp: peer_ok_def)
  show "raft_inv H (set_peer g1 l p2)"
  proof (rule raft_inv_node [OF inv at p(1) _ ok2])
    fix st assume "pr_stores (set_peer g1 l p2) l = Some st"
    then obtain s where s: "pr_stores g l = Some s" "save_step p1 False s st" using fs(3) by auto
    then show "store_ok (pr_voters g) l p2 st"
      using raft_invD(6) [OF inv s(1) p(1)] wf1 w(1,4) view le by (auto simp: save_step_def store_ok_def saved_hard_state_def)
  next
    fix v assume "v \<in> group_views (set_peer g1 l p2) l"
    then consider "v = mem_view p" | st where "pr_stores g1 l = Some st" "v = disk_view st"
      using group_views_cases p2(1) by fastforce
    then show "view_ok ?Q H (group_views g) l v \<and> (\<exists>u \<in> group_views g l. hard_le H u v)"
    proof cases
      case 1
      then show ?thesis using m group_views_mem [OF p(1)] hard_le_refl by blast
    next
      case 2
      obtain s where s: "pr_stores g l = Some s" "save_step p1 False s st" using fs(3) [OF 2(1)] by auto
      have "v_commit (disk_view s) \<le> v_commit (mem_view p)" using raft_invD(6) [OF inv s(1) p(1)] by (simp add: store_ok_def)
      note mx = view_ok_mixed [OF raft_invD(8) [OF inv] disk_view_ok [OF inv s(1)] m this]
      have "v = disk_view s \<or> v = (disk_view s)\<lparr>v_log := rp_log p @ [e]\<rparr> \<or> v = (mem_view p)\<lparr>v_log := rp_log p @ [e]\<rparr>"
        using flush_views [of st s p1] s(2) 2(2) w(1,11) unfolding save_step_def by auto
      moreover have "view_ok ?Q H (group_views g) l ((disk_view s)\<lparr>v_log := rp_log p @ [e]\<rparr>)"
        using view_ok_snoc [OF mx, of "rp_current_term p" e] L w(8) by simp
      moreover have "view_ok ?Q H (group_views g) l ((mem_view p)\<lparr>v_log := rp_log p @ [e]\<rparr>)"
        using view_ok_snoc [OF m, of "rp_current_term p" e] L w(8) by simp
      moreover have "hard_le H u (u\<lparr>v_log := k\<rparr>)" for u k by (simp add: hard_le_def)
      ultimately show ?thesis
        using disk_view_ok [OF inv s(1)] group_views_mem [OF p(1)] group_views_disk [OF s(1)] hard_le_refl by metis
    qed
  qed simp
qed

text \<open>The whole proposal. A committed one is chosen: no later ledger misses it.\<close>

definition room :: "partition_raft \<Rightarrow> node_id \<Rightarrow> bool" where
  "room g l \<longleftrightarrow> (\<forall>p. pr_peers g l = Some p \<longrightarrow> length (rp_log p) + 1 < 2 ^ 64)"

definition settled :: "ledgers \<Rightarrow> node_id list \<Rightarrow> log_entry \<Rightarrow> propose_result \<Rightarrow> bool" where
  "settled H voters e r \<longleftrightarrow> po_entry r = e \<and> po_position r = le_index e \<and> po_term r = le_term e
     \<and> (po_committed r \<longrightarrow> chosen (is_quorum voters) H (le_term e) (le_index e) \<and> led H (le_term e) ! (le_index e - 1) = e)"

lemma settled_extends:
  assumes "settled H vs e r" "extends H H'" shows "settled H' vs e r"
proof -
  have "led H' (le_term e) ! (le_index e - 1) = e" if c: "chosen (is_quorum vs) H (le_term e) (le_index e)" "led H (le_term e) ! (le_index e - 1) = e"
  proof -
    have o: "own H (le_term e) (le_index e)" using c(1) by (simp add: chosen_def)
    then have "prefix (led H (le_term e)) (led H' (le_term e))" using assms(2) by (simp add: extends_def own_def)
    then show ?thesis using c(2) prefix_nth own_lt [OF o] by metis
  qed
  then show ?thesis using assms(1) chosen_extends [OF _ assms(2)] unfolding settled_def by blast
qed

lemma commit_settled:
  assumes inv: "raft_inv H g" and p: "pr_peers g l = Some p" "rp_log p = L @ [e]" "rp_commit_index p \<le> length L"
    and e: "le_index e = Suc (length L)" and c: "le_index e \<le> commit_index_of (advance_commit g l) l"
  shows "chosen (is_quorum (pr_voters g)) H (le_term e) (le_index e) \<and> led H (le_term e) ! (le_index e - 1) = e"
proof -
  obtain p' where p': "pr_peers (advance_commit g l) l = Some p'"
    and d: "rp_commit_index p' = rp_commit_index p \<or> rp_commit_index p' \<le> length (rp_log p) \<and> led H (rp_current_term p) = rp_log p
          \<and> chosen (is_quorum (pr_voters g)) H (rp_current_term p) (rp_commit_index p')"
    using advance_commit_step(2) [OF inv p(1)] by blast
  have "rp_commit_index p' = le_index e" and h: "led H (rp_current_term p) = L @ [e]"
    and ch: "chosen (is_quorum (pr_voters g)) H (rp_current_term p) (le_index e)"
    using d c e p p' by (auto simp: commit_index_of_def)
  have "le_term e = rp_current_term p" using ch h e by (auto simp: chosen_def own_def)
  then show ?thesis using ch h e by simp
qed

lemma propose_replicate_next:
  assumes inv: "raft_inv H g" and sm: "small_log g l" and p: "pr_peers g l = Some p" "rp_log p = L @ [e]" "rp_commit_index p \<le> length L"
    and e: "le_index e = Suc (length L)" and r: "propose_replicate g l e online = (res, g')"
  shows "\<exists>H'. extends H H' \<and> raft_inv H' g' \<and> pr_voters g' = pr_voters g \<and> (\<forall>x. res = Inr x \<longrightarrow> settled H' (pr_voters g) e x)"
proof -
  obtain ra g1 where ra: "replicate_all g l (le_index e) (filter (\<lambda>v. v \<noteq> l \<and> v \<in> set online) (pr_voters g)) [l] = (ra, g1)" by fastforce
  have n1: "rep_next H l g g1" by (rule replicate_all_next [OF inv _ sm ra]) simp
  obtain H1 where H1: "extends H H1" "raft_inv H1 g1" using rep_nextD(1) [OF n1] by blast
  note v1 = rep_nextD(5) [OF n1]
  show ?thesis
  proof (cases ra)
    case (Inl err)
    then show ?thesis using r ra H1 v1 by (auto simp: propose_replicate_def)
  next
    case (Inr acked)
    let ?g2 = "advance_commit g1 l"
    let ?g3 = "push_commit ?g2 l (pr_voters ?g2) online"
    obtain p1 where p1: "pr_peers g1 l = Some p1" "rp_log p1 = L @ [e]" "rp_commit_index p1 \<le> length L"
      using rep_nextD(4) [OF n1] p by (auto simp: log_kept_def)
    note a = advance_commit_step(1) [OF H1(2), of l] advance_commit_step(2) [OF H1(2) p1(1)]
    have i2: "raft_inv H1 ?g2" "pr_voters ?g2 = pr_voters g" using a(1) v1 by (simp_all add: group_step_def kept_def)
    have "small_log ?g2 l" using a(2) rep_nextD(2) [OF n1] p1(1) by (auto simp: small_log_def)
    note n3 = push_commit_next [OF i2(1) this, of "pr_voters ?g2" online]
    have g': "g' = (if le_index e \<le> commit_index_of ?g2 l then ?g3 else ?g2)"
      and x: "\<And>x. res = Inr x \<Longrightarrow> po_entry x = e \<and> po_position x = le_index e \<and> po_term x = le_term e
        \<and> po_committed x = (le_index e \<le> commit_index_of ?g2 l)"
      using r ra Inr by (auto simp: propose_replicate_def Let_def)
    have s: "settled H1 (pr_voters g) e x" if "res = Inr x" for x
      using x [OF that] commit_settled [OF H1(2) p1 e] v1 unfolding settled_def by auto
    show ?thesis
    proof (cases "g' = ?g2")
      case True
      then show ?thesis using H1(1) i2 s by blast
    next
      case False
      then have "g' = ?g3" using g' by presburger
      moreover obtain H3 where "extends H1 H3" "raft_inv H3 ?g3" using rep_nextD(1) [OF n3] by blast
      ultimately show ?thesis using H1(1) s settled_extends extends_trans rep_nextD(5) [OF n3] i2(2) by metis
    qed
  qed
qed

lemma flush_peer_peers: "flush_peer g n = (ok, g') \<Longrightarrow> pr_peers g' = pr_peers g"
  by (auto simp: flush_peer_def Let_def split: option.splits prod.splits)

lemma propose_cases:
  assumes inv: "raft_inv H g" and p: "pr_peers g l = Some p" "rp_role p = Leader" and room: "room g l"
    and r: "propose g l c online = (res, g')"
  shows "\<exists>e p1 ok g1. with_entry p c e p1 \<and> flush_peer (set_peer g l p1) l = (ok, g1)
    \<and> (ok \<longrightarrow> propose_replicate g1 l e online = (res, g'))
    \<and> (\<not> ok \<longrightarrow> res = Inl ProposePersistFailed \<and> (\<exists>p2. g' = set_peer g1 l p2 \<and> mem_view p2 = mem_view p
      \<and> rp_node_id p2 = rp_node_id p \<and> rp_match_index p2 = (rp_match_index p)(l \<mapsto> length (rp_log p))))"
proof -
  note ok = raft_invD(5) [OF inv p(1)]
  have i: "add64 (last_log_index p) 1 = Suc (length (rp_log p))" and id: "rp_node_id p = l"
    using wf_last_index [OF peer_okD(2) [OF ok]] room p peer_okD(1) [OF ok] by (auto simp: room_def add64_def)
  define e where "e = \<lparr>le_term = rp_current_term p, le_index = Suc (length (rp_log p)), le_command = c\<rparr>"
  define p1 where "p1 = p\<lparr>rp_log := rp_log p @ [e], rp_match_index := (rp_match_index p)(l \<mapsto> Suc (length (rp_log p))),
    rp_next_index := (rp_next_index p)(l \<mapsto> add64 (Suc (length (rp_log p))) 1)\<rparr>"
  obtain fok g1 where f: "flush_peer (set_peer g l p1) l = (fok, g1)" by fastforce
  have w: "with_entry p c e p1" unfolding with_entry_def by (auto simp: e_def p1_def id)
  have last: "last_log_index p1 = Suc (length (rp_log p))" by (simp add: last_log_index_def p1_def e_def)
  have b: "last_log_index (p1\<lparr>rp_log := rp_log p\<rparr>) = length (rp_log p)"
    using wf_last_index [OF peer_okD(2) [OF ok]] by (auto simp: last_log_index_def split: if_splits)
  have "propose_replicate g1 l e online = (res, g')" if fok
    using r p i that f by (simp add: propose_def Let_def e_def [symmetric] p1_def [symmetric] del: One_nat_def)
  moreover have "res = Inl ProposePersistFailed \<and> (\<exists>p2. g' = set_peer g1 l p2 \<and> mem_view p2 = mem_view p
      \<and> rp_node_id p2 = rp_node_id p \<and> rp_match_index p2 = (rp_match_index p)(l \<mapsto> length (rp_log p)))"
    if "\<not> fok"
  proof -
    have "pr_peers g1 l = Some p1" using flush_peer_peers [OF f] by simp
    note that = that this
    have "rp_log p1 = rp_log p @ [e]" by (simp add: p1_def)
    then have "res = Inl ProposePersistFailed" and g': "g' = set_peer g1 l (p1\<lparr>rp_log := rp_log p,
      rp_match_index := (rp_match_index p1)(l \<mapsto> length (rp_log p)), rp_next_index := (rp_next_index p1)(l \<mapsto> add64 (length (rp_log p)) 1)\<rparr>)"
      using r p i that f last b by (simp_all add: propose_def Let_def e_def [symmetric] p1_def [symmetric] del: One_nat_def)
    then show ?thesis by (auto simp: mem_view_def p1_def)
  qed
  ultimately show ?thesis using w f by blast
qed

lemma propose_next:
  assumes inv: "raft_inv H g" and c: "cmd_subject c \<noteq> SNAPSHOT_BASE" and room: "room g l" and r: "propose g l c online = (res, g')"
  shows "\<exists>H'. extends H H' \<and> raft_inv H' g' \<and> pr_voters g' = pr_voters g
     \<and> (\<forall>x. res = Inr x \<longrightarrow> settled H' (pr_voters g) (po_entry x) x \<and> le_command (po_entry x) = c)"
proof (cases "\<exists>p. pr_peers g l = Some p \<and> rp_role p = Leader")
  case False
  then have "g' = g" "res = Inl NotLeader" using r by (auto simp: propose_def split: option.splits)
  then show ?thesis using inv extends_refl by blast
next
  case True
  then obtain p where p: "pr_peers g l = Some p" "rp_role p = Leader" by blast
  obtain e p1 ok g1 where w: "with_entry p c e p1"
    and f: "flush_peer (set_peer g l p1) l = (ok, g1)" and yes: "ok \<longrightarrow> propose_replicate g1 l e online = (res, g')"
    and no: "\<not> ok \<longrightarrow> res = Inl ProposePersistFailed \<and> (\<exists>p2. g' = set_peer g1 l p2 \<and> mem_view p2 = mem_view p
      \<and> rp_node_id p2 = rp_node_id p \<and> rp_match_index p2 = (rp_match_index p)(l \<mapsto> length (rp_log p)))"
    using propose_cases [OF inv p room r] by blast
  note we = with_entryD [OF w]
  show ?thesis
  proof (cases ok)
    case True
    then have f': "flush_peer (set_peer g l p1) l = (True, g1)" using f by simp
    obtain H1 where H1: "extends H H1" "raft_inv H1 g1" and at: "only_at l g g1" "pr_peers g1 l = Some p1"
      using inv_entry_durable [OF inv p c w f'] by blast
    have sm: "small_log g1 l" using room p(1) at(2) we(1) by (simp add: small_log_def room_def)
    have le: "rp_commit_index p1 \<le> length (rp_log p)" using view_okD(2) [OF mem_view_ok [OF inv p(1)]] we(4) by (simp add: commit_ok_def)
    obtain H' where H': "extends H1 H'" "raft_inv H' g'" "pr_voters g' = pr_voters g1" "\<forall>x. res = Inr x \<longrightarrow> settled H' (pr_voters g1) e x"
      using propose_replicate_next [OF H1(2) sm at(2) we(1) le we(9) mp [OF yes True]] by blast
    have "pr_voters g1 = pr_voters g" using at(1) by (simp add: only_at_def)
    moreover have "\<forall>x. res = Inr x \<longrightarrow> po_entry x = e" using H'(4) by (simp add: settled_def)
    ultimately show ?thesis using H' H1(1) extends_trans we(10) by (intro exI [of _ H']) auto
  next
    case False
    then have f': "flush_peer (set_peer g l p1) l = (False, g1)" using f by simp
    obtain p2 where p2: "g' = set_peer g1 l p2" "mem_view p2 = mem_view p" "rp_node_id p2 = rp_node_id p"
        "rp_match_index p2 = (rp_match_index p)(l \<mapsto> length (rp_log p))" and res: "res = Inl ProposePersistFailed"
      using no False by blast
    have "raft_inv H g'" "pr_voters g' = pr_voters g"
      using inv_entry_lost(1,2) [OF inv p c w f' p2(2-4)] p2(1) by (auto simp: only_at_def)
    then show ?thesis using res extends_refl by blast
  qed
qed

end
