(* ===== verification/Raft_Safety.thy ===== *)
theory Raft_Safety
  imports Raft_Replication "HOL-Library.Code_Target_Nat"
begin

text \<open>
  Safety of a partition's Raft group over whole runs: elections, proposals, applying, flushes that may
  fail in any of their ways, and restarts of a peer from its store, in any order.
\<close>

section \<open>How a group evolves\<close>

definition evolves :: "ledgers \<Rightarrow> partition_raft \<Rightarrow> partition_raft \<Rightarrow> bool" where
  "evolves H g g' \<longleftrightarrow> pr_voters g' = pr_voters g \<and> (\<exists>H'. extends H H' \<and> raft_inv H' g')"

lemma evolves_inv: "raft_inv H g' \<Longrightarrow> pr_voters g' = pr_voters g \<Longrightarrow> evolves H g g'"
  using extends_refl unfolding evolves_def by blast

lemma evolves_trans:
  "evolves H g g' \<Longrightarrow> (\<And>H'. extends H H' \<Longrightarrow> raft_inv H' g' \<Longrightarrow> evolves H' g' g'') \<Longrightarrow> evolves H g g''"
  unfolding evolves_def using extends_trans by metis

lemma raft_next_evolves: "raft_next H k g g' \<Longrightarrow> evolves H g g'"
  by (simp add: raft_next_def evolves_def)

lemma raft_inv_cong:
  assumes "pr_voters g' = pr_voters g" "pr_peers g' = pr_peers g" "pr_stores g' = pr_stores g"
  shows "raft_inv H g' \<longleftrightarrow> raft_inv H g"
proof -
  have "group_views g' = group_views g" using assms by (intro ext) (simp add: group_views_def)
  then show ?thesis using assms by (simp add: raft_inv_def)
qed

section \<open>Restarting a peer from its store\<close>

lemma load_peer_view:
  assumes "store_ok vs n p st"
  shows "mem_view (load_peer st) = disk_view st" "rp_log (load_peer st) = st_log st" "rp_role (load_peer st) = Follower"
    "rp_node_id (load_peer st) = n" "rp_commit_index (load_peer st) = hs_commit_index (st_hard_state st)"
proof -
  have s: "st_snapshot st = None" "wf_log (st_log st)" "st_node st = n" "hs_commit_index (st_hard_state st) \<le> length (st_log st)"
    using assms by (auto simp: store_ok_def)
  then have "(if st_log st \<noteq> [] then le_index (last (st_log st)) else 0) = length (st_log st)"
    by (auto simp: wf_log_def last_conv_nth)
  then show "rp_commit_index (load_peer st) = hs_commit_index (st_hard_state st)" and "rp_log (load_peer st) = st_log st"
    and "mem_view (load_peer st) = disk_view st"
    using s by (simp_all add: load_peer_def mem_view_def disk_view_def Let_def split: if_splits)
qed (use assms in \<open>simp_all add: load_peer_def Let_def store_ok_def\<close>)

lemma restart_next:
  assumes inv: "raft_inv H g"
  shows "evolves H g (restore_peer_from_store g n)"
proof (cases "pr_stores g n")
  case None
  then show ?thesis using evolves_inv [OF inv] by (simp add: restore_peer_from_store_def)
next
  case (Some st)
  obtain p where p: "pr_peers g n = Some p" using raft_invD(7) [OF inv Some] by blast
  note so = raft_invD(6) [OF inv Some p]
  let ?p = "load_peer st" let ?g = "set_peer g n ?p"
  note lp = load_peer_view [OF so]
  have views: "v = disk_view st" if "v \<in> group_views ?g n" for v
    using group_views_cases [OF that] Some lp(1) by auto
  have so': "store_ok (pr_voters g) n ?p st" using so lp(5) by (simp add: store_ok_def)
  have wf: "wf_log (st_log st)" using so by (simp add: store_ok_def)
  note dv = disk_view_ok [OF inv Some] and dm = group_views_disk [OF Some]
  have "\<exists>H'. extends H H' \<and> raft_inv H' ?g"
  proof (cases "islog H (st_log st)")
    case True
    have "raft_inv H ?g"
    proof (rule raft_inv_node [OF inv only_at_set_peer p])
      show "peer_ok H n ?p" using True wf lp by (simp add: peer_ok_def)
      fix v assume "v \<in> group_views ?g n"
      then have "v = disk_view st" by (rule views)
      then show "view_ok (is_quorum (pr_voters g)) H (group_views g) n v \<and> (\<exists>u \<in> group_views g n. hard_le H u v)"
        using dv dm hard_le_refl by blast
    qed (use Some so' in auto)
    then show ?thesis using extends_refl by blast
  next
    case False
    then obtain t e where d: "lg H t \<noteq> None" "ld H t = n" "le_term e = t" "st_log st = led H t @ [e]"
      using view_okD(1) [OF dv] by (auto simp: dangling_def)
    have gr: "growth H (group_views g) (group_views ?g) n t e (ak H n t)"
      unfolding growth_def
    proof (intro conjI ballI allI impI disjI1)
      fix v assume "v \<in> group_views ?g n"
      then have "v = disk_view st" by (rule views)
      then show "\<exists>w \<in> group_views g n. (v_log w = led H t \<or> v_log w = led H t @ [e]) \<and> v = w\<lparr>v_log := led H t @ [e]\<rparr>"
        using dm d(4) by (intro bexI [of _ "disk_view st"]) (auto simp: disk_view_def)
    qed (use d in \<open>auto simp: group_views_def\<close>)
    have "peer_ok (grown H n t e (ak H n t)) n ?p"
      using grown_islog [OF ledger_invD(1) [OF raft_invD(8) [OF inv]] gr] wf lp d(4) by (simp add: peer_ok_def)
    then show ?thesis using raft_inv_grown [OF inv only_at_set_peer gr _ _ _ p] so' Some by (simp, blast)
  qed
  then obtain H' where H': "extends H H'" "raft_inv H' ?g" by blast
  have "ms_voters m = pr_voters g" if "st_membership st = Some m" for m using so that by (simp add: store_ok_def)
  then have "pr_voters (restore_peer_from_store g n) = pr_voters ?g" "pr_peers (restore_peer_from_store g n) = pr_peers ?g"
    "pr_stores (restore_peer_from_store g n) = pr_stores ?g"
    using Some by (auto simp: restore_peer_from_store_def Let_def split: option.splits)
  then show ?thesis using H' raft_inv_cong [of "restore_peer_from_store g n" ?g] unfolding evolves_def by auto
qed

section \<open>Applying and membership\<close>

lemma apply_loop_soft:
  "apply_loop p out = (out', p') \<Longrightarrow> mem_view p' = mem_view p \<and> rp_node_id p' = rp_node_id p \<and> rp_role p' = rp_role p
     \<and> rp_match_index p' = rp_match_index p"
proof (induction p out rule: apply_loop.induct)
  case (1 p out)
  show ?case
  proof (cases "rp_last_applied p < rp_commit_index p \<and> entry_at p (rp_last_applied p + 1) \<noteq> None")
    case True
    then show ?thesis using 1 by (auto simp: mem_view_def)
  next
    case False
    then show ?thesis using 1(2) by (auto split: if_splits option.splits)
  qed
qed

lemma take_apply_next:
  assumes inv: "raft_inv H g"
  shows "evolves H g (snd (take_apply_batch g n))"
proof (cases "pr_peers g n")
  case None
  then show ?thesis using evolves_inv [OF inv] by (simp add: take_apply_batch_def)
next
  case (Some p)
  obtain out p' where a: "apply_loop p [] = (out, p')" by fastforce
  obtain ok g1 where f: "flush_peer (set_peer g n p') n = (ok, g1)" by fastforce
  note soft = apply_loop_soft [OF a]
  have "raft_inv H (set_peer g n p')"
    by (rule inv_set_soft [OF inv Some]) (use soft peer_okD(7) [OF raft_invD(5) [OF inv Some]] in auto)
  then have "raft_inv H g1" "pr_voters g1 = pr_voters g" using inv_flush [OF _ f] by (auto simp: only_at_def)
  then show ?thesis using evolves_inv Some a f by (simp add: take_apply_batch_def)
qed

lemma persist_membership_next:
  assumes inv: "raft_inv H g"
  shows "evolves H g (persist_membership g)"
proof (rule evolves_inv)
  let ?g = "persist_membership g"
  have "group_views ?g = group_views g"
    by (intro ext) (auto simp: group_views_def persist_membership_def disk_view_def split: option.splits)
  moreover have "\<exists>p. pr_peers g n = Some p \<and> store_ok (pr_voters g) n p st" if s: "pr_stores ?g n = Some st" for n st
  proof -
    obtain s where s: "pr_stores g n = Some s" "st = s\<lparr>st_membership := Some (membership_of g)\<rparr>"
      using s by (auto simp: persist_membership_def)
    obtain p where p: "pr_peers g n = Some p" using raft_invD(7) [OF inv s(1)] by blast
    show ?thesis using raft_invD(6) [OF inv s(1) p] p s(2) by (simp add: store_ok_def membership_of_def)
  qed
  ultimately show "raft_inv H ?g" using inv unfolding raft_inv_def by (simp add: persist_membership_def)
qed (simp add: persist_membership_def)

section \<open>Runs\<close>

text \<open>A run is a sequence of calls. Each comes with the outcomes of the flushes it makes. The guards are
  the ranges of the 64-bit counters and the subject the store reserves for itself.\<close>

datatype raft_op =
    OpVote node_id node_id nat nat nat
  | OpElect node_id "node_id list"
  | OpEnsureLeader "node_id list" "node_id option"
  | OpPropose node_id log_command "node_id list"
  | OpApply node_id
  | OpFlush node_id
  | OpRestart node_id
  | OpPersistMembership

definition terms_fit :: "partition_raft \<Rightarrow> nat \<Rightarrow> bool" where
  "terms_fit g k = list_all (\<lambda>n. case pr_peers g n of None \<Rightarrow> True | Some p \<Rightarrow> rp_current_term p + k < 2 ^ 64) (pr_voters g)"

fun op_fits :: "partition_raft \<Rightarrow> raft_op \<Rightarrow> bool" where
  "op_fits g (OpElect c online) = terms_fit g 1"
| "op_fits g (OpEnsureLeader online pref) = terms_fit g (length online)"
| "op_fits g (OpPropose l cmd online) =
     (cmd_subject cmd \<noteq> SNAPSHOT_BASE \<and> (case pr_peers g l of None \<Rightarrow> True | Some p \<Rightarrow> length (rp_log p) + 1 < 2 ^ 64))"
| "op_fits g _ = True"

fun raft_do :: "partition_raft \<Rightarrow> raft_op \<Rightarrow> partition_raft" where
  "raft_do g (OpVote v c t li lt) = snd (handle_request_vote g v c t li lt)"
| "raft_do g (OpElect c online) = snd (elect g c online)"
| "raft_do g (OpEnsureLeader online pref) = snd (ensure_leader_preferring g online pref)"
| "raft_do g (OpPropose l cmd online) = snd (propose g l cmd online)"
| "raft_do g (OpApply n) = snd (take_apply_batch g n)"
| "raft_do g (OpFlush n) = snd (flush_peer g n)"
| "raft_do g (OpRestart n) = restore_peer_from_store g n"
| "raft_do g OpPersistMembership = persist_membership g"

definition raft_step :: "partition_raft \<Rightarrow> flush_outcome list \<times> raft_op \<Rightarrow> raft_op + partition_raft" where
  "raft_step g ev = (let g0 = g\<lparr>pr_flushes := fst ev\<rparr>
     in if op_fits g0 (snd ev) then Inr (raft_do g0 (snd ev)) else Inl (snd ev))"

definition raft_runs :: "partition_raft \<Rightarrow> partition_raft \<Rightarrow> bool" where
  "raft_runs = reaches raft_step (\<lambda>_. True)"

definition raft_start :: "nat \<Rightarrow> node_id list \<Rightarrow> nat \<Rightarrow> node_id list \<Rightarrow> partition_raft" where
  "raft_start part voters epoch durable =
     fold (\<lambda>n g. attach_store g (raft_peer_store_open n)) durable (partition_raft_new part voters epoch)"

definition start_ok :: "node_id list \<Rightarrow> node_id list \<Rightarrow> bool" where
  "start_ok voters durable \<longleftrightarrow> distinct voters \<and> length voters < 2 ^ 32 \<and> set durable \<subseteq> set voters"

lemma terms_fit_inv: "raft_inv H g \<Longrightarrow> terms_fit g k \<Longrightarrow> fits_term g k"
  using raft_invD(3) by (fastforce simp: terms_fit_def fits_term_def list_all_iff)

lemma raft_do_next:
  assumes inv: "raft_inv H g" and fit: "op_fits g op"
  shows "evolves H g (raft_do g op)"
proof (cases op)
  case (OpVote v c t li lt)
  obtain res g' where r: "request_vote g v c t li lt = (res, g')" by fastforce
  then show ?thesis using request_vote_step(1) [OF inv r] OpVote evolves_inv
    by (simp add: handle_request_vote_def node_step_def only_at_def)
next
  case (OpElect c online)
  obtain res g' where r: "elect g c online = (res, g')" by fastforce
  then show ?thesis using elect_next [OF inv terms_fit_inv [OF inv] r] raft_next_evolves fit OpElect by simp
next
  case (OpEnsureLeader online pref)
  obtain res g' where r: "ensure_leader_preferring g online pref = (res, g')" by fastforce
  then show ?thesis using ensure_next [OF inv terms_fit_inv [OF inv] r] raft_next_evolves fit OpEnsureLeader by simp
next
  case (OpPropose l cmd online)
  obtain res g' where r: "propose g l cmd online = (res, g')" by fastforce
  have "room g l" "cmd_subject cmd \<noteq> SNAPSHOT_BASE" using fit OpPropose by (auto simp: room_def)
  then show ?thesis using propose_next [OF inv _ _ r] OpPropose r unfolding evolves_def by auto
next
  case (OpFlush n)
  obtain ok g' where r: "flush_peer g n = (ok, g')" by fastforce
  then show ?thesis using inv_flush(1,2) [OF inv r] OpFlush evolves_inv by (simp add: only_at_def)
qed (use take_apply_next [OF inv] restart_next [OF inv] persist_membership_next [OF inv] in simp_all)

interpretation raft_machine: guarded_machine raft_step "\<lambda>_. True" "evolves H g0" for H g0
proof
  fix g ev g'
  assume e: "evolves H g0 g" and s: "raft_step g ev = Inr g'"
  let ?g = "g\<lparr>pr_flushes := fst ev\<rparr>"
  have g': "op_fits ?g (snd ev)" "g' = raft_do ?g (snd ev)" using s by (auto simp: raft_step_def Let_def split: if_splits)
  show "evolves H g0 g'"
  proof (rule evolves_trans [OF e])
    fix H' assume "raft_inv H' g"
    then have "raft_inv H' ?g" using raft_inv_cong [of ?g g] by simp
    then show "evolves H' g g'" using raft_do_next [OF _ g'(1)] g'(2) unfolding evolves_def by simp
  qed
qed

lemma run_evolves: "raft_inv H g \<Longrightarrow> raft_runs g g' \<Longrightarrow> evolves H g g'"
  using raft_machine.reaches_inv [OF _ evolves_inv] unfolding raft_runs_def by blast

text \<open>The start: no ledger yet.\<close>

definition no_ledgers :: ledgers where
  "no_ledgers = \<lparr>lg = (\<lambda>_. None), ld = (\<lambda>_. 0), ak = (\<lambda>_ _. 0)\<rparr>"

lemma start_peers:
  "pr_peers (raft_start part voters epoch durable) n = (if n \<in> set voters then Some (raft_peer_new n) else None)"
  "pr_stores (raft_start part voters epoch durable) n = (if n \<in> set durable then Some (raft_peer_store_open n) else None)"
  "pr_voters (raft_start part voters epoch durable) = voters"
proof -
  have f: "pr_peers (fold (\<lambda>n g. attach_store g (raft_peer_store_open n)) ds g) = pr_peers g
    \<and> pr_voters (fold (\<lambda>n g. attach_store g (raft_peer_store_open n)) ds g) = pr_voters g
    \<and> pr_stores (fold (\<lambda>n g. attach_store g (raft_peer_store_open n)) ds g) n
      = (if n \<in> set ds then Some (raft_peer_store_open n) else pr_stores g n)" for ds g
    by (induction ds arbitrary: g) (auto simp: attach_store_def raft_peer_store_open_def)
  have "fold (\<lambda>v m. m(v \<mapsto> raft_peer_new v)) vs m n = (if n \<in> set vs then Some (raft_peer_new n) else m n)" for vs m
    by (induction vs arbitrary: m) auto
  then show "pr_peers (raft_start part voters epoch durable) n = (if n \<in> set voters then Some (raft_peer_new n) else None)"
    "pr_stores (raft_start part voters epoch durable) n = (if n \<in> set durable then Some (raft_peer_store_open n) else None)"
    "pr_voters (raft_start part voters epoch durable) = voters"
    using f by (simp_all add: raft_start_def partition_raft_new_def)
qed

lemma start_inv:
  assumes "start_ok voters durable"
  shows "raft_inv no_ledgers (raft_start part voters epoch durable)"
proof -
  let ?g = "raft_start part voters epoch durable"
  have none: "lg no_ledgers t = None" "ak no_ledgers n t = 0" for n t by (simp_all add: no_ledgers_def)
  have "v_log v = [] \<and> v_commit v = 0" if "v \<in> group_views ?g n" for v n
    using group_views_cases [OF that]
    by (auto simp: start_peers raft_peer_new_def raft_peer_store_open_def hard_state_default_def split: if_splits)
  then have "ledger_inv (is_quorum voters) no_ledgers (group_views ?g)"
    unfolding ledger_inv_def ledgers_ok_def votes_ok_def safe_ok_def view_ok_def acks_ok_def own_def commit_ok_def
    using none by simp
  moreover have "peer_ok no_ledgers n p" if "pr_peers ?g n = Some p" for n p
    using that by (auto simp: start_peers peer_ok_def raft_peer_new_def split: if_splits)
  moreover have "\<exists>p. pr_peers ?g n = Some p \<and> store_ok voters n p st" if "pr_stores ?g n = Some st" for n st
    using that assms by (auto simp: start_peers store_ok_def start_ok_def raft_peer_store_open_def raft_peer_new_def
        hard_state_default_def split: if_splits)
  ultimately show ?thesis using assms unfolding raft_inv_def start_peers(3) by (auto simp: start_ok_def start_peers)
qed

definition raft_reachable :: "partition_raft \<Rightarrow> bool" where
  "raft_reachable g \<longleftrightarrow> (\<exists>part voters epoch durable. start_ok voters durable \<and> raft_runs (raft_start part voters epoch durable) g)"

lemma reachable_inv: "raft_reachable g \<Longrightarrow> \<exists>H. raft_inv H g"
  using run_evolves [OF start_inv] unfolding raft_reachable_def evolves_def by blast

lemma run_inv_pair:
  assumes "raft_reachable g" "raft_runs g g'"
  shows "\<exists>H H'. raft_inv H g \<and> extends H H' \<and> raft_inv H' g' \<and> pr_voters g' = pr_voters g"
  using reachable_inv [OF assms(1)] run_evolves [OF _ assms(2)] unfolding evolves_def by blast

section \<open>An example run\<close>

text \<open>Three voters, two of them with stores. Node 1 is elected, fails to flush one proposal, commits
  another with node 2, and restarts; node 2 takes over with node 3 and commits once more.\<close>

definition ex_start :: partition_raft where
  "ex_start = raft_start 0 [1, 2, 3] 0 [1, 2]"

definition ex_elected :: partition_raft where
  "ex_elected = projr (run_steps raft_step ex_start
     [([], OpElect 1 [1, 2, 3]), ([FailedAfterLog], OpPropose 1 (CmdDelete [9]) [1, 2])])"

definition ex_proposed :: "(propose_error + propose_result) \<times> partition_raft" where
  "ex_proposed = propose ex_elected 1 (CmdPut [7] [8]) [1, 2]"

definition ex_later :: partition_raft where
  "ex_later = projr (run_steps raft_step (snd ex_proposed) [([], OpRestart 1), ([], OpElect 2 [2, 3]),
     ([], OpPropose 2 (CmdDelete [7]) [2, 3]), ([], OpApply 3)])"

lemma run_steps_raft_runs: "isl (run_steps raft_step g evs) = False \<Longrightarrow> raft_runs g (projr (run_steps raft_step g evs))"
  using run_steps_reaches [of raft_step g evs "projr (run_steps raft_step g evs)" "\<lambda>_. True" g] reaches_refl [of raft_step _ g]
  unfolding raft_runs_def by (cases "run_steps raft_step g evs") (auto simp: list_all_iff)

lemma raft_runs_trans: "raft_runs g g' \<Longrightarrow> raft_runs g' g'' \<Longrightarrow> raft_runs g g''"
  unfolding raft_runs_def by (rotate_tac, induction rule: reaches.induct) (auto intro: reaches_step)

lemma raft_runs_refl: "raft_runs g g"
  unfolding raft_runs_def by (rule reaches_refl)

lemma raft_reachable_runs: "raft_reachable g \<Longrightarrow> raft_runs g g' \<Longrightarrow> raft_reachable g'"
  using raft_runs_trans unfolding raft_reachable_def by blast

lemma ex_elected_reachable: "raft_reachable ex_elected"
proof -
  have "start_ok [1, 2, 3] [1, 2]" by code_simp
  moreover have "raft_runs ex_start ex_elected" unfolding ex_elected_def by (rule run_steps_raft_runs) code_simp
  ultimately show ?thesis unfolding raft_reachable_def ex_start_def by blast
qed

lemma ex_later_runs: "raft_runs (snd ex_proposed) ex_later"
  unfolding ex_later_def by (rule run_steps_raft_runs) code_simp

lemma ex_proposed_runs: "raft_runs ex_elected (snd ex_proposed)"
proof -
  have "isl (run_steps raft_step ex_elected [([], OpPropose 1 (CmdPut [7] [8]) [1, 2])]) = False" by code_simp
  moreover have "pr_flushes ex_elected = []" by code_simp
  then have "ex_elected\<lparr>pr_flushes := []\<rparr> = ex_elected" by (cases ex_elected) simp
  ultimately show ?thesis
    using run_steps_raft_runs [of ex_elected "[([], OpPropose 1 (CmdPut [7] [8]) [1, 2])]"]
    by (simp add: ex_proposed_def raft_step_def Let_def result_simps split: if_splits)
qed

lemma ex_proposed_reachable: "raft_reachable (snd ex_proposed)"
  by (rule raft_reachable_runs [OF ex_elected_reachable ex_proposed_runs])

definition ex_entry :: "nat \<Rightarrow> log_command \<Rightarrow> log_entry" where
  "ex_entry i c = \<lparr>le_term = i, le_index = i, le_command = c\<rparr>"

lemma ex_proposed_peer:
  "map_option (\<lambda>p. (rp_role p, rp_current_term p, rp_log p, rp_commit_index p)) (pr_peers (snd ex_proposed) 1)
     = Some (Leader, 1, [ex_entry 1 (CmdPut [7] [8])], 1)"
  by code_simp

lemma ex_later_peers:
  "map_option (\<lambda>p. (rp_log p, rp_commit_index p)) (pr_peers ex_later 3)
     = Some ([ex_entry 1 (CmdPut [7] [8]), ex_entry 2 (CmdDelete [7])], 2)"
  "map_option (\<lambda>p. (rp_role p, rp_current_term p)) (pr_peers ex_later 2) = Some (Leader, 2)"
  by code_simp+

section \<open>Safety\<close>

lemma prefix_either_nth: "prefix xs ys \<or> prefix ys xs \<Longrightarrow> i < length xs \<Longrightarrow> i < length ys \<Longrightarrow> xs ! i = ys ! i"
  using prefix_nth by metis

definition committed_log :: "raft_peer \<Rightarrow> log_entry list" where
  "committed_log p = take (rp_commit_index p) (rp_log p)"

text \<open>C1: State machine safety. In every run of a group, whatever calls, disk failures and restarts it
  contains, the committed log of a peer at one time and the committed log of any peer at the same or a
  later time are prefixes of one another: no two replicas ever apply different commands at a position.\<close>

theorem committed_logs_agree:
  assumes "raft_reachable g" "raft_runs g g'" "pr_peers g n = Some p" "pr_peers g' m = Some q"
  shows "prefix (committed_log p) (committed_log q) \<or> prefix (committed_log q) (committed_log p)"
proof -
  obtain H H' where H: "raft_inv H g" "extends H H'" "raft_inv H' g'" and v: "pr_voters g' = pr_voters g"
    using run_inv_pair [OF assms(1,2)] by blast
  have "commit_ok (is_quorum (pr_voters g')) H' (mem_view p)"
    using commit_ok_extends [OF view_okD(2) [OF mem_view_ok [OF H(1) assms(3)]] H(2)] v by simp
  from majority.commit_comparable [OF raft_invD(8) [OF H(3)] this view_okD(2) [OF mem_view_ok [OF H(3) assms(4)]]]
  show ?thesis by (simp add: committed_log_def)
qed

theorem committed_logs_agree_witness:
  "\<exists>p q. raft_reachable (snd ex_proposed) \<and> raft_runs (snd ex_proposed) ex_later
     \<and> pr_peers (snd ex_proposed) 1 = Some p \<and> pr_peers ex_later 3 = Some q
     \<and> committed_log p = [ex_entry 1 (CmdPut [7] [8])]
     \<and> (prefix (committed_log p) (committed_log q) \<or> prefix (committed_log q) (committed_log p))"
proof -
  obtain p q where p: "pr_peers (snd ex_proposed) 1 = Some p" "committed_log p = [ex_entry 1 (CmdPut [7] [8])]"
    and q: "pr_peers ex_later 3 = Some q"
    using ex_proposed_peer ex_later_peers by (auto simp: committed_log_def)
  then show ?thesis
    using committed_logs_agree [OF ex_proposed_reachable ex_later_runs p(1) q] ex_proposed_reachable ex_later_runs by blast
qed

text \<open>C3: Election safety. Two leaders of the same term, at any two times of a run, are the same node.\<close>

theorem one_leader_per_term:
  assumes "raft_reachable g" "raft_runs g g'"
    and "pr_peers g n = Some p" "rp_role p = Leader" "pr_peers g' m = Some q" "rp_role q = Leader"
    and "rp_current_term p = rp_current_term q"
  shows "n = m"
proof -
  obtain H H' where H: "raft_inv H g" "extends H H'" "raft_inv H' g'" using run_inv_pair [OF assms(1,2)] by blast
  note p = peer_okD(4,5) [OF raft_invD(5) [OF H(1) assms(3)] assms(4)]
  show ?thesis using p peer_okD(5) [OF raft_invD(5) [OF H(3) assms(5)] assms(6)] H(2) assms(7) by (simp add: extends_def)
qed

theorem one_leader_per_term_witness:
  "\<exists>p. raft_reachable (snd ex_proposed) \<and> raft_runs (snd ex_proposed) (snd ex_proposed)
     \<and> pr_peers (snd ex_proposed) 1 = Some p \<and> rp_role p = Leader \<and> rp_current_term p = 1 \<and> (1 :: nat) = 1"
proof -
  obtain p where p: "pr_peers (snd ex_proposed) 1 = Some p" "rp_role p = Leader" "rp_current_term p = 1"
    using ex_proposed_peer by auto
  then show ?thesis
    using one_leader_per_term [OF ex_proposed_reachable raft_runs_refl p(1,2,1,2) refl] ex_proposed_reachable raft_runs_refl by blast
qed

text \<open>C4: Log matching. If two logs, at any two times of a run, hold entries of the same term at the same
  position, they are equal up to that position.\<close>

theorem logs_match:
  assumes "raft_reachable g" "raft_runs g g'" "pr_peers g n = Some p" "pr_peers g' m = Some q"
    and "entry_at p i = Some d" "entry_at q i = Some e" "le_term d = le_term e"
  shows "take i (rp_log p) = take i (rp_log q)"
proof -
  obtain H H' where H: "raft_inv H g" "extends H H'" "raft_inv H' g'" using run_inv_pair [OF assms(1,2)] by blast
  have "islog H' (rp_log p)" using islog_mono [OF peer_okD(3) [OF raft_invD(5) [OF H(1) assms(3)]] H(2)] .
  from islog_match [OF this peer_okD(3) [OF raft_invD(5) [OF H(3) assms(4)]], of "i - 1"] assms(5-7)
  show ?thesis by (auto simp: entry_at_def split: if_splits)
qed

theorem logs_match_witness:
  "\<exists>p q. raft_reachable (snd ex_proposed) \<and> raft_runs (snd ex_proposed) ex_later
     \<and> pr_peers (snd ex_proposed) 1 = Some p \<and> pr_peers ex_later 3 = Some q
     \<and> entry_at p 1 = Some (ex_entry 1 (CmdPut [7] [8])) \<and> entry_at q 1 = Some (ex_entry 1 (CmdPut [7] [8]))
     \<and> take 1 (rp_log p) = take 1 (rp_log q)"
proof -
  obtain p q where p: "pr_peers (snd ex_proposed) 1 = Some p" "entry_at p 1 = Some (ex_entry 1 (CmdPut [7] [8]))"
    and q: "pr_peers ex_later 3 = Some q" "entry_at q 1 = Some (ex_entry 1 (CmdPut [7] [8]))"
    using ex_proposed_peer ex_later_peers by (auto simp: entry_at_def)
  then show ?thesis
    using logs_match [OF ex_proposed_reachable ex_later_runs p(1) q(1) p(2) q(2) refl] ex_proposed_reachable ex_later_runs by blast
qed

text \<open>C2: Durability of acknowledged writes. A proposal that returned as committed is, with its
  command, in the log of every leader of its own or a later term, for the rest of the run.\<close>

theorem committed_proposals_survive:
  assumes "raft_reachable g" "op_fits g (OpPropose l cmd online)" "propose g l cmd online = (Inr r, g1)" "po_committed r"
    and "raft_runs g1 g'" "pr_peers g' m = Some q" "rp_role q = Leader" "po_term r \<le> rp_current_term q"
  shows "entry_at q (po_position r) = Some (po_entry r) \<and> le_command (po_entry r) = cmd"
proof -
  obtain H where H: "raft_inv H g" using reachable_inv [OF assms(1)] by blast
  have "room g l" "cmd_subject cmd \<noteq> SNAPSHOT_BASE" using assms(2) by (auto simp: room_def)
  then obtain H1 where H1: "raft_inv H1 g1" "pr_voters g1 = pr_voters g" "settled H1 (pr_voters g) (po_entry r) r"
    "le_command (po_entry r) = cmd"
    using propose_next [OF H _ _ assms(3)] by blast
  obtain H' where H': "extends H1 H'" "raft_inv H' g'" "pr_voters g' = pr_voters g1"
    using run_evolves [OF H1(1) assms(5)] unfolding evolves_def by blast
  let ?e = "po_entry r"
  have s: "chosen (is_quorum (pr_voters g')) H' (le_term ?e) (le_index ?e)" "led H' (le_term ?e) ! (le_index ?e - 1) = ?e"
    "po_position r = le_index ?e" "po_term r = le_term ?e"
    using settled_extends [OF H1(3) H'(1)] H1(2) H'(3) assms(4) by (auto simp: settled_def)
  note q = peer_okD(4,6) [OF raft_invD(5) [OF H'(2) assms(6)] assms(7)]
  have "le_term ?e \<le> rp_current_term q" using assms(8) s(4) by simp
  from majority.chosen_later [OF raft_invD(8) [OF H'(2)] s(1) q(1) this] q(2)
  have pre: "prefix (take (le_index ?e) (led H' (le_term ?e))) (rp_log q)" by simp
  have o: "0 < le_index ?e" "le_index ?e \<le> length (led H' (le_term ?e))" using s(1) by (auto simp: chosen_def own_def)
  have "rp_log q ! (le_index ?e - 1) = ?e" using prefix_nth [OF pre, of "le_index ?e - 1"] o s(2) by simp
  moreover have "le_index ?e \<le> length (rp_log q)" using prefix_length_le [OF pre] o by simp
  ultimately show ?thesis using o s(3) H1(4) by (simp add: entry_at_def)
qed

theorem committed_proposals_survive_witness:
  "\<exists>r q. raft_reachable ex_elected \<and> op_fits ex_elected (OpPropose 1 (CmdPut [7] [8]) [1, 2])
     \<and> propose ex_elected 1 (CmdPut [7] [8]) [1, 2] = (Inr r, snd ex_proposed) \<and> po_committed r
     \<and> raft_runs (snd ex_proposed) ex_later \<and> pr_peers ex_later 2 = Some q \<and> rp_role q = Leader
     \<and> po_term r \<le> rp_current_term q
     \<and> entry_at q (po_position r) = Some (po_entry r) \<and> le_command (po_entry r) = CmdPut [7] [8]"
proof -
  have "isl (fst ex_proposed) = False" "po_committed (projr (fst ex_proposed)) \<and> po_term (projr (fst ex_proposed)) = 1" by code_simp+
  then obtain r where r: "propose ex_elected 1 (CmdPut [7] [8]) [1, 2] = (Inr r, snd ex_proposed)" "po_committed r" "po_term r = 1"
    by (cases "fst ex_proposed") (auto simp: ex_proposed_def prod_eq_iff)
  obtain q where q: "pr_peers ex_later 2 = Some q" "rp_role q = Leader" "rp_current_term q = 2" using ex_later_peers by auto
  have le: "po_term r \<le> rp_current_term q" using r(3) q(3) by simp
  have fit: "op_fits ex_elected (OpPropose 1 (CmdPut [7] [8]) [1, 2])" by code_simp
  show ?thesis
    using committed_proposals_survive [OF ex_elected_reachable fit r(1,2) ex_later_runs q(1,2) le]
      ex_elected_reachable fit r(1,2) ex_later_runs q(1,2) le by blast
qed

text \<open>C5: Truthful evidence after a crash. If a store classifies a position as committed, every peer
  that has committed that position, at the same or a later time, has the store's entry there.\<close>

theorem committed_evidence_truthful:
  assumes "raft_reachable g" "raft_runs g g'" "pr_stores g n = Some st" "pr_peers g' m = Some q"
    and "evidence_class st i = EvCommitted" "0 < i" "i \<le> rp_commit_index q"
  shows "i \<le> length (st_log st) \<and> entry_at q i = Some (st_log st ! (i - 1))"
proof -
  obtain H H' where H: "raft_inv H g" "extends H H'" "raft_inv H' g'" and v: "pr_voters g' = pr_voters g"
    using run_inv_pair [OF assms(1,2)] by blast
  obtain p where p: "pr_peers g n = Some p" using raft_invD(7) [OF H(1) assms(3)] by blast
  note so = raft_invD(6) [OF H(1) assms(3) p]
  let ?c = "hs_commit_index (st_hard_state st)"
  have i: "i \<le> ?c" "?c \<le> length (st_log st)"
    using assms(5,6) so by (auto simp: evidence_class_def store_ok_def Let_def split: if_splits)
  have q: "commit_ok (is_quorum (pr_voters g')) H' (mem_view q)" by (rule view_okD(2) [OF mem_view_ok [OF H(3) assms(4)]])
  have "commit_ok (is_quorum (pr_voters g')) H' (disk_view st)"
    using commit_ok_extends [OF view_okD(2) [OF disk_view_ok [OF H(1) assms(3)]] H(2)] v by simp
  note cc = majority.commit_comparable [OF raft_invD(8) [OF H(3)] this q]
  have "rp_commit_index q \<le> length (rp_log q)" using q by (simp add: commit_ok_def)
  then have "i - 1 < length (take ?c (st_log st))" "i - 1 < length (take (rp_commit_index q) (rp_log q))"
    using i assms(6,7) by auto
  from prefix_either_nth [OF _ this] cc have "st_log st ! (i - 1) = rp_log q ! (i - 1)" using i assms(6,7) by simp
  then show ?thesis using i assms(6,7) q by (auto simp: entry_at_def commit_ok_def)
qed

theorem committed_evidence_truthful_witness:
  "\<exists>st q. raft_reachable (snd ex_proposed) \<and> raft_runs (snd ex_proposed) ex_later \<and> pr_stores (snd ex_proposed) 1 = Some st
     \<and> pr_peers ex_later 3 = Some q \<and> evidence_class st 1 = EvCommitted \<and> (0::nat) < 1 \<and> 1 \<le> rp_commit_index q
     \<and> 1 \<le> length (st_log st) \<and> entry_at q 1 = Some (st_log st ! (1 - 1))"
proof -
  have "map_option (\<lambda>st. evidence_class st 1) (pr_stores (snd ex_proposed) 1) = Some EvCommitted" by code_simp
  then obtain st where st: "pr_stores (snd ex_proposed) 1 = Some st" "evidence_class st 1 = EvCommitted" by auto
  obtain q where q: "pr_peers ex_later 3 = Some q" "1 \<le> rp_commit_index q" using ex_later_peers by auto
  show ?thesis
    using committed_evidence_truthful [OF ex_proposed_reachable ex_later_runs st(1) q(1) st(2) _ q(2)]
      ex_proposed_reachable ex_later_runs st q by auto
qed

end
