(* ===== verification/Raft_Rebalance.thy ===== *)
theory Raft_Rebalance
  imports Raft_Safety
begin

text \<open>
  Moving a partition to other replicas (\<^verbatim>\<open>residiuum-cluster/src/rebalance.rs\<close> and the rebalance steps
  of \<^verbatim>\<open>cluster.rs\<close>), for one partition. The consensus group is the one of \<open>Raft\<close>. The node stores
  that hold the subjects, the files that record jobs and directory, and the clock are inputs.
\<close>

section \<open>Phases and jobs\<close>

datatype rebalance_phase =
    PlanCommitted | LearnersAdded | SegmentsCopied | LogCaughtUp | MembershipChanged | EpochActivated
  | SafetyWindow | Reclaimed

fun phase_next :: "rebalance_phase \<Rightarrow> rebalance_phase option" where
  "phase_next PlanCommitted = Some LearnersAdded"
| "phase_next LearnersAdded = Some SegmentsCopied"
| "phase_next LogCaughtUp = Some MembershipChanged"
| "phase_next SegmentsCopied = Some LogCaughtUp"
| "phase_next MembershipChanged = Some EpochActivated"
| "phase_next EpochActivated = Some SafetyWindow"
| "phase_next SafetyWindow = Some Reclaimed"
| "phase_next Reclaimed = None"

definition old_placement_authoritative :: "rebalance_phase \<Rightarrow> bool" where
  "old_placement_authoritative ph = (ph \<in> {PlanCommitted, LearnersAdded, SegmentsCopied, LogCaughtUp})"

definition phase_is_joint :: "rebalance_phase \<Rightarrow> bool" where
  "phase_is_joint ph = (ph = MembershipChanged)"

definition new_placement_authoritative :: "rebalance_phase \<Rightarrow> bool" where
  "new_placement_authoritative ph = (ph \<in> {EpochActivated, SafetyWindow, Reclaimed})"

record rebalance_job =
  rj_job_id :: string
  rj_partition :: nat
  rj_old_replicas :: "node_id list"
  rj_new_replicas :: "node_id list"
  rj_destinations :: "node_id list"
  rj_removals :: "node_id list"
  rj_phase :: rebalance_phase
  rj_plan_epoch :: nat
  rj_activated_epoch :: "nat option"
  rj_subjects_copied :: nat
  rj_log_entries_streamed :: nat
  rj_joint :: bool

definition job_plan :: "string \<Rightarrow> nat \<Rightarrow> node_id list \<Rightarrow> node_id list \<Rightarrow> nat \<Rightarrow> rebalance_job" where
  "job_plan job_id partition_id old new epoch =
     \<lparr>rj_job_id = job_id, rj_partition = partition_id, rj_old_replicas = old, rj_new_replicas = new,
      rj_destinations = sort (filter (\<lambda>n. n \<notin> set old) new), rj_removals = sort (filter (\<lambda>n. n \<notin> set new) old),
      rj_phase = PlanCommitted, rj_plan_epoch = epoch, rj_activated_epoch = None, rj_subjects_copied = 0,
      rj_log_entries_streamed = 0, rj_joint = False\<rparr>"

definition joint_union :: "node_id list \<Rightarrow> node_id list \<Rightarrow> node_id list" where
  "joint_union old new = sort (fold (\<lambda>n u. if n \<in> set u then u else u @ [n]) new old)"

definition authoritative_voters :: "rebalance_job \<Rightarrow> node_id list" where
  "authoritative_voters j =
     (if old_placement_authoritative (rj_phase j) then rj_old_replicas j
      else if phase_is_joint (rj_phase j) \<or> rj_joint j then joint_union (rj_old_replicas j) (rj_new_replicas j)
      else rj_new_replicas j)"

section \<open>The cluster's view of one partition\<close>

record partition_assignment =
  pa_replicas :: "node_id list"
  pa_leader :: node_id
  pa_term :: nat
  pa_placement_epoch :: nat

text \<open>The nodes with an open store, the nodes with a store on disk, those whose store opens, what
  their peer directories hold (nothing when a directory does not open), and the copy of the partition's
  subjects from one node store to another, which gives the number of subjects or fails. The job is held in
  memory and in a file that each step rewrites.\<close>

record cluster_part =
  cp_group :: "partition_raft option"
  cp_assignment :: "partition_assignment option"
  cp_epoch :: nat
  cp_online :: "node_id list"
  cp_paths :: "node_id list"
  cp_opens :: "node_id list"
  cp_disk :: "node_id \<Rightarrow> raft_peer_store option"
  cp_copy :: "node_id \<Rightarrow> node_id \<Rightarrow> nat option"
  cp_job :: "rebalance_job option"
  cp_job_file :: "rebalance_job option"

datatype rb_error =
    RbEmptyReplicas | RbNoStorePath node_id | RbInProgress | RbNoAssignment | RbNoJob | RbComplete | RbNoNext
  | RbReenterPlan | RbPeerStore node_id | RbNodeStore node_id | RbLearnerOffline node_id | RbNoSource | RbDestOffline node_id | RbCopyFailed | RbNoGroup
  | RbNoLogSource | RbSaveFailed

type_synonym rb_result = "(rb_error + rebalance_job) \<times> cluster_part"

definition set_leader :: "cluster_part \<Rightarrow> node_id \<Rightarrow> nat \<Rightarrow> cluster_part" where
  "set_leader c leader new_term = c\<lparr>cp_assignment :=
     map_option (\<lambda>a. a\<lparr>pa_leader := leader, pa_term := new_term\<rparr>) (cp_assignment c)\<rparr>"

definition set_replicas :: "cluster_part \<Rightarrow> node_id list \<Rightarrow> nat \<Rightarrow> cluster_part" where
  "set_replicas c replicas epoch = c\<lparr>cp_epoch := epoch, cp_assignment :=
     map_option (\<lambda>a. a\<lparr>pa_leader := (if pa_leader a \<in> set replicas then pa_leader a else hd replicas),
       pa_replicas := replicas, pa_placement_epoch := epoch\<rparr>) (cp_assignment c)\<rparr>"

definition ensure_partition_leader :: "cluster_part \<Rightarrow> (elect_error option + node_id \<times> nat) \<times> cluster_part" where
  "ensure_partition_leader c =
     (case cp_group c of
        None \<Rightarrow> (Inl None, c)
      | Some g \<Rightarrow>
          (case ensure_leader_preferring g (cp_online c) (map_option pa_leader (cp_assignment c)) of
             (Inl e, g1) \<Rightarrow> (Inl (Some e), c\<lparr>cp_group := Some g1\<rparr>)
           | (Inr (leader, t), g1) \<Rightarrow> (Inr (leader, t), set_leader (c\<lparr>cp_group := Some g1\<rparr>) leader t)))"

section \<open>The steps\<close>

definition begin_rebalance :: "string \<Rightarrow> nat \<Rightarrow> bool \<Rightarrow> cluster_part \<Rightarrow> node_id list \<Rightarrow> rb_result" where
  "begin_rebalance job_id partition_id saved c new =
     (if new = [] then (Inl RbEmptyReplicas, c)
      else case find (\<lambda>n. n \<notin> set (cp_paths c) \<and> n \<notin> set (cp_online c)) new of
        Some n \<Rightarrow> (Inl (RbNoStorePath n), c)
      | None \<Rightarrow>
          if cp_job c \<noteq> None then (Inl RbInProgress, c)
          else (case cp_assignment c of
            None \<Rightarrow> (Inl RbNoAssignment, c)
          | Some a \<Rightarrow>
              let job = job_plan job_id partition_id (pa_replicas a) new (cp_epoch c);
                  c1 = c\<lparr>cp_job := Some job\<rparr>
              in if saved then (Inr job, c1\<lparr>cp_job_file := Some job\<rparr>) else (Inl RbSaveFailed, c1)))"

fun open_learners :: "cluster_part \<Rightarrow> node_id list \<Rightarrow> rb_error option \<times> cluster_part" where
  "open_learners c [] = (None, c)"
| "open_learners c (d # ds) =
     (if d \<in> set (cp_online c) then open_learners c ds
      else if d \<in> set (cp_paths c) then
        (if d \<in> set (cp_opens c) then open_learners (c\<lparr>cp_online := insort d (cp_online c)\<rparr>) ds
         else (Some (RbNodeStore d), c))
      else (Some (RbLearnerOffline d), c))"

fun attach_learners :: "(node_id \<Rightarrow> raft_peer_store option) \<Rightarrow> partition_raft \<Rightarrow> node_id list \<Rightarrow> rb_error option \<times> partition_raft" where
  "attach_learners disk g [] = (None, g)"
| "attach_learners disk g (d # ds) =
     (case disk d of
        None \<Rightarrow> (Some (RbPeerStore d), ensure_peer g d)
      | Some st \<Rightarrow> attach_learners disk (attach_store (ensure_peer g d) st) ds)"

definition rb_learners_added :: "cluster_part \<Rightarrow> rebalance_job \<Rightarrow> rb_result" where
  "rb_learners_added c job =
     (let (err, c1) = (case cp_group c of
            None \<Rightarrow> (None, c)
          | Some g \<Rightarrow> let (e, g1) = attach_learners (cp_disk c) g (rj_destinations job) in (e, c\<lparr>cp_group := Some g1\<rparr>))
      in case err of
        Some e \<Rightarrow> (Inl e, c1)
      | None \<Rightarrow>
          (case open_learners c1 (rj_destinations job) of
             (Some e, c2) \<Rightarrow> (Inl e, c2)
           | (None, c2) \<Rightarrow> (Inr (job\<lparr>rj_phase := LearnersAdded\<rparr>), c2)))"

fun copy_subjects :: "cluster_part \<Rightarrow> node_id \<Rightarrow> node_id list \<Rightarrow> nat \<Rightarrow> rb_error + nat" where
  "copy_subjects c source [] copied = Inr copied"
| "copy_subjects c source (d # ds) copied =
     (if d \<notin> set (cp_online c) then Inl (RbDestOffline d)
      else case cp_copy c source d of
        None \<Rightarrow> Inl RbCopyFailed
      | Some k \<Rightarrow> copy_subjects c source ds (add64 copied k))"

definition rb_segments_copied :: "cluster_part \<Rightarrow> rebalance_job \<Rightarrow> rb_result" where
  "rb_segments_copied c job =
     (case find (\<lambda>n. n \<in> set (cp_online c)) (rj_old_replicas job) of
        None \<Rightarrow> (Inl RbNoSource, c)
      | Some source \<Rightarrow>
          (case copy_subjects c source (rj_destinations job) (rj_subjects_copied job) of
             Inl e \<Rightarrow> (Inl e, c)
           | Inr k \<Rightarrow> (Inr (job\<lparr>rj_subjects_copied := k, rj_phase := SegmentsCopied\<rparr>), c)))"

definition rb_log_source :: "partition_raft \<Rightarrow> rebalance_job \<Rightarrow> node_id option" where
  "rb_log_source g job =
     (case current_leader g of
        Some (n, _) \<Rightarrow> Some n
      | None \<Rightarrow> find (\<lambda>n. pr_peers g n \<noteq> None) (rj_old_replicas job))"

fun stream_all :: "partition_raft \<Rightarrow> node_id \<Rightarrow> node_id list \<Rightarrow> nat \<Rightarrow> nat \<times> partition_raft" where
  "stream_all g leader [] streamed = (streamed, g)"
| "stream_all g leader (d # ds) streamed =
     (case stream_log_to g leader d of (n, g1) \<Rightarrow> stream_all g1 leader ds (add64 streamed n))"

definition rb_log_caught_up :: "cluster_part \<Rightarrow> rebalance_job \<Rightarrow> rb_result" where
  "rb_log_caught_up c job =
     (case cp_group c of
        None \<Rightarrow> (Inl RbNoGroup, c)
      | Some g \<Rightarrow>
          (case rb_log_source g job of
             None \<Rightarrow> (Inl RbNoLogSource, c)
           | Some leader \<Rightarrow>
               let (n, g1) = stream_all g leader (rj_destinations job) (rj_log_entries_streamed job)
               in (Inr (job\<lparr>rj_log_entries_streamed := n, rj_phase := LogCaughtUp\<rparr>), c\<lparr>cp_group := Some g1\<rparr>)))"

definition rb_membership_changed :: "cluster_part \<Rightarrow> rebalance_job \<Rightarrow> rb_result" where
  "rb_membership_changed c job =
     (Inr (job\<lparr>rj_joint := True, rj_phase := MembershipChanged\<rparr>),
      c\<lparr>cp_group := map_option (\<lambda>g. set_joint_voters g (rj_old_replicas job) (rj_new_replicas job) (rj_plan_epoch job))
          (cp_group c)\<rparr>)"

definition rb_epoch_activated :: "bool \<Rightarrow> cluster_part \<Rightarrow> rebalance_job \<Rightarrow> rb_result" where
  "rb_epoch_activated saved c job =
     (let new_epoch = add64 (rj_plan_epoch job) 1;
          c1 = c\<lparr>cp_group := map_option (\<lambda>g. set_voters g (rj_new_replicas job) new_epoch) (cp_group c)\<rparr>;
          c2 = snd (ensure_partition_leader (set_replicas c1 (rj_new_replicas job) new_epoch))
      in if \<not> saved then (Inl RbSaveFailed, c2)
         else (Inr (job\<lparr>rj_activated_epoch := Some new_epoch, rj_joint := False, rj_phase := EpochActivated\<rparr>), c2))"

definition rb_safety_window :: "cluster_part \<Rightarrow> rebalance_job \<Rightarrow> rb_result" where
  "rb_safety_window c job = (Inr (job\<lparr>rj_phase := SafetyWindow\<rparr>), c)"

definition rb_reclaimed :: "cluster_part \<Rightarrow> rebalance_job \<Rightarrow> rb_result" where
  "rb_reclaimed c job = (Inr (job\<lparr>rj_phase := Reclaimed\<rparr>), c)"

lemmas rb_last_defs [simp] = rb_safety_window_def rb_reclaimed_def

fun rb_enter :: "bool \<Rightarrow> cluster_part \<Rightarrow> rebalance_job \<Rightarrow> rebalance_phase \<Rightarrow> rb_result" where
  "rb_enter saved c job LearnersAdded = rb_learners_added c job"
| "rb_enter saved c job SegmentsCopied = rb_segments_copied c job"
| "rb_enter saved c job LogCaughtUp = rb_log_caught_up c job"
| "rb_enter saved c job MembershipChanged = rb_membership_changed c job"
| "rb_enter saved c job EpochActivated = rb_epoch_activated saved c job"
| "rb_enter saved c job SafetyWindow = rb_safety_window c job"
| "rb_enter saved c job Reclaimed = rb_reclaimed c job"
| "rb_enter saved c job PlanCommitted = (Inl RbReenterPlan, c)"

text \<open>One advance. The two flags say whether the directory file and the job file are written.\<close>

definition advance_rebalance :: "bool \<times> bool \<Rightarrow> cluster_part \<Rightarrow> rb_result" where
  "advance_rebalance saves c =
     (case cp_job c of
        None \<Rightarrow> (Inl RbNoJob, c)
      | Some job \<Rightarrow>
          if rj_phase job = Reclaimed then (Inl RbComplete, c)
          else (case phase_next (rj_phase job) of
            None \<Rightarrow> (Inl RbNoNext, c)
          | Some ph \<Rightarrow>
              (case rb_enter (fst saves) c job ph of
                 (Inl e, c1) \<Rightarrow> (Inl e, c1)
               | (Inr updated, c1) \<Rightarrow>
                   let c2 = c1\<lparr>cp_job := (if rj_phase updated = Reclaimed then None else Some updated)\<rparr>
                   in if snd saves then (Inr updated, c2\<lparr>cp_job_file := cp_job c2\<rparr>) else (Inl RbSaveFailed, c2))))"

definition phase_rank :: "rebalance_phase \<Rightarrow> nat" where
  "phase_rank ph = (case ph of PlanCommitted \<Rightarrow> 0 | LearnersAdded \<Rightarrow> 1 | SegmentsCopied \<Rightarrow> 2 | LogCaughtUp \<Rightarrow> 3
     | MembershipChanged \<Rightarrow> 4 | EpochActivated \<Rightarrow> 5 | SafetyWindow \<Rightarrow> 6 | Reclaimed \<Rightarrow> 7)"

lemma phase_next_rank: "phase_next ph = Some ph' \<Longrightarrow> phase_rank ph' = Suc (phase_rank ph)"
  by (cases ph) (auto simp: phase_rank_def)

lemma phase_next_cases:
  assumes "phase_next ph = Some ph'"
  shows "ph' \<noteq> PlanCommitted" "ph \<noteq> Reclaimed"
  using assms by (cases ph; auto)+

lemma open_learners_keeps: "open_learners c ds = (e, c') \<Longrightarrow> cp_job c' = cp_job c \<and> cp_group c' = cp_group c
    \<and> cp_assignment c' = cp_assignment c"
  by (induction ds arbitrary: c) (auto split: if_splits)

lemma open_learners_file: "open_learners c ds = (e, c') \<Longrightarrow> cp_job_file c' = cp_job_file c"
  by (induction ds arbitrary: c) (auto split: if_splits)

lemma ensure_partition_leader_job [simp]: "cp_job (snd (ensure_partition_leader c)) = cp_job c"
  by (auto simp: ensure_partition_leader_def set_leader_def split: option.splits prod.splits sum.splits)

lemma rb_enter_job:
  assumes "rb_enter saved c job ph = (res, c')"
  shows "cp_job c' = cp_job c" "res = Inr job' \<Longrightarrow> rj_phase job' = ph"
proof -
  have "cp_job c' = cp_job c \<and> (res = Inr job' \<longrightarrow> rj_phase job' = ph)"
    using assms
    by (cases ph) (auto simp: rb_learners_added_def rb_segments_copied_def rb_log_caught_up_def rb_membership_changed_def
      rb_epoch_activated_def set_replicas_def Let_def split: option.splits prod.splits sum.splits if_splits dest!: open_learners_keeps)
  then show "cp_job c' = cp_job c" "res = Inr job' \<Longrightarrow> rj_phase job' = ph" by blast+
qed

lemma advance_progress:
  assumes "advance_rebalance saves c = (Inr job', c')"
  shows "\<exists>job. cp_job c = Some job \<and> phase_next (rj_phase job) = Some (rj_phase job')"
    "cp_job c' = (if rj_phase job' = Reclaimed then None else Some job')"
proof -
  obtain job ph c1 where j: "cp_job c = Some job" "phase_next (rj_phase job) = Some ph" "rb_enter (fst saves) c job ph = (Inr job', c1)"
    and c': "cp_job c' = (if rj_phase job' = Reclaimed then None else Some job')"
    using assms by (auto simp: advance_rebalance_def Let_def split: option.splits prod.splits sum.splits if_splits)
  then show "\<exists>job. cp_job c = Some job \<and> phase_next (rj_phase job) = Some (rj_phase job')"
    "cp_job c' = (if rj_phase job' = Reclaimed then None else Some job')"
    using rb_enter_job(2) [OF j(3)] by auto
qed

definition phases_left :: "cluster_part \<Rightarrow> rebalance_job \<Rightarrow> nat" where
  "phases_left c job = (if rj_phase job = Reclaimed then 0
     else case cp_job c of None \<Rightarrow> 1 | Some j \<Rightarrow> 9 - phase_rank (rj_phase j))"

lemma advance_phases_left:
  assumes adv: "(Inr job1, c1) = advance_rebalance saves c" and run: "rj_phase job \<noteq> Reclaimed"
  shows "phases_left c1 job1 < phases_left c job"
proof -
  obtain j where j: "cp_job c = Some j" "phase_next (rj_phase j) = Some (rj_phase job1)"
    using advance_progress(1) [OF adv [symmetric]] by blast
  have "phase_rank (rj_phase job1) = Suc (phase_rank (rj_phase j))" "phase_rank (rj_phase j) \<le> 7"
    using phase_next_rank [OF j(2)] by (auto simp: phase_rank_def split: rebalance_phase.splits)
  then show ?thesis using run j advance_progress(2) [OF adv [symmetric]] by (auto simp: phases_left_def)
qed

text \<open>The loop that runs a job to its end. It stops because every advance enters the next phase.\<close>

function rebalance_loop :: "(nat \<Rightarrow> bool \<times> bool) \<Rightarrow> nat \<Rightarrow> cluster_part \<Rightarrow> rebalance_job \<Rightarrow> rebalance_phase list \<Rightarrow>
    (rb_error + rebalance_job \<times> rebalance_phase list) \<times> cluster_part" where
  "rebalance_loop saves k c job phases =
     (if rj_phase job = Reclaimed then (Inr (job, phases), c)
      else (case advance_rebalance (saves k) c of
        (Inl e, c1) \<Rightarrow> (Inl e, c1)
      | (Inr job1, c1) \<Rightarrow> rebalance_loop saves (Suc k) c1 job1 (phases @ [rj_phase job1])))"
  by pat_completeness auto
termination rebalance_loop
  by (relation "measure (\<lambda>(_, _, c, job, _). phases_left c job)") (auto simp: advance_phases_left)

declare rebalance_loop.simps [simp del]

definition rebalance_partition :: "string \<Rightarrow> nat \<Rightarrow> bool \<Rightarrow> (nat \<Rightarrow> bool \<times> bool) \<Rightarrow> cluster_part \<Rightarrow> node_id list \<Rightarrow>
    (rb_error + rebalance_job \<times> rebalance_phase list) \<times> cluster_part" where
  "rebalance_partition job_id partition_id saved saves c new =
     (case begin_rebalance job_id partition_id saved c new of
        (Inl e, c1) \<Rightarrow> (Inl e, c1)
      | (Inr job, c1) \<Rightarrow> rebalance_loop saves 0 c1 job [PlanCommitted])"

text \<open>What opening a cluster does with a recorded job: the peers of destinations and old replicas come
  back from their directories, and the voters follow the phase.\<close>

fun restore_learners :: "(node_id \<Rightarrow> raft_peer_store option) \<Rightarrow> bool \<Rightarrow> partition_raft \<Rightarrow> node_id list \<Rightarrow> rb_error + partition_raft" where
  "restore_learners disk all g [] = Inr g"
| "restore_learners disk all g (d # ds) =
     (if \<not> all \<and> pr_peers g d \<noteq> None then restore_learners disk all g ds
      else case disk d of
        None \<Rightarrow> Inl (RbPeerStore d)
      | Some st \<Rightarrow> restore_learners disk all (restore_peer_from_store (ensure_peer (attach_store g st) d) d) ds)"

definition restore_rebalance_raft_state :: "(node_id \<Rightarrow> raft_peer_store option) \<Rightarrow> rebalance_job \<Rightarrow> partition_raft \<Rightarrow>
    rb_error + partition_raft" where
  "restore_rebalance_raft_state disk job g =
     (case restore_learners disk True g (rj_destinations job) of
        Inl e \<Rightarrow> Inl e
      | Inr g1 \<Rightarrow>
          (case restore_learners disk False g1 (rj_old_replicas job) of
             Inl e \<Rightarrow> Inl e
           | Inr g2 \<Rightarrow> Inr
               (if phase_is_joint (rj_phase job) \<or> rj_joint job
                then set_joint_voters g2 (rj_old_replicas job) (rj_new_replicas job) (rj_plan_epoch job)
                else if new_placement_authoritative (rj_phase job)
                then set_voters g2 (rj_new_replicas job) (case rj_activated_epoch job of None \<Rightarrow> rj_plan_epoch job | Some e \<Rightarrow> e)
                else set_voters g2 (rj_old_replicas job) (rj_plan_epoch job))))"

text \<open>Opening a cluster builds each group from the directory and the peer directories, then applies
  the recorded job.\<close>

fun restore_replicas :: "(node_id \<Rightarrow> raft_peer_store option) \<Rightarrow> partition_raft \<Rightarrow> node_id list \<Rightarrow> rb_error + partition_raft" where
  "restore_replicas disk g [] = Inr g"
| "restore_replicas disk g (n # ns) =
     (case disk n of
        None \<Rightarrow> Inl (RbPeerStore n)
      | Some st \<Rightarrow> restore_replicas disk (restore_peer_from_store (attach_store g st) n) ns)"

definition attach_and_restore_raft_stores :: "(node_id \<Rightarrow> raft_peer_store option) \<Rightarrow> partition_assignment \<Rightarrow> partition_raft \<Rightarrow>
    rb_error + partition_raft" where
  "attach_and_restore_raft_stores disk a g =
     (case restore_replicas disk g (pa_replicas a) of
        Inl e \<Rightarrow> Inl e
      | Inr g1 \<Rightarrow> Inr (if pr_joint g1 then g1 else set_voters g1 (pa_replicas a) (pa_placement_epoch a)))"

definition open_partition :: "(node_id \<Rightarrow> raft_peer_store option) \<Rightarrow> nat \<Rightarrow> partition_assignment \<Rightarrow> rebalance_job option \<Rightarrow>
    rb_error + partition_raft" where
  "open_partition disk part a jb =
     (case attach_and_restore_raft_stores disk a (partition_raft_new part (pa_replicas a) (pa_placement_epoch a)) of
        Inl e \<Rightarrow> Inl e
      | Inr g \<Rightarrow> (case jb of None \<Rightarrow> Inr g | Some job \<Rightarrow> restore_rebalance_raft_state disk job g))"

section \<open>An example move\<close>

text \<open>Node 2 commits a write with node 3 while node 1 does not answer. Then the partition moves from
  nodes 1, 2, 3 to node 1, with every node online and every file written.\<close>

definition ex_rb_group :: partition_raft where
  "ex_rb_group = projr (run_steps raft_step (raft_start 0 [1, 2, 3] 0 [])
     [([], OpElect 2 [2, 3]), ([], OpPropose 2 (CmdPut [7] [8]) [2, 3])])"

definition ex_rb_cluster :: cluster_part where
  "ex_rb_cluster = \<lparr>cp_group = Some ex_rb_group,
     cp_assignment = Some \<lparr>pa_replicas = [1, 2, 3], pa_leader = 2, pa_term = 1, pa_placement_epoch = 0\<rparr>, cp_epoch = 0,
     cp_online = [1, 2, 3], cp_paths = [1, 2, 3], cp_opens = [1, 2, 3], cp_disk = (\<lambda>n. Some (raft_peer_store_open n)), cp_copy = (\<lambda>_ _. Some 0), cp_job = None, cp_job_file = None\<rparr>"

definition ex_rb_done :: "(rb_error + rebalance_job \<times> rebalance_phase list) \<times> cluster_part" where
  "ex_rb_done = rebalance_partition ''rb'' 0 True (\<lambda>_. (True, True)) ex_rb_cluster [1]"

lemma ex_rb_group_reachable: "raft_reachable ex_rb_group"
proof -
  have "start_ok [1, 2, 3] []" by code_simp
  moreover have "raft_runs (raft_start 0 [1, 2, 3] 0 []) ex_rb_group"
    unfolding ex_rb_group_def by (rule run_steps_raft_runs) code_simp
  ultimately show ?thesis unfolding raft_reachable_def by blast
qed

lemma ex_rb_group_facts:
  "pr_voters ex_rb_group = [1, 2, 3]"
  "map_option (\<lambda>p. (rp_node_id p, rp_role p, rp_log p, rp_current_term p, rp_commit_index p)) (pr_peers ex_rb_group 1) = Some (1, Follower, [], 0, 0)"
  "map_option committed_log (pr_peers ex_rb_group 2) = Some [ex_entry 1 (CmdPut [7] [8])]"
  "current_leader ex_rb_group = Some (2, 1)" "map_option st_node (pr_stores ex_rb_group 1) = None"
  by code_simp+

text \<open>The steps up to the election of the new set's leader.\<close>

definition ex_rb_moved :: partition_raft where
  "ex_rb_moved = set_voters (set_joint_voters ex_rb_group [1, 2, 3] [1] 0) [1] 1"

definition ex_rb_final :: partition_raft where
  "ex_rb_final = snd (ensure_leader_preferring ex_rb_moved [1, 2, 3] (Some 1))"

lemma ex_rb_done_eq:
  "\<exists>job. fst ex_rb_done = Inr (job, [PlanCommitted, LearnersAdded, SegmentsCopied, LogCaughtUp, MembershipChanged, EpochActivated,
      SafetyWindow, Reclaimed]) \<and> rj_phase job = Reclaimed \<and> cp_group (snd ex_rb_done) = Some ex_rb_final"
  using ex_rb_group_facts(4)
  by (auto simp: ex_rb_done_def rebalance_partition_def begin_rebalance_def ex_rb_cluster_def job_plan_def rebalance_loop.simps
      advance_rebalance_def rb_learners_added_def rb_segments_copied_def rb_log_caught_up_def rb_log_source_def rb_membership_changed_def
      rb_epoch_activated_def ensure_partition_leader_def set_replicas_def set_leader_def add64_def ex_rb_final_def ex_rb_moved_def Let_def
      split: prod.splits sum.splits)

section \<open>Every run of a job ends\<close>

definition all_phases :: "rebalance_phase list" where
  "all_phases = [PlanCommitted, LearnersAdded, SegmentsCopied, LogCaughtUp, MembershipChanged, EpochActivated, SafetyWindow, Reclaimed]"

lemma phases_after: "phase_next ph = Some ph' \<Longrightarrow> take (Suc (phase_rank ph)) all_phases @ [ph'] = take (Suc (phase_rank ph')) all_phases"
  by (cases ph) (auto simp: all_phases_def phase_rank_def)

lemma rebalance_loop_phases:
  assumes "rebalance_loop saves k c job phases = (Inr (job', phases'), c')" "cp_job c = Some job"
    "phases = take (Suc (phase_rank (rj_phase job))) all_phases"
  shows "rj_phase job' = Reclaimed \<and> phases' = all_phases \<and> (rj_phase job \<noteq> Reclaimed \<longrightarrow> cp_job c' = None)"
  using assms
proof (induction saves k c job phases rule: rebalance_loop.induct)
  case (1 saves k c job phases)
  show ?case
  proof (cases "rj_phase job = Reclaimed")
    case True
    then show ?thesis using "1.prems" by (simp add: rebalance_loop.simps all_phases_def phase_rank_def)
  next
    case False
    then obtain job1 c1 where a: "advance_rebalance (saves k) c = (Inr job1, c1)"
      and rest: "rebalance_loop saves (Suc k) c1 job1 (phases @ [rj_phase job1]) = (Inr (job', phases'), c')"
      using "1.prems"(1) by (subst (asm) rebalance_loop.simps) (auto split: prod.splits sum.splits)
    have nx: "phase_next (rj_phase job) = Some (rj_phase job1)" using advance_progress(1) [OF a] "1.prems"(2) by simp
    have ph: "phases @ [rj_phase job1] = take (Suc (phase_rank (rj_phase job1))) all_phases" using phases_after [OF nx] "1.prems"(3) by simp
    show ?thesis
    proof (cases "rj_phase job1 = Reclaimed")
      case True
      then have "job' = job1" "phases' = phases @ [rj_phase job1]" "c' = c1" using rest by (simp_all add: rebalance_loop.simps)
      then show ?thesis using True ph advance_progress(2) [OF a] by (simp add: all_phases_def phase_rank_def)
    next
      case False
      have "cp_job c1 = Some job1" using advance_progress(2) [OF a] False by simp
      then show ?thesis using "1.IH" [OF \<open>rj_phase job \<noteq> Reclaimed\<close> _ _ rest _ ph] a False by auto
    qed
  qed
qed

lemma rebalance_success:
  assumes "rebalance_partition job_id part saved saves c new = (Inr (job, phases), c')"
  shows "rj_phase job = Reclaimed" "phases = all_phases" "cp_job c' = None"
proof -
  obtain j c1 where b: "begin_rebalance job_id part saved c new = (Inr j, c1)"
    and l: "rebalance_loop saves 0 c1 j [PlanCommitted] = (Inr (job, phases), c')"
    using assms by (auto simp: rebalance_partition_def split: prod.splits sum.splits)
  have "cp_job c1 = Some j" "rj_phase j = PlanCommitted"
    using b by (auto simp: begin_rebalance_def job_plan_def Let_def split: if_splits option.splits)
  then show "rj_phase job = Reclaimed" "phases = all_phases" "cp_job c' = None"
    using rebalance_loop_phases [OF l] by (simp_all add: all_phases_def phase_rank_def)
qed

text \<open>What the remaining steps of a job need: up to the copy an online source, up to the log stream a group
  with the log of an old replica, and stores of all destinations.\<close>

definition rb_able :: "cluster_part \<Rightarrow> rebalance_job \<Rightarrow> bool" where
  "rb_able c job \<longleftrightarrow>
     (rj_phase job \<in> {PlanCommitted, LearnersAdded, SegmentsCopied} \<longrightarrow>
        (\<exists>g. cp_group c = Some g \<and> (\<exists>n \<in> set (rj_old_replicas job). pr_peers g n \<noteq> None)))
   \<and> (\<forall>d \<in> set (rj_destinations job). cp_disk c d \<noteq> None \<and> (d \<in> set (cp_online c) \<or> d \<in> set (cp_paths c) \<and> d \<in> set (cp_opens c)))
   \<and> (\<exists>n \<in> set (rj_old_replicas job). n \<in> set (cp_online c))
   \<and> (\<forall>src d. cp_copy c src d \<noteq> None)
   \<and> (rj_phase job = LearnersAdded \<longrightarrow> set (rj_destinations job) \<subseteq> set (cp_online c))"

lemma attach_learners_able:
  assumes "\<forall>d \<in> set ds. disk d \<noteq> None"
  shows "\<exists>g'. attach_learners disk g ds = (None, g') \<and> (\<forall>n. pr_peers g n \<noteq> None \<longrightarrow> pr_peers g' n \<noteq> None)"
  using assms
proof (induction ds arbitrary: g)
  case (Cons d ds)
  then obtain st where st: "disk d = Some st" by auto
  have "pr_peers (attach_store (ensure_peer g d) st) n \<noteq> None" if "pr_peers g n \<noteq> None" for n
    using that by (auto simp: attach_store_def ensure_peer_def set_peer_def)
  moreover obtain g' where "attach_learners disk (attach_store (ensure_peer g d) st) ds = (None, g')"
    "\<forall>n. pr_peers (attach_store (ensure_peer g d) st) n \<noteq> None \<longrightarrow> pr_peers g' n \<noteq> None"
    using Cons.IH [of "attach_store (ensure_peer g d) st"] Cons.prems by auto
  ultimately show ?case by (auto simp: st)
qed simp

lemma open_learners_able:
  assumes "\<forall>d \<in> set ds. d \<in> set (cp_online c) \<or> d \<in> set (cp_paths c) \<and> d \<in> set (cp_opens c)"
  shows "\<exists>on. open_learners c ds = (None, c\<lparr>cp_online := on\<rparr>) \<and> set ds \<union> set (cp_online c) \<subseteq> set on"
  using assms
proof (induction ds arbitrary: c)
  case (Cons d ds)
  show ?case
  proof (cases "d \<in> set (cp_online c)")
    case True
    obtain on where "open_learners c ds = (None, c\<lparr>cp_online := on\<rparr>)" "set ds \<union> set (cp_online c) \<subseteq> set on"
      using Cons.IH [of c] Cons.prems by auto
    then show ?thesis using True by (intro exI [of _ on]) auto
  next
    case False
    obtain on where "open_learners (c\<lparr>cp_online := insort d (cp_online c)\<rparr>) ds = (None, c\<lparr>cp_online := on\<rparr>)"
      "set ds \<union> insert d (set (cp_online c)) \<subseteq> set on"
      using Cons.IH [of "c\<lparr>cp_online := insort d (cp_online c)\<rparr>"] Cons.prems by (auto simp: set_insort_key)
    then show ?thesis using False Cons.prems by (intro exI [of _ on]) auto
  qed
next
  case Nil
  show ?case by (intro exI [of _ "cp_online c"]) simp
qed

lemma copy_subjects_able:
  assumes "set ds \<subseteq> set (cp_online c)" "\<forall>src d. cp_copy c src d \<noteq> None"
  shows "\<exists>k. copy_subjects c src ds n = Inr k"
  using assms(1)
proof (induction ds arbitrary: n)
  case (Cons d ds)
  obtain k where "cp_copy c src d = Some k" using assms(2) by fastforce
  then show ?case using Cons by simp
qed simp

lemma learners_able:
  assumes "rb_able c job" "rj_phase job = PlanCommitted"
  shows "\<exists>job' c'. rb_learners_added c job = (Inr job', c') \<and> rb_able c' job'"
proof -
  obtain g n where g: "cp_group c = Some g" "n \<in> set (rj_old_replicas job)" "pr_peers g n \<noteq> None" using assms by (auto simp: rb_able_def)
  obtain g' where g': "attach_learners (cp_disk c) g (rj_destinations job) = (None, g')" "pr_peers g' n \<noteq> None"
    using attach_learners_able [of "rj_destinations job" "cp_disk c" g] assms(1) g(3) by (auto simp: rb_able_def)
  obtain on where on: "open_learners (c\<lparr>cp_group := Some g'\<rparr>) (rj_destinations job) = (None, c\<lparr>cp_group := Some g', cp_online := on\<rparr>)"
    "set (rj_destinations job) \<union> set (cp_online c) \<subseteq> set on"
    using open_learners_able [of "rj_destinations job" "c\<lparr>cp_group := Some g'\<rparr>"] assms(1) by (auto simp: rb_able_def)
  show ?thesis
    using assms(1) g g' on by (auto simp: rb_learners_added_def rb_able_def)
qed

lemma segments_able:
  assumes "rb_able c job" "rj_phase job = LearnersAdded"
  shows "\<exists>job' c'. rb_segments_copied c job = (Inr job', c') \<and> rb_able c' job'"
proof -
  obtain src where src: "find (\<lambda>n. n \<in> set (cp_online c)) (rj_old_replicas job) = Some src"
    using assms by (cases "find (\<lambda>n. n \<in> set (cp_online c)) (rj_old_replicas job)") (auto simp: rb_able_def find_None_iff)
  obtain k where "copy_subjects c src (rj_destinations job) (rj_subjects_copied job) = Inr k"
    using copy_subjects_able assms unfolding rb_able_def by meson
  then show ?thesis using assms src by (auto simp: rb_segments_copied_def rb_able_def)
qed

lemma log_able:
  assumes "rb_able c job" "rj_phase job = SegmentsCopied"
  shows "\<exists>job' c'. rb_log_caught_up c job = (Inr job', c') \<and> rb_able c' job'"
proof -
  obtain g n where g: "cp_group c = Some g" "n \<in> set (rj_old_replicas job)" "pr_peers g n \<noteq> None" using assms by (auto simp: rb_able_def)
  have "rb_log_source g job \<noteq> None" using g(2,3) by (cases "current_leader g") (auto simp: rb_log_source_def find_None_iff simp del: not_None_eq)
  then show ?thesis using assms g by (auto simp: rb_log_caught_up_def rb_able_def split: prod.splits)
qed

lemma ensure_partition_leader_inputs [simp]:
  "cp_disk (snd (ensure_partition_leader c)) = cp_disk c" "cp_online (snd (ensure_partition_leader c)) = cp_online c"
  "cp_paths (snd (ensure_partition_leader c)) = cp_paths c" "cp_opens (snd (ensure_partition_leader c)) = cp_opens c"
  "cp_copy (snd (ensure_partition_leader c)) = cp_copy c"
  by (auto simp: ensure_partition_leader_def set_leader_def split: option.splits prod.splits sum.splits)

lemma enter_able:
  assumes "rb_able c job" "phase_next (rj_phase job) = Some ph"
  shows "\<exists>job' c'. rb_enter True c job ph = (Inr job', c') \<and> rb_able c' job'"
  using assms learners_able segments_able log_able
  by (cases "rj_phase job") (auto simp: rb_membership_changed_def rb_epoch_activated_def set_replicas_def rb_able_def Let_def)

lemma rebalance_loop_able:
  assumes "rb_able c job" "cp_job c = Some job" "\<forall>k. saves k = (True, True)"
  shows "\<exists>res c'. rebalance_loop saves k c job phases = (Inr res, c')"
  using assms
proof (induction saves k c job phases rule: rebalance_loop.induct)
  case (1 saves k c job phases)
  show ?case
  proof (cases "rj_phase job = Reclaimed")
    case False
    then obtain ph where ph: "phase_next (rj_phase job) = Some ph" by (cases "rj_phase job") auto
    obtain job' c1 where e: "rb_enter True c job ph = (Inr job', c1)" "rb_able c1 job'" using enter_able [OF 1(2) ph] by blast
    let ?jb = "if rj_phase job' = Reclaimed then None else Some job'"
    let ?c = "c1\<lparr>cp_job := ?jb, cp_job_file := ?jb\<rparr>"
    have a: "advance_rebalance (saves k) c = (Inr job', ?c)" using 1(3,4) False ph e by (simp add: advance_rebalance_def)
    have able: "rb_able ?c job'" using e(2) by (simp add: rb_able_def)
    have "\<exists>res c'. rebalance_loop saves (Suc k) ?c job' (phases @ [rj_phase job']) = (Inr res, c')"
    proof (cases "rj_phase job' = Reclaimed")
      case False
      then have "cp_job ?c = Some job'" by simp
      then show ?thesis using 1(1) [OF \<open>rj_phase job \<noteq> Reclaimed\<close> a [symmetric] refl] able 1(4) by blast
    qed (simp add: rebalance_loop.simps)
    then show ?thesis using False a by (simp add: rebalance_loop.simps [of _ _ c])
  qed (simp add: rebalance_loop.simps)
qed

text \<open>C7: Running a rebalance ends, and ends well when nothing stands in its way. Every named node has a
  store that is online or opens, the peer directories of the new nodes open, some old replica is
  online, the group holds the log of some old replica, and copies and file writes succeed: then the loop goes
  through the eight phases in their order and leaves no job in flight, whatever the leader elections give.\<close>

theorem rebalance_completes:
  assumes "new \<noteq> []" "cp_job c = None" "cp_assignment c = Some a" "cp_group c = Some g"
    and "\<forall>n \<in> set new. n \<in> set (cp_online c) \<or> n \<in> set (cp_paths c) \<and> n \<in> set (cp_opens c)"
    and "\<forall>n \<in> set new. cp_disk c n \<noteq> None"
    and "\<exists>n \<in> set (pa_replicas a). n \<in> set (cp_online c)" "\<exists>n \<in> set (pa_replicas a). pr_peers g n \<noteq> None"
    and "\<forall>src d. cp_copy c src d \<noteq> None" "\<forall>k. saves k = (True, True)"
  shows "\<exists>job c'. rebalance_partition job_id part True saves c new = (Inr (job, all_phases), c') \<and> rj_phase job = Reclaimed \<and> cp_job c' = None"
proof -
  define j where "j = job_plan job_id part (pa_replicas a) new (cp_epoch c)"
  let ?c = "c\<lparr>cp_job := Some j, cp_job_file := Some j\<rparr>"
  have "find (\<lambda>n. n \<notin> set (cp_paths c) \<and> n \<notin> set (cp_online c)) new = None" using assms(5) by (auto simp: find_None_iff)
  then have b: "begin_rebalance job_id part True c new = (Inr j, ?c)" using assms by (simp add: begin_rebalance_def j_def Let_def)
  have "rb_able ?c j" using assms by (auto simp: rb_able_def j_def job_plan_def)
  then obtain job phases c' where done': "rebalance_partition job_id part True saves c new = (Inr (job, phases), c')"
    using rebalance_loop_able [of ?c j saves 0 "[PlanCommitted]"] assms(10) b by (auto simp: rebalance_partition_def)
  show ?thesis using done' rebalance_success [OF done'] by blast
qed

theorem rebalance_completes_witness:
  "\<exists>job c'. ex_rb_done = (Inr (job, all_phases), c') \<and> rj_phase job = Reclaimed \<and> cp_job c' = None"
proof -
  obtain p where "pr_peers ex_rb_group 1 = Some p" using ex_rb_group_facts(2) by auto
  then show ?thesis
    using rebalance_completes [of "[1]" ex_rb_cluster "\<lparr>pa_replicas = [1, 2, 3], pa_leader = 2, pa_term = 1, pa_placement_epoch = 0\<rparr>"
        ex_rb_group "\<lambda>_. (True, True)" "''rb''" 0]
    by (auto simp: ex_rb_cluster_def ex_rb_done_def)
qed

section \<open>The recorded placement\<close>

lemma flush_peer_voters: "flush_peer g n = (ok, g') \<Longrightarrow> pr_voters g' = pr_voters g"
  by (auto simp: flush_peer_def Let_def split: option.splits prod.splits)

lemma flush_peer_voters_snd [simp]: "pr_voters (snd (flush_peer g n)) = pr_voters g"
  using flush_peer_voters by (metis prod.collapse)

lemma set_role_voters [simp]: "pr_voters (set_role g n r) = pr_voters g"
  by (auto simp: set_role_def split: option.splits)

lemma request_vote_voters: "request_vote g v c t li lt = (res, g') \<Longrightarrow> pr_voters g' = pr_voters g"
  by (auto simp: request_vote_def Let_def split: option.splits prod.splits if_splits dest!: flush_peer_voters)

lemma solicit_votes_voters: "solicit_votes g vs c online t li lt k = (a, b, g') \<Longrightarrow> pr_voters g' = pr_voters g"
  by (induction vs arbitrary: g k) (auto simp: Let_def split: prod.splits if_splits dest!: request_vote_voters)

lemma step_down_rivals_voters [simp]: "pr_voters (step_down_rivals c t vs g) = pr_voters g"
  by (induction vs arbitrary: g) (auto split: option.splits)

lemma elect_conclude_voters: "elect_conclude g c t k h = (res, g') \<Longrightarrow> pr_voters g' = pr_voters g"
  by (auto simp: elect_conclude_def Let_def split: option.splits if_splits)

lemma elect_voters: "elect g c online = (res, g') \<Longrightarrow> pr_voters g' = pr_voters g"
  by (auto simp: elect_def Let_def split: option.splits prod.splits if_splits
      dest!: flush_peer_voters solicit_votes_voters elect_conclude_voters)

lemma try_candidates_voters: "try_candidates g cs online e = (res, g') \<Longrightarrow> pr_voters g' = pr_voters g"
  by (induction cs arbitrary: g e) (auto split: prod.splits sum.splits dest!: elect_voters)

lemma ensure_leader_voters: "ensure_leader_preferring g online pref = (res, g') \<Longrightarrow> pr_voters g' = pr_voters g"
  by (auto simp: ensure_leader_preferring_def elect_among_def Let_def split: option.splits if_splits dest!: try_candidates_voters)

lemma ensure_peer_voters [simp]: "pr_voters (ensure_peer g n) = pr_voters g"
  by (simp add: ensure_peer_def)

lemma stream_log_voters: "stream_log_to g l d = (n, g') \<Longrightarrow> pr_voters g' = pr_voters g"
  by (auto simp: stream_log_to_def Let_def split: option.splits if_splits)

lemma stream_all_voters: "stream_all g l ds k = (n, g') \<Longrightarrow> pr_voters g' = pr_voters g"
  by (induction ds arbitrary: g k) (auto split: prod.splits dest!: stream_log_voters)

lemma set_voters_voters [simp]: "pr_voters (set_voters g vs e) = vs"
  by (simp add: set_voters_def Let_def persist_membership_def step_down_non_voters_def)

lemma set_joint_voters_voters [simp]: "pr_voters (set_joint_voters g old new e) = joint_union old new"
  by (simp add: set_joint_voters_def joint_union_def Let_def persist_membership_def step_down_non_voters_def)

lemma attach_learners_voters: "attach_learners disk g ds = (e, g') \<Longrightarrow> pr_voters g' = pr_voters g"
  by (induction ds arbitrary: g) (auto simp: attach_store_def split: option.splits)

lemma ensure_partition_leader_voters:
  "map_option pr_voters (cp_group (snd (ensure_partition_leader c))) = map_option pr_voters (cp_group c)"
  "map_option pa_replicas (cp_assignment (snd (ensure_partition_leader c))) = map_option pa_replicas (cp_assignment c)"
  by (auto simp: ensure_partition_leader_def set_leader_def option.map_comp comp_def split: option.splits prod.splits sum.splits
      dest!: ensure_leader_voters)

text \<open>The group votes with the set the job records. The directory names the old set before the joint
  phase and the new set after it; in between it may be either, since it is written before the job file.\<close>

definition directory_fits :: "rebalance_job \<Rightarrow> node_id list option \<Rightarrow> bool" where
  "directory_fits j replicas \<longleftrightarrow> rj_phase j \<noteq> Reclaimed \<and> (rj_joint j \<longleftrightarrow> phase_is_joint (rj_phase j))
     \<and> (\<forall>rs. replicas = Some rs \<longrightarrow> (old_placement_authoritative (rj_phase j) \<longrightarrow> rs = rj_old_replicas j)
         \<and> (new_placement_authoritative (rj_phase j) \<longrightarrow> rs = rj_new_replicas j)
         \<and> (phase_is_joint (rj_phase j) \<longrightarrow> rs = rj_old_replicas j \<or> rs = rj_new_replicas j))"

definition job_recorded :: "rebalance_job option \<Rightarrow> node_id list option \<Rightarrow> node_id list option \<Rightarrow> bool" where
  "job_recorded jb replicas voters \<longleftrightarrow> (case jb of
     None \<Rightarrow> (\<forall>vs rs. voters = Some vs \<longrightarrow> replicas = Some rs \<longrightarrow> vs = rs)
   | Some j \<Rightarrow> directory_fits j replicas \<and> (\<forall>vs. voters = Some vs \<longrightarrow> vs = authoritative_voters j))"

definition placement_recorded :: "cluster_part \<Rightarrow> bool" where
  "placement_recorded c \<longleftrightarrow> job_recorded (cp_job c) (map_option pa_replicas (cp_assignment c)) (map_option pr_voters (cp_group c))
     \<and> (\<forall>j. cp_job_file c = Some j \<longrightarrow> directory_fits j (map_option pa_replicas (cp_assignment c)))"

lemmas phase_defs = old_placement_authoritative_def phase_is_joint_def new_placement_authoritative_def

lemma epoch_activated_views:
  assumes "rb_epoch_activated True c job = (res, c')"
  shows "res = Inr (job\<lparr>rj_activated_epoch := Some (add64 (rj_plan_epoch job) 1), rj_joint := False, rj_phase := EpochActivated\<rparr>)"
    "map_option pr_voters (cp_group c') = map_option (\<lambda>_. rj_new_replicas job) (cp_group c)"
    "map_option pa_replicas (cp_assignment c') = map_option (\<lambda>_. rj_new_replicas job) (cp_assignment c)"
proof -
  let ?c = "set_replicas (c\<lparr>cp_group := map_option (\<lambda>g. set_voters g (rj_new_replicas job) (add64 (rj_plan_epoch job) 1)) (cp_group c)\<rparr>)
    (rj_new_replicas job) (add64 (rj_plan_epoch job) 1)"
  have r: "res = Inr (job\<lparr>rj_activated_epoch := Some (add64 (rj_plan_epoch job) 1), rj_joint := False, rj_phase := EpochActivated\<rparr>)"
    and c': "c' = snd (ensure_partition_leader ?c)"
    using assms by (simp_all add: rb_epoch_activated_def Let_def)
  have "map_option pr_voters (cp_group ?c) = map_option (\<lambda>_. rj_new_replicas job) (cp_group c)"
    "map_option pa_replicas (cp_assignment ?c) = map_option (\<lambda>_. rj_new_replicas job) (cp_assignment c)"
    by (simp_all add: set_replicas_def option.map_comp comp_def)
  then show "res = Inr (job\<lparr>rj_activated_epoch := Some (add64 (rj_plan_epoch job) 1), rj_joint := False, rj_phase := EpochActivated\<rparr>)"
    "map_option pr_voters (cp_group c') = map_option (\<lambda>_. rj_new_replicas job) (cp_group c)"
    "map_option pa_replicas (cp_assignment c') = map_option (\<lambda>_. rj_new_replicas job) (cp_assignment c)"
    using r ensure_partition_leader_voters [of ?c] unfolding c' by auto
qed

text \<open>What the other steps change of the recorded sets.\<close>

definition step_views :: "cluster_part \<Rightarrow> rebalance_job \<Rightarrow> rebalance_phase \<Rightarrow> rb_error + rebalance_job \<Rightarrow> cluster_part \<Rightarrow> bool" where
  "step_views c job ph res c' \<longleftrightarrow> map_option pa_replicas (cp_assignment c') = map_option pa_replicas (cp_assignment c)
     \<and> map_option pr_voters (cp_group c') = (if ph = MembershipChanged
         then map_option (\<lambda>_. joint_union (rj_old_replicas job) (rj_new_replicas job)) (cp_group c)
         else map_option pr_voters (cp_group c))
     \<and> (case res of Inl _ \<Rightarrow> ph \<noteq> MembershipChanged | Inr j \<Rightarrow> rj_old_replicas j = rj_old_replicas job \<and> rj_new_replicas j = rj_new_replicas job
         \<and> rj_phase j = ph \<and> rj_joint j = (ph = MembershipChanged \<or> rj_joint job))"

lemma learners_views:
  assumes "rb_learners_added c job = (res, c')" shows "step_views c job LearnersAdded res c'"
  using assms
  by (auto simp: rb_learners_added_def step_views_def Let_def split: option.splits prod.splits
      dest!: open_learners_keeps attach_learners_voters)

lemma segments_views:
  assumes "rb_segments_copied c job = (res, c')" shows "step_views c job SegmentsCopied res c'"
  using assms by (auto simp: rb_segments_copied_def step_views_def split: option.splits sum.splits)

lemma log_views:
  assumes "rb_log_caught_up c job = (res, c')" shows "step_views c job LogCaughtUp res c'"
  using assms by (auto simp: rb_log_caught_up_def step_views_def split: option.splits prod.splits dest!: stream_all_voters)

lemma enter_views:
  assumes "rb_enter True c job ph = (res, c')" "ph \<noteq> EpochActivated" "ph \<noteq> PlanCommitted"
  shows "step_views c job ph res c'"
  using assms learners_views segments_views log_views
  by (cases ph) (auto simp: rb_membership_changed_def step_views_def option.map_comp comp_def)

lemma enter_recorded:
  assumes rec: "job_recorded (Some job) (map_option pa_replicas (cp_assignment c)) (map_option pr_voters (cp_group c))"
    and nx: "phase_next (rj_phase job) = Some ph" and e: "rb_enter True c job ph = (res, c')"
  shows "job_recorded (case res of Inl _ \<Rightarrow> Some job | Inr job' \<Rightarrow> if rj_phase job' = Reclaimed then None else Some job')
    (map_option pa_replicas (cp_assignment c')) (map_option pr_voters (cp_group c'))"
proof (cases "ph = EpochActivated")
  case True
  then have "rb_epoch_activated True c job = (res, c')" using e by simp
  note v = epoch_activated_views [OF this]
  show ?thesis unfolding v by (auto simp: job_recorded_def directory_fits_def authoritative_voters_def phase_defs)
next
  case False
  have v: "step_views c job ph res c'" using enter_views [OF e False] phase_next_cases(1) [OF nx] by simp
  have js: "rj_joint job \<longleftrightarrow> rj_phase job = MembershipChanged"
    "map_option pr_voters (cp_group c) = Some vs \<Longrightarrow> vs = authoritative_voters job"
    "directory_fits job (map_option pa_replicas (cp_assignment c))" for vs
    using rec by (auto simp: job_recorded_def directory_fits_def phase_defs)
  show ?thesis
  proof (cases res)
    case (Inl x)
    then show ?thesis using v rec by (auto simp: step_views_def)
  next
    case (Inr j)
    then have "rj_phase j = ph" "rj_old_replicas j = rj_old_replicas job" "rj_new_replicas j = rj_new_replicas job"
      "rj_joint j = (ph = MembershipChanged \<or> rj_joint job)" using v by (auto simp: step_views_def)
    then show ?thesis using v Inr nx False js
      by (cases "rj_phase job") (auto simp: step_views_def job_recorded_def directory_fits_def authoritative_voters_def phase_defs)
  qed
qed

lemma enter_keeps_file:
  assumes fit: "directory_fits job (map_option pa_replicas (cp_assignment c))"
    and nx: "phase_next (rj_phase job) = Some ph" and e: "rb_enter True c job ph = (res, c')"
  shows "directory_fits job (map_option pa_replicas (cp_assignment c'))"
proof (cases "ph = EpochActivated")
  case True
  then have "rb_epoch_activated True c job = (res, c')" using e by simp
  note v = epoch_activated_views(3) [OF this]
  have "rj_phase job = MembershipChanged" using nx True by (cases "rj_phase job") auto
  then show ?thesis using fit unfolding v by (auto simp: directory_fits_def phase_defs)
next
  case False
  have "step_views c job ph res c'" using enter_views [OF e False] phase_next_cases(1) [OF nx] by simp
  then show ?thesis using fit by (simp add: step_views_def)
qed

lemma rb_enter_file: "rb_enter saved c job ph = (res, c') \<Longrightarrow> cp_job_file c' = cp_job_file c"
  by (cases ph) (auto simp: rb_learners_added_def rb_segments_copied_def rb_log_caught_up_def rb_membership_changed_def
      rb_epoch_activated_def ensure_partition_leader_def set_leader_def set_replicas_def Let_def
      split: option.splits prod.splits sum.splits if_splits dest!: open_learners_file)

lemma advance_recorded:
  assumes rec: "placement_recorded c" and fl: "cp_job_file c = cp_job c" and a: "advance_rebalance (True, saved) c = (res, c')"
  shows "placement_recorded c'"
proof (cases "cp_job c")
  case None
  then show ?thesis using rec a by (simp add: advance_rebalance_def)
next
  case (Some job)
  have jr: "job_recorded (Some job) (map_option pa_replicas (cp_assignment c)) (map_option pr_voters (cp_group c))"
    using rec Some by (simp add: placement_recorded_def)
  then have fit: "directory_fits job (map_option pa_replicas (cp_assignment c))" by (simp add: job_recorded_def)
  then obtain ph where ph: "phase_next (rj_phase job) = Some ph" "rj_phase job \<noteq> Reclaimed"
    by (cases "rj_phase job") (auto simp: directory_fits_def)
  obtain r c1 where e: "rb_enter True c job ph = (r, c1)" by fastforce
  note er = enter_recorded [OF jr ph(1) e] rb_enter_job(1) [OF e] enter_keeps_file [OF fit ph(1) e] rb_enter_file [OF e]
  show ?thesis
  proof (cases r)
    case (Inl x)
    then show ?thesis using a Some ph e er fl by (auto simp: advance_rebalance_def placement_recorded_def)
  next
    case (Inr j)
    then show ?thesis using a Some ph e er fl
      by (auto simp: advance_rebalance_def placement_recorded_def job_recorded_def Let_def split: if_splits)
  qed
qed

lemma begin_recorded:
  assumes "placement_recorded c" "cp_job_file c = cp_job c" "begin_rebalance job_id part saved c new = (res, c')"
  shows "placement_recorded c'"
proof (cases "c' = c")
  case False
  then obtain a where a: "cp_job c = None" "cp_assignment c = Some a"
    "cp_job c' = Some (job_plan job_id part (pa_replicas a) new (cp_epoch c))" "cp_job_file c' = cp_job_file c \<or> cp_job_file c' = cp_job c'"
    "cp_assignment c' = cp_assignment c" "cp_group c' = cp_group c"
    using assms(3) by (auto simp: begin_rebalance_def Let_def split: if_splits option.splits)
  have "directory_fits (job_plan job_id part (pa_replicas a) new (cp_epoch c)) (map_option pa_replicas (cp_assignment c))"
    using a(2) by (simp add: directory_fits_def job_plan_def phase_defs)
  then show ?thesis using assms(1,2) a
    by (auto simp: placement_recorded_def job_recorded_def job_plan_def authoritative_voters_def phase_defs)
qed (use assms in simp)

lemma restore_voters:
  assumes "directory_fits job rs" "restore_rebalance_raft_state disk job g0 = Inr g'"
  shows "pr_voters g' = authoritative_voters job"
  using assms by (cases "rj_phase job") (auto simp: directory_fits_def restore_rebalance_raft_state_def
      authoritative_voters_def phase_defs split: sum.splits)

lemma open_recorded:
  assumes "\<And>j. jb = Some j \<Longrightarrow> directory_fits j (Some (pa_replicas a))" "open_partition disk part a jb = Inr g" "jb \<noteq> None \<or> \<not> pr_joint g"
  shows "job_recorded jb (Some (pa_replicas a)) (Some (pr_voters g))"
proof (cases jb)
  case None
  then show ?thesis using assms(2,3)
    by (auto simp: job_recorded_def open_partition_def attach_and_restore_raft_stores_def split: sum.splits if_splits)
next
  case (Some j)
  then show ?thesis using assms(1,2) restore_voters
    by (auto simp: job_recorded_def open_partition_def split: sum.splits)
qed

text \<open>The events of a cluster: a job is begun or advanced, its file written or not, and the cluster is opened
  again with whatever the peer directories hold. After a failed write of the job file the next event is an
  opening. Without a job no peer directory records a joint membership.\<close>

datatype rb_event = RbBegin string nat bool "node_id list" | RbAdvance bool | RbReopen nat "node_id \<Rightarrow> raft_peer_store option"

fun rb_step :: "cluster_part \<Rightarrow> rb_event \<Rightarrow> rb_error + cluster_part" where
  "rb_step c (RbBegin job_id part saved new) =
     (if cp_job_file c = cp_job c then Inr (snd (begin_rebalance job_id part saved c new)) else Inl RbSaveFailed)"
| "rb_step c (RbAdvance saved) =
     (if cp_job_file c = cp_job c then Inr (snd (advance_rebalance (True, saved) c)) else Inl RbSaveFailed)"
| "rb_step c (RbReopen part disk) =
     (case cp_assignment c of
        None \<Rightarrow> Inl RbNoAssignment
      | Some a \<Rightarrow>
          (case open_partition disk part a (cp_job_file c) of
             Inl e \<Rightarrow> Inl e
           | Inr g \<Rightarrow> if cp_job_file c = None \<and> pr_joint g then Inl RbNoJob
               else Inr (c\<lparr>cp_group := Some g, cp_job := cp_job_file c, cp_disk := disk\<rparr>)))"

interpretation rb_machine: guarded_machine rb_step "\<lambda>_. True" placement_recorded
proof
  fix c ev c'
  assume rec: "placement_recorded c" and st: "rb_step c ev = Inr c'"
  show "placement_recorded c'"
  proof (cases ev)
    case (RbReopen part disk)
    then obtain a g where a: "cp_assignment c = Some a" "open_partition disk part a (cp_job_file c) = Inr g" "cp_job_file c \<noteq> None \<or> \<not> pr_joint g"
      "c' = c\<lparr>cp_group := Some g, cp_job := cp_job_file c, cp_disk := disk\<rparr>"
      using st by (auto split: option.splits sum.splits if_splits)
    have "directory_fits j (Some (pa_replicas a))" if "cp_job_file c = Some j" for j
      using rec that a(1) by (simp add: placement_recorded_def)
    then show ?thesis using open_recorded [OF _ a(2,3)] a(1,4) rec by (simp add: placement_recorded_def)
  qed (use rec st in \<open>auto intro: advance_recorded begin_recorded split: if_splits simp: prod_eq_iff\<close>)
qed


definition ex_rb_events :: "rb_event list" where
  "ex_rb_events = [RbBegin ''rb'' 0 True [1], RbAdvance True, RbAdvance True, RbAdvance True, RbAdvance True]"

lemma ex_rb_events_run:
  "\<exists>c' job. run_steps rb_step ex_rb_cluster ex_rb_events = Inr c' \<and> cp_job c' = Some job \<and> rj_phase job = MembershipChanged"
  using ex_rb_group_facts(4)
  by (auto simp: ex_rb_events_def begin_rebalance_def ex_rb_cluster_def job_plan_def advance_rebalance_def rb_learners_added_def
      rb_segments_copied_def rb_log_caught_up_def rb_log_source_def rb_membership_changed_def Let_def)


section \<open>A move to a stale member loses committed writes\<close>

text \<open>A change of the voters leaves a peer that is no leader as it is, without store when it has none.\<close>

lemma ensure_peer_keeps: "pr_peers g n = Some p \<Longrightarrow> pr_peers (ensure_peer g v) n = Some p"
  by (auto simp: ensure_peer_def set_peer_def)

lemma ensure_peers_keep: "pr_peers g n = Some p \<Longrightarrow> pr_peers (fold (\<lambda>v g. ensure_peer g v) vs g) n = Some p"
  by (induction vs arbitrary: g) (simp_all add: ensure_peer_keeps)

lemma ensure_peers_stores [simp]: "pr_stores (fold (\<lambda>v g. ensure_peer g v) vs g) = pr_stores g"
  by (induction vs arbitrary: g) (auto simp: ensure_peer_def set_peer_def)

lemma membership_keeps_peer:
  assumes "pr_peers g n = Some p" "rp_role p \<noteq> Leader"
  shows "pr_peers (set_voters g vs e) n = Some p" "pr_peers (set_joint_voters g old new e) n = Some p"
  using assms by (auto simp: set_voters_def set_joint_voters_def persist_membership_def step_down_non_voters_def Let_def ensure_peers_keep)

lemma membership_keeps_storeless:
  assumes "pr_stores g n = None"
  shows "pr_stores (set_voters g vs e) n = None" "pr_stores (set_joint_voters g old new e) n = None"
  using assms by (auto simp: set_voters_def set_joint_voters_def persist_membership_def step_down_non_voters_def Let_def)

text \<open>A sole voter elects itself and commits what it is given, whatever other nodes hold.\<close>

lemma lone_elected:
  assumes "pr_voters g = [n]" "pr_peers g n = Some p" "pr_stores g n = None" "n \<in> set online" "rp_role p \<noteq> Leader"
    "filter (\<lambda>m. m = n) online = [n]"
  shows "ensure_leader_preferring g online pref = (Inr (n, add64 (rp_current_term p) 1),
    set_peer g n (become_leader (p\<lparr>rp_role := Candidate, rp_voted_for := Some n, rp_current_term := add64 (rp_current_term p) 1\<rparr>) [n]))"
  using assms
  by (auto simp: ensure_leader_preferring_def current_leader_def elect_among_def sort_candidates_def elect_def elect_conclude_def
      flush_peer_def set_peer_def raft_quorum_def Let_def split: option.splits)

lemma lone_commits:
  assumes "pr_voters g = [n]" "pr_peers g n = Some p" "pr_stores g n = None" "rp_role p = Leader" "rp_log p = []" "rp_commit_index p = 0"
  shows "\<exists>r g'. propose g n cmd online = (Inr r, g') \<and> po_committed r \<and> po_position r = 1
    \<and> po_entry r = \<lparr>le_term = rp_current_term p, le_index = 1, le_command = cmd\<rparr>"
  using assms
  by (auto simp: propose_def propose_replicate_def flush_peer_def set_peer_def advance_commit_def commit_candidate_def raft_quorum_def
      match_of_def commit_index_of_def last_log_index_def add64_def term_at_def entry_at_def Let_def)

text \<open>C8: A rebalance catches up only the nodes that were not replicas before. There is a reachable
  group in which a write is committed on nodes 2 and 3, and a rebalance onto node 1 that succeeds
  in all its steps, after which node 1 is the leader, in the term of the first commit, and commits a different write
  at the same position.\<close>

theorem rebalance_can_lose_commits:
  "\<exists>c g p. cp_group c = Some g \<and> raft_reachable g \<and> pr_peers g 2 = Some p \<and> committed_log p = [ex_entry 1 (CmdPut [7] [8])]
     \<and> (\<exists>job phases c' g' r g1. rebalance_partition ''rb'' 0 True (\<lambda>_. (True, True)) c [1] = (Inr (job, phases), c')
          \<and> cp_group c' = Some g' \<and> current_leader g' = Some (1, 1)
          \<and> propose g' 1 (CmdDelete [9]) [1, 2, 3] = (Inr r, g1) \<and> po_committed r \<and> po_position r = 1
          \<and> po_entry r = ex_entry 1 (CmdDelete [9]))"
proof -
  obtain p where p: "pr_peers ex_rb_group 2 = Some p" "committed_log p = [ex_entry 1 (CmdPut [7] [8])]" using ex_rb_group_facts(3) by auto
  obtain q where q: "pr_peers ex_rb_group 1 = Some q" "rp_role q = Follower" "rp_log q = []" "rp_current_term q = 0" "rp_commit_index q = 0"
    using ex_rb_group_facts(2) by auto
  define q' where "q' = become_leader (q\<lparr>rp_role := Candidate, rp_voted_for := Some 1, rp_current_term := add64 (rp_current_term q) 1\<rparr>) [1]"
  have moved: "pr_voters ex_rb_moved = [1]" "pr_peers ex_rb_moved 1 = Some q" "pr_stores ex_rb_moved 1 = None"
    using q(1,2) ex_rb_group_facts(5) by (simp_all add: ex_rb_moved_def membership_keeps_peer membership_keeps_storeless)
  have final: "ex_rb_final = set_peer ex_rb_moved 1 q'"
    unfolding ex_rb_final_def q'_def using moved q(2) by (simp add: lone_elected)
  have q': "rp_role q' = Leader" "rp_log q' = []" "rp_commit_index q' = 0" "rp_current_term q' = 1"
    using q by (simp_all add: q'_def become_leader_def add64_def Let_def)
  have l: "current_leader ex_rb_final = Some (1, 1)" using moved q' by (simp add: final set_peer_def current_leader_def)
  obtain r g1 where r: "propose ex_rb_final 1 (CmdDelete [9]) [1, 2, 3] = (Inr r, g1)" "po_committed r" "po_position r = 1"
    "po_entry r = ex_entry 1 (CmdDelete [9])"
    using lone_commits [of ex_rb_final 1 q' "CmdDelete [9]" "[1, 2, 3]"] moved q' by (auto simp: final set_peer_def ex_entry_def)
  obtain job phases c' where d: "ex_rb_done = (Inr (job, phases), c')" "cp_group c' = Some ex_rb_final"
    using ex_rb_done_eq by (metis prod.collapse)
  show ?thesis
    by (rule exI [of _ ex_rb_cluster], rule exI [of _ ex_rb_group], rule exI [of _ p])
      (use ex_rb_group_reachable p d l r in \<open>auto simp: ex_rb_cluster_def ex_rb_done_def\<close>)
qed

end
