(* ===== verification/Spec2Isabelle.thy ===== *)
theory Spec2Isabelle
  imports Descriptors Segment Events Chunks Ownership Heap_Isolation Heap_Models Raft_Rebalance
begin

text \<open>
  A verification library for Residiuum, a salvage-oriented storage engine
  (\<^verbatim>\<open>src/crates\<close>).

  \<^verbatim>\<open>residiuum-format\<close> defines the bytes on disk.
  \<open>Prelude\<close> holds the machine types, \<^verbatim>\<open>Result\<close> combinators, byte order and the generic
  interfaces.
  \<open>Cbor_Envelope\<close> models \<^verbatim>\<open>cbor_envelope.rs\<close>; \<open>Cbor_Determinism\<close> shows that its reader accepts
  exactly the canonical encodings and that its writer produces them.
  \<open>Frame\<close> models \<^verbatim>\<open>limits.rs\<close>, \<^verbatim>\<open>kinds.rs\<close>, \<^verbatim>\<open>integrity.rs\<close> and \<^verbatim>\<open>frame.rs\<close> and shows the
  round trip, the exact set of accepted frames, and what a substituted body requires.
\<close>

end
